theory Spec2Isabelle
  imports Complex_Main
begin

section \<open>Double-precision values in exact arithmetic\<close>

text \<open>
  The source computes on C doubles.  A value is modelled as either a real number
  (arithmetic on it is exact: no rounding, no overflow) or the single non-number
  \<open>NaN\<close>, into which every non-finite result (a division by zero, the square root
  or logarithm of a number outside the domain) collapses.  \<open>NaN\<close> absorbs every
  arithmetic operation and fails every comparison, as in IEEE 754; the test
  \<open>y[0] != y[0]\<close> of the source is \<open>dne (y 0) (y 0)\<close>.
\<close>

datatype dbl = NaN | Fin real

instantiation dbl :: "{zero, one, plus, minus, uminus, times, inverse}"
begin

definition zero_dbl :: dbl where "zero_dbl = Fin 0"

definition one_dbl :: dbl where "one_dbl = Fin 1"

fun plus_dbl :: "dbl \<Rightarrow> dbl \<Rightarrow> dbl" where
  "plus_dbl (Fin a) (Fin b) = Fin (a + b)"
| "plus_dbl _ _ = NaN"

fun minus_dbl :: "dbl \<Rightarrow> dbl \<Rightarrow> dbl" where
  "minus_dbl (Fin a) (Fin b) = Fin (a - b)"
| "minus_dbl _ _ = NaN"

fun uminus_dbl :: "dbl \<Rightarrow> dbl" where
  "uminus_dbl (Fin a) = Fin (- a)"
| "uminus_dbl NaN = NaN"

fun times_dbl :: "dbl \<Rightarrow> dbl \<Rightarrow> dbl" where
  "times_dbl (Fin a) (Fin b) = Fin (a * b)"
| "times_dbl _ _ = NaN"

fun divide_dbl :: "dbl \<Rightarrow> dbl \<Rightarrow> dbl" where
  "divide_dbl (Fin a) (Fin b) = (if b = 0 then NaN else Fin (a / b))"
| "divide_dbl _ _ = NaN"

fun inverse_dbl :: "dbl \<Rightarrow> dbl" where
  "inverse_dbl (Fin a) = (if a = 0 then NaN else Fin (inverse a))"
| "inverse_dbl NaN = NaN"

instance ..

end

fun dne :: "dbl \<Rightarrow> dbl \<Rightarrow> bool" where
  "dne (Fin a) (Fin b) = (a \<noteq> b)"
| "dne _ _ = True"

fun deq :: "dbl \<Rightarrow> dbl \<Rightarrow> bool" where
  "deq (Fin a) (Fin b) = (a = b)"
| "deq _ _ = False"

fun dle :: "dbl \<Rightarrow> dbl \<Rightarrow> bool" where
  "dle (Fin a) (Fin b) = (a \<le> b)"
| "dle _ _ = False"

fun disnan :: "dbl \<Rightarrow> bool" where
  "disnan NaN = True"
| "disnan (Fin a) = False"

fun dsqrt :: "dbl \<Rightarrow> dbl" where
  "dsqrt (Fin a) = (if a < 0 then NaN else Fin (sqrt a))"
| "dsqrt NaN = NaN"

fun dlog :: "dbl \<Rightarrow> dbl" where
  "dlog (Fin a) = (if a \<le> 0 then NaN else Fin (ln a))"
| "dlog NaN = NaN"

text \<open>\<open>dsum f k\<close> is \<open>f 0 + ... + f (k - 1)\<close>, accumulated from the left as a loop does.\<close>

primrec dsum :: "(nat \<Rightarrow> dbl) \<Rightarrow> nat \<Rightarrow> dbl" where
  "dsum f 0 = 0"
| "dsum f (Suc k) = dsum f k + f k"


section \<open>The linear-algebra backend on flat buffers\<close>

text \<open>
  A buffer is read through a view: the function from an element offset (counted from
  the pointer passed to the routine) to the value stored there.  The BLAS and LAPACK
  routines below follow the reference implementation in exact arithmetic: matrices are
  column-major with a leading dimension, element \<open>(i, j)\<close> at offset \<open>i + j * ld\<close>.
  Every increment the source passes is 1, so vectors are contiguous.  Each routine
  returns the new view of the buffer it writes; offsets outside the written region keep
  their old value.
\<close>

type_synonym view = "nat \<Rightarrow> dbl"

datatype trans = NoTrans | Trans

text \<open>Element \<open>(i, j)\<close> of \<open>op(a)\<close>.\<close>

fun opm :: "trans \<Rightarrow> view \<Rightarrow> nat \<Rightarrow> nat \<Rightarrow> nat \<Rightarrow> dbl" where
  "opm NoTrans a lda i j = a (i + j * lda)"
| "opm Trans a lda i j = a (j + i * lda)"

definition dcopy :: "nat \<Rightarrow> view \<Rightarrow> view \<Rightarrow> view" where
  "dcopy n x y = (\<lambda>z. if z < n then x z else y z)"

definition daxpy :: "nat \<Rightarrow> dbl \<Rightarrow> view \<Rightarrow> view \<Rightarrow> view" where
  "daxpy n alpha x y = (\<lambda>z. if z < n then y z + alpha * x z else y z)"

definition dnrm2 :: "nat \<Rightarrow> view \<Rightarrow> dbl" where
  "dnrm2 n x = dsqrt (dsum (\<lambda>i. x i * x i) n)"

text \<open>
  \<open>c := alpha * op(a) * op(b) + beta * c\<close> with \<open>op(a)\<close> of size \<open>m \<times> k\<close> and
  \<open>op(b)\<close> of size \<open>k \<times> n\<close>.  When \<open>beta\<close> is zero the old \<open>c\<close> is not read.
\<close>

definition dgemm ::
  "trans \<Rightarrow> trans \<Rightarrow> nat \<Rightarrow> nat \<Rightarrow> nat \<Rightarrow> dbl \<Rightarrow> view \<Rightarrow> nat \<Rightarrow> view \<Rightarrow> nat \<Rightarrow> dbl \<Rightarrow> view \<Rightarrow> nat \<Rightarrow> view"
where
  "dgemm transa transb m n k alpha a lda b ldb beta c ldc =
     (\<lambda>z. if z mod ldc < m \<and> z div ldc < n then
            (let ab = alpha * dsum (\<lambda>l. opm transa a lda (z mod ldc) l * opm transb b ldb l (z div ldc)) k
             in if beta = 0 then ab else ab + beta * c z)
          else c z)"

text \<open>\<open>y := alpha * op(a) * x + beta * y\<close> with \<open>a\<close> of size \<open>m \<times> n\<close>.\<close>

definition dgemv ::
  "trans \<Rightarrow> nat \<Rightarrow> nat \<Rightarrow> dbl \<Rightarrow> view \<Rightarrow> nat \<Rightarrow> view \<Rightarrow> dbl \<Rightarrow> view \<Rightarrow> view"
where
  "dgemv tr m n alpha a lda x beta y =
     (let leny = (case tr of NoTrans \<Rightarrow> m | Trans \<Rightarrow> n);
          lenx = (case tr of NoTrans \<Rightarrow> n | Trans \<Rightarrow> m)
      in (\<lambda>z. if z < leny then
                 (let ax = alpha * dsum (\<lambda>l. opm tr a lda z l * x l) lenx
                  in if beta = 0 then ax else ax + beta * y z)
               else y z))"

text \<open>\<open>a := alpha * x * y\<^sup>T + a\<close> with \<open>a\<close> of size \<open>m \<times> n\<close>.\<close>

definition dger :: "nat \<Rightarrow> nat \<Rightarrow> dbl \<Rightarrow> view \<Rightarrow> view \<Rightarrow> view \<Rightarrow> nat \<Rightarrow> view" where
  "dger m n alpha x y a lda =
     (\<lambda>z. if z mod lda < m \<and> z div lda < n then a z + x (z mod lda) * (alpha * y (z div lda))
          else a z)"

text \<open>
  \<open>x := L * x\<close> for the lower triangle \<open>L\<close> of \<open>a\<close> (uplo \<open>L\<close>, no transpose,
  non-unit diagonal): the only form the source calls.
\<close>

definition dtrmv :: "nat \<Rightarrow> view \<Rightarrow> nat \<Rightarrow> view \<Rightarrow> view" where
  "dtrmv n a lda x = (\<lambda>z. if z < n then dsum (\<lambda>k. a (z + k * lda) * x k) (Suc z) else x z)"

subsection \<open>Cholesky factorisation\<close>

text \<open>
  \<open>dpotrf\<close> with uplo \<open>L\<close> (the unblocked column algorithm): column \<open>j\<close> computes
  the pivot \<open>a\<^sub>j\<^sub>j - \<Sum>\<^sub>k\<^sub><\<^sub>j a\<^sub>j\<^sub>k\<^sup>2\<close>; when it is not positive (or not a number) the pivot
  is stored, the routine stops and reports \<open>info = j + 1\<close>; otherwise its square root
  is the diagonal entry and the column below it is updated and scaled.  The strict
  upper triangle is never touched.  \<open>potf2 j\<close> is the state after the first \<open>j\<close>
  columns; \<open>info = 0\<close> means success.
\<close>

definition potf2_pivot :: "nat \<Rightarrow> view \<Rightarrow> nat \<Rightarrow> dbl" where
  "potf2_pivot j a lda = a (j + j * lda) - dsum (\<lambda>k. a (j + k * lda) * a (j + k * lda)) j"

definition potf2_column :: "nat \<Rightarrow> nat \<Rightarrow> view \<Rightarrow> nat \<Rightarrow> dbl \<Rightarrow> view" where
  "potf2_column j n a lda ajj =
     (\<lambda>z. if z = j + j * lda then ajj
          else if z div lda = j \<and> j < z mod lda \<and> z mod lda < n then
            (a z - dsum (\<lambda>k. a (z mod lda + k * lda) * a (j + k * lda)) j) * (1 / ajj)
          else a z)"

primrec potf2 :: "nat \<Rightarrow> nat \<Rightarrow> view \<Rightarrow> nat \<Rightarrow> view \<times> nat" where
  "potf2 0 n a lda = (a, 0)"
| "potf2 (Suc j) n a lda =
     (case potf2 j n a lda of (a', info) \<Rightarrow>
        if info \<noteq> 0 then (a', info)
        else (let ajj = potf2_pivot j a' lda in
              if dle ajj 0 \<or> disnan ajj then (a'(j + j * lda := ajj), Suc j)
              else (potf2_column j n a' lda (dsqrt ajj), 0)))"

definition dpotrf :: "nat \<Rightarrow> view \<Rightarrow> nat \<Rightarrow> view \<times> nat" where
  "dpotrf n a lda = potf2 n n a lda"

subsection \<open>Triangular solves\<close>

text \<open>
  Forward substitution \<open>L x = b\<close> on the column of \<open>b\<close> that starts at offset
  \<open>off\<close>, in place: \<open>trsv_LN i\<close> has solved rows \<open>0..i-1\<close>.
\<close>

primrec trsv_LN :: "nat \<Rightarrow> view \<Rightarrow> nat \<Rightarrow> nat \<Rightarrow> view \<Rightarrow> view" where
  "trsv_LN 0 a lda off b = b"
| "trsv_LN (Suc i) a lda off b =
     (let x = trsv_LN i a lda off b
      in x(off + i := (x (off + i) - dsum (\<lambda>k. a (i + k * lda) * x (off + k)) i) / a (i + i * lda)))"

text \<open>
  Back substitution \<open>L\<^sup>T x = b\<close>, in place, from row \<open>n - 1\<close> upwards:
  \<open>trsv_LT m\<close> has solved the last \<open>m\<close> rows.
\<close>

primrec trsv_LT :: "nat \<Rightarrow> nat \<Rightarrow> view \<Rightarrow> nat \<Rightarrow> nat \<Rightarrow> view \<Rightarrow> view" where
  "trsv_LT 0 n a lda off b = b"
| "trsv_LT (Suc m) n a lda off b =
     (let x = trsv_LT m n a lda off b; i = n - Suc m
      in x(off + i := (x (off + i) - dsum (\<lambda>k. a (i + 1 + k + i * lda) * x (off + i + 1 + k)) m)
                        / a (i + i * lda)))"

text \<open>The same solve on each of the first \<open>nrhs\<close> columns of \<open>b\<close>.\<close>

primrec each_column :: "nat \<Rightarrow> nat \<Rightarrow> (nat \<Rightarrow> view \<Rightarrow> view) \<Rightarrow> view \<Rightarrow> view" where
  "each_column 0 ldb f b = b"
| "each_column (Suc c) ldb f b = f (c * ldb) (each_column c ldb f b)"

definition dtrsm_L :: "trans \<Rightarrow> nat \<Rightarrow> nat \<Rightarrow> view \<Rightarrow> nat \<Rightarrow> view \<Rightarrow> nat \<Rightarrow> view" where
  "dtrsm_L tr n nrhs a lda b ldb =
     (case tr of
        NoTrans \<Rightarrow> each_column nrhs ldb (trsv_LN n a lda) b
      | Trans \<Rightarrow> each_column nrhs ldb (trsv_LT n n a lda) b)"

text \<open>
  \<open>dtrtrs\<close> (uplo \<open>L\<close>, non-unit diagonal) first looks for an exactly zero diagonal
  entry; if there is one it reports its position and leaves \<open>b\<close> alone.
\<close>

definition dtrtrs :: "trans \<Rightarrow> nat \<Rightarrow> nat \<Rightarrow> view \<Rightarrow> nat \<Rightarrow> view \<Rightarrow> nat \<Rightarrow> view \<times> nat" where
  "dtrtrs tr n nrhs a lda b ldb =
     (case find (\<lambda>i. deq (a (i + i * lda)) 0) [0..<n] of
        Some i \<Rightarrow> (b, Suc i)
      | None \<Rightarrow> (dtrsm_L tr n nrhs a lda b ldb, 0))"

text \<open>\<open>dpotrs\<close> (uplo \<open>L\<close>): solves \<open>L L\<^sup>T x = b\<close>; it checks nothing.\<close>

definition dpotrs :: "nat \<Rightarrow> nat \<Rightarrow> view \<Rightarrow> nat \<Rightarrow> view \<Rightarrow> nat \<Rightarrow> view \<times> nat" where
  "dpotrs n nrhs a lda b ldb =
     (dtrsm_L Trans n nrhs a lda (dtrsm_L NoTrans n nrhs a lda b ldb) ldb, 0)"


section \<open>Storage\<close>

text \<open>
  The arrays a routine works on.  A pointer is an array together with a leading index:
  \<open>(Buf_C, t)\<close> is \<open>&C[t,0,0]\<close>, and a one- or two-dimensional temporary is
  addressed with leading index 0.  A store gives the view behind every pointer.  No
  BLAS call of the source reaches beyond the slice its pointer starts, so distinct
  pointers never overlap.  Pointer comparisons of the source (\<open>&mu_x[0] != &mu_cond[0]\<close>)
  compare these pairs.
\<close>

datatype buf =
    Buf_A | Buf_sigma_states | Buf_C | Buf_sigma_obs | Buf_data
  | Buf_mu_predict | Buf_sigma_predict | Buf_mu_predicts | Buf_sigma_predicts
  | Buf_temp_pp | Buf_temp_pn | Buf_temp_p | Buf_temp_nn | Buf_temp_nn2 | Buf_temp_n
  | Buf_filtered_mus | Buf_filtered_sigmas | Buf_smoothed_mus | Buf_smoothed_sigmas
  | Buf_randseq | Buf_ExxnT

type_synonym ptr = "buf \<times> nat"

type_synonym store = "ptr \<Rightarrow> view"

definition dcopy_s :: "nat \<Rightarrow> ptr \<Rightarrow> ptr \<Rightarrow> store \<Rightarrow> store" where
  "dcopy_s n x y s = s(y := dcopy n (s x) (s y))"

definition daxpy_s :: "nat \<Rightarrow> dbl \<Rightarrow> ptr \<Rightarrow> ptr \<Rightarrow> store \<Rightarrow> store" where
  "daxpy_s n alpha x y s = s(y := daxpy n alpha (s x) (s y))"

definition dgemm_s ::
  "trans \<Rightarrow> trans \<Rightarrow> nat \<Rightarrow> nat \<Rightarrow> nat \<Rightarrow> dbl \<Rightarrow> ptr \<Rightarrow> nat \<Rightarrow> ptr \<Rightarrow> nat \<Rightarrow> dbl \<Rightarrow> ptr \<Rightarrow> nat \<Rightarrow> store \<Rightarrow> store"
where
  "dgemm_s transa transb m n k alpha a lda b ldb beta c ldc s =
     s(c := dgemm transa transb m n k alpha (s a) lda (s b) ldb beta (s c) ldc)"

definition dgemv_s ::
  "trans \<Rightarrow> nat \<Rightarrow> nat \<Rightarrow> dbl \<Rightarrow> ptr \<Rightarrow> nat \<Rightarrow> ptr \<Rightarrow> dbl \<Rightarrow> ptr \<Rightarrow> store \<Rightarrow> store"
where
  "dgemv_s tr m n alpha a lda x beta y s = s(y := dgemv tr m n alpha (s a) lda (s x) beta (s y))"

definition dger_s :: "nat \<Rightarrow> nat \<Rightarrow> dbl \<Rightarrow> ptr \<Rightarrow> ptr \<Rightarrow> ptr \<Rightarrow> nat \<Rightarrow> store \<Rightarrow> store" where
  "dger_s m n alpha x y a lda s = s(a := dger m n alpha (s x) (s y) (s a) lda)"

definition dtrmv_s :: "nat \<Rightarrow> ptr \<Rightarrow> nat \<Rightarrow> ptr \<Rightarrow> store \<Rightarrow> store" where
  "dtrmv_s n a lda x s = s(x := dtrmv n (s a) lda (s x))"

definition dpotrf_s :: "nat \<Rightarrow> ptr \<Rightarrow> nat \<Rightarrow> store \<Rightarrow> store \<times> nat" where
  "dpotrf_s n a lda s = (case dpotrf n (s a) lda of (v, info) \<Rightarrow> (s(a := v), info))"

definition dtrtrs_s :: "trans \<Rightarrow> nat \<Rightarrow> nat \<Rightarrow> ptr \<Rightarrow> nat \<Rightarrow> ptr \<Rightarrow> nat \<Rightarrow> store \<Rightarrow> store \<times> nat" where
  "dtrtrs_s tr n nrhs a lda b ldb s =
     (case dtrtrs tr n nrhs (s a) lda (s b) ldb of (v, info) \<Rightarrow> (s(b := v), info))"

definition dpotrs_s :: "nat \<Rightarrow> nat \<Rightarrow> ptr \<Rightarrow> nat \<Rightarrow> ptr \<Rightarrow> nat \<Rightarrow> store \<Rightarrow> store \<times> nat" where
  "dpotrs_s n nrhs a lda b ldb s =
     (case dpotrs n nrhs (s a) lda (s b) ldb of (v, info) \<Rightarrow> (s(b := v), info))"


section \<open>The five primitives\<close>

text \<open>
  Each primitive is the sequence of backend calls of the source, in order.  The sizes
  a primitive reads from the shape of a memoryview argument (\<open>p = C.shape[0]\<close>,
  \<open>n = C.shape[1]\<close>, \<open>n = mu.shape[0]\<close>, \<open>n = A.shape[0]\<close>) are its first
  parameters.  The status \<open>info\<close> that the LAPACK calls return is bound and never
  read, as in the source.
\<close>

definition dsq :: "dbl \<Rightarrow> dbl" where
  "dsq x = x * x"

definition condition_on ::
  "nat \<Rightarrow> nat \<Rightarrow> ptr \<Rightarrow> ptr \<Rightarrow> ptr \<Rightarrow> ptr \<Rightarrow> ptr \<Rightarrow> ptr \<Rightarrow> ptr \<Rightarrow> ptr \<Rightarrow> ptr \<Rightarrow> ptr \<Rightarrow> store \<Rightarrow> dbl \<times> store"
where
  "condition_on p n mu_x sigma_x C sigma_obs y mu_cond sigma_cond temp_p temp_pn temp_pp s =
     (if dne (s y 0) (s y 0) then
        (let s1 = dcopy_s n mu_x mu_cond s;
             s2 = dcopy_s (n * n) sigma_x sigma_cond s1
         in (Fin 0, s2))
      else
        (let s1 = dgemm_s Trans NoTrans p n n (Fin 1) C n sigma_x n (Fin 0) temp_pn p s;
             s2 = dcopy_s (p * p) sigma_obs temp_pp s1;
             s3 = dgemm_s NoTrans NoTrans p p n (Fin 1) temp_pn p C n (Fin 1) temp_pp p s2;
             (s4, info) = dpotrf_s p temp_pp p s3;
             s5 = dcopy_s p y temp_p s4;
             s6 = dgemv_s Trans n p (Fin (- 1)) C n mu_x (Fin 1) temp_p s5;
             (s7, info) = dtrtrs_s NoTrans p 1 temp_pp p temp_p p s6;
             ll = Fin (- 1 / 2) * dsq (dnrm2 p (s7 temp_p));
             (s8, info) = dtrtrs_s Trans p 1 temp_pp p temp_p p s7;
             s9 = (if mu_x \<noteq> mu_cond then dcopy_s n mu_x mu_cond s8 else s8);
             s10 = dgemv_s Trans p n (Fin 1) temp_pn p temp_p (Fin 1) mu_cond s9;
             (s11, info) = dtrtrs_s NoTrans p n temp_pp p temp_pn p s10;
             s12 = (if sigma_x \<noteq> sigma_cond then dcopy_s (n * n) sigma_x sigma_cond s11 else s11);
             s13 = dgemm_s Trans NoTrans n n p (Fin (- 1)) temp_pn p temp_pn p (Fin 1) sigma_cond n s12;
             ll = ll - Fin (real p / 2) * dlog (Fin (2 * pi));
             ll = fold (\<lambda>i ll. ll - dlog (s13 temp_pp (i + i * p))) [0..<p] ll
         in (ll, s13)))"

definition predict ::
  "nat \<Rightarrow> ptr \<Rightarrow> ptr \<Rightarrow> ptr \<Rightarrow> ptr \<Rightarrow> ptr \<Rightarrow> ptr \<Rightarrow> ptr \<Rightarrow> store \<Rightarrow> store"
where
  "predict n mu sigma A sigma_states mu_predict sigma_predict temp_nn s =
     (let s1 = dgemv_s Trans n n (Fin 1) A n mu (Fin 0) mu_predict s;
          s2 = dgemm_s Trans NoTrans n n n (Fin 1) A n sigma n (Fin 0) temp_nn n s1;
          s3 = dcopy_s (n * n) sigma_states sigma_predict s2;
          s4 = dgemm_s NoTrans NoTrans n n n (Fin 1) temp_nn n A n (Fin 1) sigma_predict n s3
      in s4)"

definition sample_gaussian :: "nat \<Rightarrow> ptr \<Rightarrow> ptr \<Rightarrow> ptr \<Rightarrow> store \<Rightarrow> store" where
  "sample_gaussian n mu sigma randvec s =
     (let (s1, info) = dpotrf_s n sigma n s;
          s2 = dtrmv_s n sigma n randvec s1;
          s3 = daxpy_s n (Fin 1) mu randvec s2
      in s3)"

definition rts_backward_step ::
  "nat \<Rightarrow> ptr \<Rightarrow> ptr \<Rightarrow> ptr \<Rightarrow> ptr \<Rightarrow> ptr \<Rightarrow> ptr \<Rightarrow> ptr \<Rightarrow> ptr \<Rightarrow> ptr \<Rightarrow> ptr \<Rightarrow> store \<Rightarrow> store"
where
  "rts_backward_step n A sigma_states filtered_mu filtered_sigma next_predict_mu next_predict_sigma
       next_smoothed_mu next_smoothed_sigma temp_nn temp_nn2 s =
     (let s1 = dgemm_s Trans NoTrans n n n (Fin 1) A n filtered_sigma n (Fin 0) temp_nn n s;
          s2 = dcopy_s (n * n) next_predict_sigma temp_nn2 s1;
          (s3, info) = dpotrf_s n temp_nn2 n s2;
          (s4, info) = dpotrs_s n n temp_nn2 n temp_nn n s3;
          s5 = daxpy_s n (Fin (- 1)) next_smoothed_mu next_predict_mu s4;
          s6 = dgemv_s Trans n n (Fin (- 1)) temp_nn n next_predict_mu (Fin 1) filtered_mu s5;
          s7 = daxpy_s (n * n) (Fin (- 1)) next_smoothed_sigma next_predict_sigma s6;
          s8 = dgemm_s NoTrans NoTrans n n n (Fin (- 1)) next_predict_sigma n temp_nn n (Fin 0) temp_nn2 n s7;
          s9 = dgemm_s Trans NoTrans n n n (Fin 1) temp_nn n temp_nn2 n (Fin 1) filtered_sigma n s8
      in s9)"

definition set_dynamics_stats :: "nat \<Rightarrow> ptr \<Rightarrow> ptr \<Rightarrow> ptr \<Rightarrow> ptr \<Rightarrow> ptr \<Rightarrow> store \<Rightarrow> store" where
  "set_dynamics_stats n mk mkn Pkns GkT ExxnT s =
     (let s1 = dgemm_s Trans NoTrans n n n (Fin 1) GkT n Pkns n (Fin 0) ExxnT n s;
          s2 = dger_s n n (Fin 1) mk mkn ExxnT n s1
      in s2)"


section \<open>The four orchestration routines\<close>

text \<open>
  An array argument is its shape and its contents in C order; offsets beyond the shape
  are whatever memory lies behind the buffer (the file is compiled with bounds checks
  off).  The typed memoryview declarations fix the number of dimensions, so each rank
  is a type of its own.
\<close>

record array1 =
  shape1_0 :: nat
  flat1 :: view

record array2 =
  shape2_0 :: nat
  shape2_1 :: nat
  flat2 :: view

record array3 =
  shape3_0 :: nat
  shape3_1 :: nat
  shape3_2 :: nat
  flat3 :: view

definition row2 :: "array2 \<Rightarrow> nat \<Rightarrow> view" where
  "row2 X t = (\<lambda>z. flat2 X (t * shape2_1 X + z))"

definition slab3 :: "array3 \<Rightarrow> nat \<Rightarrow> view" where
  "slab3 X t = (\<lambda>z. flat3 X (t * (shape3_1 X * shape3_2 X) + z))"

text \<open>
  The store a routine starts from: the five array arguments behind their pointers, and
  \<open>heap\<close>, the arbitrary contents of the memory that \<open>np.empty\<close> hands out, behind
  every other pointer.
\<close>

definition load_inputs :: "array3 \<Rightarrow> array3 \<Rightarrow> array3 \<Rightarrow> array3 \<Rightarrow> array2 \<Rightarrow> store \<Rightarrow> store" where
  "load_inputs A sigma_states C sigma_obs data heap =
     (\<lambda>(b, t). if b = Buf_A then slab3 A t
               else if b = Buf_sigma_states then slab3 sigma_states t
               else if b = Buf_C then slab3 C t
               else if b = Buf_sigma_obs then slab3 sigma_obs t
               else if b = Buf_data then row2 data t
               else heap (b, t))"

text \<open>The arrays a routine returns, read back in C order.\<close>

definition read_rows :: "nat \<Rightarrow> nat \<Rightarrow> buf \<Rightarrow> store \<Rightarrow> dbl list list" where
  "read_rows T n b s = map (\<lambda>t. map (s (b, t)) [0..<n]) [0..<T]"

definition read_mats :: "nat \<Rightarrow> nat \<Rightarrow> buf \<Rightarrow> store \<Rightarrow> dbl list list list" where
  "read_mats T n b s = map (\<lambda>t. map (\<lambda>i. map (\<lambda>j. s (b, t) (i * n + j)) [0..<n]) [0..<n]) [0..<T]"

text \<open>
  \<open>ValueError\<close> is the exception numpy raises.  \<open>OutOfBounds\<close> is not an exception:
  the source is compiled with \<open>boundscheck=False\<close> and \<open>wraparound=False\<close>, so an
  index outside an array is an access outside its buffer, whose effect the source
  does not determine.  The model gives such a call this outcome and follows it no
  further.
\<close>

datatype error = ValueError | OutOfBounds

text \<open>\<open>np.copy\<close> of the initial belief into fresh buffers.\<close>

definition copy_init :: "array1 \<Rightarrow> array2 \<Rightarrow> store \<Rightarrow> store" where
  "copy_init mu_init sigma_init s =
     s((Buf_mu_predict, 0) := dcopy (shape1_0 mu_init) (flat1 mu_init) (s (Buf_mu_predict, 0)),
       (Buf_sigma_predict, 0) :=
          dcopy (shape2_0 sigma_init * shape2_1 sigma_init) (flat2 sigma_init) (s (Buf_sigma_predict, 0)))"

text \<open>
  The slice assignments \<open>mu_predicts[0] = mu_init\<close> and
  \<open>sigma_predicts[0] = sigma_init\<close>: a memoryview copy, which compares the extents,
  broadcasts a source extent of 1 and raises \<open>ValueError\<close> on any other difference.
\<close>

definition assign_init :: "nat \<Rightarrow> array1 \<Rightarrow> array2 \<Rightarrow> store \<Rightarrow> error + store" where
  "assign_init n mu_init sigma_init s =
     (if shape1_0 mu_init \<noteq> n \<and> shape1_0 mu_init \<noteq> 1 then Inl ValueError
      else if shape2_0 sigma_init \<noteq> n \<and> shape2_0 sigma_init \<noteq> 1 then Inl ValueError
      else if shape2_1 sigma_init \<noteq> n \<and> shape2_1 sigma_init \<noteq> 1 then Inl ValueError
      else Inr (s((Buf_mu_predicts, 0) :=
                    (\<lambda>z. if z < n then flat1 mu_init (if shape1_0 mu_init = n then z else 0)
                         else s (Buf_mu_predicts, 0) z),
                  (Buf_sigma_predicts, 0) :=
                    (\<lambda>z. if z < n * n then
                           flat2 sigma_init
                             ((if shape2_0 sigma_init = n then z div n else 0) * shape2_1 sigma_init
                              + (if shape2_1 sigma_init = n then z mod n else 0))
                         else s (Buf_sigma_predicts, 0) z))))"

text \<open>
  The forward loop body of \<open>kalman_filter\<close> and \<open>filter_and_sample\<close> (the two
  loops are the same text), on the pair of the store and the running \<open>ll\<close>.
\<close>

definition filter_step :: "nat \<Rightarrow> nat \<Rightarrow> nat \<Rightarrow> store \<times> dbl \<Rightarrow> store \<times> dbl" where
  "filter_step p n t = (\<lambda>(s, ll).
     (let (l, s1) = condition_on p n (Buf_mu_predict, 0) (Buf_sigma_predict, 0)
                      (Buf_C, t) (Buf_sigma_obs, t) (Buf_data, t)
                      (Buf_filtered_mus, t) (Buf_filtered_sigmas, t)
                      (Buf_temp_p, 0) (Buf_temp_pn, 0) (Buf_temp_pp, 0) s;
          s2 = predict n (Buf_filtered_mus, t) (Buf_filtered_sigmas, t) (Buf_A, t) (Buf_sigma_states, t)
                 (Buf_mu_predict, 0) (Buf_sigma_predict, 0) (Buf_temp_nn, 0) s1
      in (s2, ll + l)))"

text \<open>The forward loop body of \<open>rts_smoother\<close> and \<open>E_step\<close>, which keeps every prediction.\<close>

definition smoother_step :: "nat \<Rightarrow> nat \<Rightarrow> nat \<Rightarrow> store \<times> dbl \<Rightarrow> store \<times> dbl" where
  "smoother_step p n t = (\<lambda>(s, ll).
     (let (l, s1) = condition_on p n (Buf_mu_predicts, t) (Buf_sigma_predicts, t)
                      (Buf_C, t) (Buf_sigma_obs, t) (Buf_data, t)
                      (Buf_smoothed_mus, t) (Buf_smoothed_sigmas, t)
                      (Buf_temp_p, 0) (Buf_temp_pn, 0) (Buf_temp_pp, 0) s;
          s2 = predict n (Buf_smoothed_mus, t) (Buf_smoothed_sigmas, t) (Buf_A, t) (Buf_sigma_states, t)
                 (Buf_mu_predicts, t + 1) (Buf_sigma_predicts, t + 1) (Buf_temp_nn, 0) s1
      in (s2, ll + l)))"

definition rts_step :: "nat \<Rightarrow> nat \<Rightarrow> store \<Rightarrow> store" where
  "rts_step m t s =
     rts_backward_step m (Buf_A, t) (Buf_sigma_states, t)
       (Buf_smoothed_mus, t) (Buf_smoothed_sigmas, t)
       (Buf_mu_predicts, t + 1) (Buf_sigma_predicts, t + 1)
       (Buf_smoothed_mus, t + 1) (Buf_smoothed_sigmas, t + 1)
       (Buf_temp_nn, 0) (Buf_temp_nn2, 0) s"

definition kalman_filter ::
  "array1 \<Rightarrow> array2 \<Rightarrow> array3 \<Rightarrow> array3 \<Rightarrow> array3 \<Rightarrow> array3 \<Rightarrow> array2 \<Rightarrow> store
     \<Rightarrow> error + dbl \<times> dbl list list \<times> dbl list list list"
where
  "kalman_filter mu_init sigma_init A sigma_states C sigma_obs data heap =
     (let T = shape3_0 C; p = shape3_1 C; n = shape3_2 C;
          s0 = copy_init mu_init sigma_init (load_inputs A sigma_states C sigma_obs data heap);
          (s, ll) = fold (filter_step p n) [0..<T] (s0, Fin 0)
      in Inr (ll, read_rows T n Buf_filtered_mus s, read_mats T n Buf_filtered_sigmas s))"

text \<open>
  The backward loops run \<open>t = T-2, ..., 0\<close>: \<open>rev [0..<T - 1]\<close>, which is empty for
  \<open>T \<le> 1\<close> as \<open>range(T-2, -1, -1)\<close> is.
\<close>

definition rts_smoother ::
  "array1 \<Rightarrow> array2 \<Rightarrow> array3 \<Rightarrow> array3 \<Rightarrow> array3 \<Rightarrow> array3 \<Rightarrow> array2 \<Rightarrow> store
     \<Rightarrow> error + dbl \<times> dbl list list \<times> dbl list list list"
where
  "rts_smoother mu_init sigma_init A sigma_states C sigma_obs data heap =
     (let T = shape3_0 C; p = shape3_1 C; n = shape3_2 C
      in case assign_init n mu_init sigma_init (load_inputs A sigma_states C sigma_obs data heap) of
           Inl e \<Rightarrow> Inl e
         | Inr s0 \<Rightarrow>
             (let (s1, ll) = fold (smoother_step p n) [0..<T] (s0, Fin 0);
                  s2 = fold (rts_step (shape3_1 A)) (rev [0..<T - 1]) s1
              in Inr (ll, read_rows T n Buf_smoothed_mus s2, read_mats T n Buf_smoothed_sigmas s2)))"

text \<open>
  \<open>filter_and_sample\<close> takes the standard-normal draws \<open>np.random.randn(T, n)\<close> as
  the argument \<open>randn\<close> (row \<open>t\<close> is \<open>randn t\<close>).  The backward loop calls
  \<open>condition_on\<close> with the dynamics in the place of the observation model, input and
  output beliefs in the same storage, and \<open>sigma_predict\<close> as the third temporary.
  After the forward loop the source samples from row \<open>T-1\<close> of the filtered
  beliefs; for \<open>T = 0\<close> that is row \<open>-1\<close> of arrays with no rows, which is
  \<open>OutOfBounds\<close>.
\<close>

definition sample_step :: "nat \<Rightarrow> nat \<Rightarrow> nat \<Rightarrow> nat \<Rightarrow> store \<Rightarrow> store" where
  "sample_step ap an n t s =
     (let (l, s1) = condition_on ap an (Buf_filtered_mus, t) (Buf_filtered_sigmas, t)
                      (Buf_A, t) (Buf_sigma_states, t) (Buf_randseq, t + 1)
                      (Buf_filtered_mus, t) (Buf_filtered_sigmas, t)
                      (Buf_temp_n, 0) (Buf_temp_nn, 0) (Buf_sigma_predict, 0) s
      in sample_gaussian n (Buf_filtered_mus, t) (Buf_filtered_sigmas, t) (Buf_randseq, t) s1)"

definition filter_and_sample ::
  "array1 \<Rightarrow> array2 \<Rightarrow> array3 \<Rightarrow> array3 \<Rightarrow> array3 \<Rightarrow> array3 \<Rightarrow> array2 \<Rightarrow> (nat \<Rightarrow> view) \<Rightarrow> store
     \<Rightarrow> error + dbl \<times> dbl list list"
where
  "filter_and_sample mu_init sigma_init A sigma_states C sigma_obs data randn heap =
     (let T = shape3_0 C; p = shape3_1 C; n = shape3_2 C;
          s0 = copy_init mu_init sigma_init (load_inputs A sigma_states C sigma_obs data heap);
          s0 = (\<lambda>(b, t). if b = Buf_randseq then randn t else s0 (b, t));
          (s1, ll) = fold (filter_step p n) [0..<T] (s0, Fin 0)
      in if T = 0 then Inl OutOfBounds
         else
           (let s2 = sample_gaussian n (Buf_filtered_mus, T - 1) (Buf_filtered_sigmas, T - 1)
                       (Buf_randseq, T - 1) s1;
                s3 = fold (sample_step (shape3_1 A) (shape3_2 A) n) (rev [0..<T - 1]) s2
            in Inr (ll, read_rows T n Buf_randseq s3)))"

text \<open>
  \<open>E_step\<close> allocates \<open>np.empty((T-1, n, n))\<close>, which raises \<open>ValueError\<close> for
  \<open>T = 0\<close>.
\<close>

definition stats_step :: "nat \<Rightarrow> nat \<Rightarrow> nat \<Rightarrow> store \<Rightarrow> store" where
  "stats_step m n t s =
     (let s1 = rts_step m t s
      in set_dynamics_stats n (Buf_smoothed_mus, t) (Buf_smoothed_mus, t + 1) (Buf_smoothed_sigmas, t + 1)
           (Buf_temp_nn, 0) (Buf_ExxnT, t) s1)"

definition E_step ::
  "array1 \<Rightarrow> array2 \<Rightarrow> array3 \<Rightarrow> array3 \<Rightarrow> array3 \<Rightarrow> array3 \<Rightarrow> array2 \<Rightarrow> store
     \<Rightarrow> error + dbl \<times> dbl list list \<times> dbl list list list \<times> dbl list list list"
where
  "E_step mu_init sigma_init A sigma_states C sigma_obs data heap =
     (let T = shape3_0 C; p = shape3_1 C; n = shape3_2 C
      in if T = 0 then Inl ValueError
         else case assign_init n mu_init sigma_init (load_inputs A sigma_states C sigma_obs data heap) of
           Inl e \<Rightarrow> Inl e
         | Inr s0 \<Rightarrow>
             (let (s1, ll) = fold (smoother_step p n) [0..<T] (s0, Fin 0);
                  s2 = fold (stats_step (shape3_1 A) n) (rev [0..<T - 1]) s1
              in Inr (ll, read_rows T n Buf_smoothed_mus s2, read_mats T n Buf_smoothed_sigmas s2,
                      read_mats (T - 1) n Buf_ExxnT s2)))"


section \<open>Derived notions used in the proofs\<close>

subsection \<open>Agreement of views on a prefix\<close>

text \<open>
  A routine reads only the first \<open>k\<close> elements behind a pointer; what two runs have
  in common is stated as agreement of two views on such a prefix.  \<open>restrict k v\<close>
  forgets everything beyond the prefix, and \<open>blank\<close> stands for the old contents of
  a buffer that is overwritten before it is read.
\<close>

definition eq_on :: "nat \<Rightarrow> view \<Rightarrow> view \<Rightarrow> bool" where
  "eq_on k v w \<longleftrightarrow> (\<forall>z<k. v z = w z)"

definition blank :: view where
  "blank = (\<lambda>z. NaN)"

definition restrict :: "nat \<Rightarrow> view \<Rightarrow> view" where
  "restrict k v = (\<lambda>z. if z < k then v z else NaN)"

subsection \<open>The conditioning step as a function of the values it reads\<close>

text \<open>
  The same backend calls as in \<open>condition_on\<close>, on views instead of a store:
  \<open>cond_tpn\<close> is \<open>temp_pn\<close> after the first product, \<open>cond_S\<close> the matrix
  presented to \<open>dpotrf\<close>, \<open>cond_L\<close> its factor, \<open>cond_r\<close> the innovation,
  \<open>cond_z\<close> and \<open>cond_w\<close> the two triangular solves on it, \<open>cond_V\<close> the solve
  on \<open>temp_pn\<close>.  \<open>condition_on_ll\<close>, \<open>condition_on_mu\<close> and
  \<open>condition_on_sigma\<close> below prove that \<open>condition_on\<close> computes \<open>cond_pure\<close>
  of the views behind its input pointers whenever the pointers are separated as
  \<open>cond_sep\<close> says: the temporaries are distinct from each other and from every
  other argument, and an output may coincide only with the input it replaces.
\<close>

definition cond_tpn :: "nat \<Rightarrow> nat \<Rightarrow> view \<Rightarrow> view \<Rightarrow> view" where
  "cond_tpn p n vC vsx = dgemm Trans NoTrans p n n (Fin 1) vC n vsx n (Fin 0) blank p"

definition cond_S :: "nat \<Rightarrow> nat \<Rightarrow> view \<Rightarrow> view \<Rightarrow> view \<Rightarrow> view" where
  "cond_S p n vC vsx vR =
     dgemm NoTrans NoTrans p p n (Fin 1) (cond_tpn p n vC vsx) p vC n (Fin 1) (dcopy (p * p) vR blank) p"

definition cond_L :: "nat \<Rightarrow> nat \<Rightarrow> view \<Rightarrow> view \<Rightarrow> view \<Rightarrow> view" where
  "cond_L p n vC vsx vR = fst (dpotrf p (cond_S p n vC vsx vR) p)"

definition cond_r :: "nat \<Rightarrow> nat \<Rightarrow> view \<Rightarrow> view \<Rightarrow> view \<Rightarrow> view" where
  "cond_r p n vC vmx vy = dgemv Trans n p (Fin (- 1)) vC n vmx (Fin 1) (dcopy p vy blank)"

definition cond_z :: "nat \<Rightarrow> nat \<Rightarrow> view \<Rightarrow> view \<Rightarrow> view \<Rightarrow> view \<Rightarrow> view \<Rightarrow> view" where
  "cond_z p n vmx vsx vC vR vy = fst (dtrtrs NoTrans p 1 (cond_L p n vC vsx vR) p (cond_r p n vC vmx vy) p)"

definition cond_w :: "nat \<Rightarrow> nat \<Rightarrow> view \<Rightarrow> view \<Rightarrow> view \<Rightarrow> view \<Rightarrow> view \<Rightarrow> view" where
  "cond_w p n vmx vsx vC vR vy = fst (dtrtrs Trans p 1 (cond_L p n vC vsx vR) p (cond_z p n vmx vsx vC vR vy) p)"

definition cond_V :: "nat \<Rightarrow> nat \<Rightarrow> view \<Rightarrow> view \<Rightarrow> view \<Rightarrow> view" where
  "cond_V p n vC vsx vR = fst (dtrtrs NoTrans p n (cond_L p n vC vsx vR) p (cond_tpn p n vC vsx) p)"

definition cond_mu :: "nat \<Rightarrow> nat \<Rightarrow> view \<Rightarrow> view \<Rightarrow> view \<Rightarrow> view \<Rightarrow> view \<Rightarrow> view" where
  "cond_mu p n vmx vsx vC vR vy =
     dgemv Trans p n (Fin 1) (cond_tpn p n vC vsx) p (cond_w p n vmx vsx vC vR vy) (Fin 1) (dcopy n vmx blank)"

definition cond_sigma :: "nat \<Rightarrow> nat \<Rightarrow> view \<Rightarrow> view \<Rightarrow> view \<Rightarrow> view" where
  "cond_sigma p n vsx vC vR =
     dgemm Trans NoTrans n n p (Fin (- 1)) (cond_V p n vC vsx vR) p (cond_V p n vC vsx vR) p (Fin 1)
       (dcopy (n * n) vsx blank) n"

definition cond_ll :: "nat \<Rightarrow> nat \<Rightarrow> view \<Rightarrow> view \<Rightarrow> view \<Rightarrow> view \<Rightarrow> view \<Rightarrow> dbl" where
  "cond_ll p n vmx vsx vC vR vy =
     fold (\<lambda>i ll. ll - dlog (cond_L p n vC vsx vR (i + i * p))) [0..<p]
       (Fin (- 1 / 2) * dsq (dnrm2 p (cond_z p n vmx vsx vC vR vy)) - Fin (real p / 2) * dlog (Fin (2 * pi)))"

definition cond_pure :: "nat \<Rightarrow> nat \<Rightarrow> view \<Rightarrow> view \<Rightarrow> view \<Rightarrow> view \<Rightarrow> view \<Rightarrow> dbl \<times> view \<times> view" where
  "cond_pure p n vmx vsx vC vR vy =
     (let mx = restrict n vmx; sx = restrict (n * n) vsx; C = restrict (n * p) vC;
          R = restrict (p * p) vR; y = restrict p vy
      in if dne (vy 0) (vy 0) then (Fin 0, mx, sx)
         else (cond_ll p n mx sx C R y, cond_mu p n mx sx C R y, cond_sigma p n sx C R))"

definition cond_sep :: "ptr \<Rightarrow> ptr \<Rightarrow> ptr \<Rightarrow> ptr \<Rightarrow> ptr \<Rightarrow> ptr \<Rightarrow> ptr \<Rightarrow> ptr \<Rightarrow> ptr \<Rightarrow> ptr \<Rightarrow> bool" where
  "cond_sep mu_x sigma_x C sigma_obs y mu_cond sigma_cond temp_p temp_pn temp_pp \<longleftrightarrow>
     temp_p \<noteq> temp_pn \<and> temp_p \<noteq> temp_pp \<and> temp_pn \<noteq> temp_pp \<and>
     temp_p \<notin> {mu_x, sigma_x, C, sigma_obs, y, mu_cond, sigma_cond} \<and>
     temp_pn \<notin> {mu_x, sigma_x, C, sigma_obs, y, mu_cond, sigma_cond} \<and>
     temp_pp \<notin> {mu_x, sigma_x, C, sigma_obs, y, mu_cond, sigma_cond} \<and>
     mu_cond \<noteq> sigma_cond \<and> mu_cond \<notin> {sigma_x, C, sigma_obs, y} \<and> sigma_cond \<notin> {mu_x, C, sigma_obs, y}"

subsection \<open>The prediction step as a function of the values it reads\<close>

definition pred_mu :: "nat \<Rightarrow> view \<Rightarrow> view \<Rightarrow> view" where
  "pred_mu n vmu vA = dgemv Trans n n (Fin 1) vA n vmu (Fin 0) blank"

definition pred_sigma :: "nat \<Rightarrow> view \<Rightarrow> view \<Rightarrow> view \<Rightarrow> view" where
  "pred_sigma n vsigma vA vQ =
     dgemm NoTrans NoTrans n n n (Fin 1) (dgemm Trans NoTrans n n n (Fin 1) vA n vsigma n (Fin 0) blank n) n
       vA n (Fin 1) (dcopy (n * n) vQ blank) n"

definition pred_pure :: "nat \<Rightarrow> view \<Rightarrow> view \<Rightarrow> view \<Rightarrow> view \<Rightarrow> view \<times> view" where
  "pred_pure n vmu vsigma vA vQ =
     (pred_mu n (restrict n vmu) (restrict (n * n) vA),
      pred_sigma n (restrict (n * n) vsigma) (restrict (n * n) vA) (restrict (n * n) vQ))"

definition pred_sep :: "ptr \<Rightarrow> ptr \<Rightarrow> ptr \<Rightarrow> ptr \<Rightarrow> ptr \<Rightarrow> ptr \<Rightarrow> ptr \<Rightarrow> bool" where
  "pred_sep mu sigma A sigma_states mu_predict sigma_predict temp_nn \<longleftrightarrow>
     temp_nn \<notin> {mu, sigma, A, sigma_states, mu_predict, sigma_predict} \<and>
     mu_predict \<noteq> sigma_predict \<and>
     mu_predict \<notin> {mu, sigma, A, sigma_states} \<and> sigma_predict \<notin> {mu, sigma, A, sigma_states}"

subsection \<open>The forward pass as a function of the inputs\<close>

text \<open>
  \<open>fwd t\<close> is the predicted belief entering step \<open>t\<close> together with the
  log-likelihood accumulated so far; \<open>filt t\<close> is the filtered belief at \<open>t\<close>.
  \<open>filter_inv\<close> and \<open>smoother_inv\<close> relate the store after \<open>t\<close> iterations
  of the two forward loops to them.
\<close>

definition fwd_step ::
  "nat \<Rightarrow> nat \<Rightarrow> array3 \<Rightarrow> array3 \<Rightarrow> array3 \<Rightarrow> array3 \<Rightarrow> array2 \<Rightarrow> nat \<Rightarrow> view \<times> view \<times> dbl \<Rightarrow> view \<times> view \<times> dbl"
where
  "fwd_step p n A sigma_states C sigma_obs data t = (\<lambda>(mp, sp, ll).
     (let (l, mf, sf) = cond_pure p n mp sp (slab3 C t) (slab3 sigma_obs t) (row2 data t);
          (mp', sp') = pred_pure n mf sf (slab3 A t) (slab3 sigma_states t)
      in (mp', sp', ll + l)))"

definition fwd ::
  "array1 \<Rightarrow> array2 \<Rightarrow> array3 \<Rightarrow> array3 \<Rightarrow> array3 \<Rightarrow> array3 \<Rightarrow> array2 \<Rightarrow> nat \<Rightarrow> view \<times> view \<times> dbl"
where
  "fwd mu_init sigma_init A sigma_states C sigma_obs data t =
     fold (fwd_step (shape3_1 C) (shape3_2 C) A sigma_states C sigma_obs data) [0..<t]
       (flat1 mu_init, flat2 sigma_init, Fin 0)"

definition filt ::
  "array1 \<Rightarrow> array2 \<Rightarrow> array3 \<Rightarrow> array3 \<Rightarrow> array3 \<Rightarrow> array3 \<Rightarrow> array2 \<Rightarrow> nat \<Rightarrow> view \<times> view"
where
  "filt mu_init sigma_init A sigma_states C sigma_obs data t =
     (case fwd mu_init sigma_init A sigma_states C sigma_obs data t of (mp, sp, ll) \<Rightarrow>
        snd (cond_pure (shape3_1 C) (shape3_2 C) mp sp (slab3 C t) (slab3 sigma_obs t) (row2 data t)))"

definition inputs_loaded :: "array3 \<Rightarrow> array3 \<Rightarrow> array3 \<Rightarrow> array3 \<Rightarrow> array2 \<Rightarrow> store \<Rightarrow> bool" where
  "inputs_loaded A sigma_states C sigma_obs data s \<longleftrightarrow>
     (\<forall>t. s (Buf_A, t) = slab3 A t \<and> s (Buf_sigma_states, t) = slab3 sigma_states t \<and>
          s (Buf_C, t) = slab3 C t \<and> s (Buf_sigma_obs, t) = slab3 sigma_obs t \<and>
          s (Buf_data, t) = row2 data t)"

definition filter_inv ::
  "array1 \<Rightarrow> array2 \<Rightarrow> array3 \<Rightarrow> array3 \<Rightarrow> array3 \<Rightarrow> array3 \<Rightarrow> array2 \<Rightarrow> nat \<Rightarrow> store \<times> dbl \<Rightarrow> bool"
where
  "filter_inv mu_init sigma_init A sigma_states C sigma_obs data t = (\<lambda>(s, ll).
     inputs_loaded A sigma_states C sigma_obs data s \<and>
     (case fwd mu_init sigma_init A sigma_states C sigma_obs data t of (mp, sp, l) \<Rightarrow>
        eq_on (shape3_2 C) (s (Buf_mu_predict, 0)) mp \<and>
        eq_on (shape3_2 C * shape3_2 C) (s (Buf_sigma_predict, 0)) sp \<and> ll = l) \<and>
     (\<forall>k<t. eq_on (shape3_2 C) (s (Buf_filtered_mus, k))
                (fst (filt mu_init sigma_init A sigma_states C sigma_obs data k)) \<and>
             eq_on (shape3_2 C * shape3_2 C) (s (Buf_filtered_sigmas, k))
                (snd (filt mu_init sigma_init A sigma_states C sigma_obs data k))))"

definition smoother_inv ::
  "array1 \<Rightarrow> array2 \<Rightarrow> array3 \<Rightarrow> array3 \<Rightarrow> array3 \<Rightarrow> array3 \<Rightarrow> array2 \<Rightarrow> nat \<Rightarrow> store \<times> dbl \<Rightarrow> bool"
where
  "smoother_inv mu_init sigma_init A sigma_states C sigma_obs data t = (\<lambda>(s, ll).
     inputs_loaded A sigma_states C sigma_obs data s \<and>
     ll = snd (snd (fwd mu_init sigma_init A sigma_states C sigma_obs data t)) \<and>
     (\<forall>k\<le>t. eq_on (shape3_2 C) (s (Buf_mu_predicts, k))
                (fst (fwd mu_init sigma_init A sigma_states C sigma_obs data k)) \<and>
             eq_on (shape3_2 C * shape3_2 C) (s (Buf_sigma_predicts, k))
                (fst (snd (fwd mu_init sigma_init A sigma_states C sigma_obs data k)))) \<and>
     (\<forall>k<t. eq_on (shape3_2 C) (s (Buf_smoothed_mus, k))
                (fst (filt mu_init sigma_init A sigma_states C sigma_obs data k)) \<and>
             eq_on (shape3_2 C * shape3_2 C) (s (Buf_smoothed_sigmas, k))
                (snd (filt mu_init sigma_init A sigma_states C sigma_obs data k))))"

definition init_ok :: "array1 \<Rightarrow> array2 \<Rightarrow> array3 \<Rightarrow> bool" where
  "init_ok mu_init sigma_init C \<longleftrightarrow>
     shape1_0 mu_init = shape3_2 C \<and> shape2_0 sigma_init = shape3_2 C \<and> shape2_1 sigma_init = shape3_2 C"

definition filtered_rows ::
  "array1 \<Rightarrow> array2 \<Rightarrow> array3 \<Rightarrow> array3 \<Rightarrow> array3 \<Rightarrow> array3 \<Rightarrow> array2 \<Rightarrow> dbl list list" where
  "filtered_rows mu_init sigma_init A Q C R data =
     map (\<lambda>t. map (fst (filt mu_init sigma_init A Q C R data t)) [0..<shape3_2 C]) [0..<shape3_0 C]"

definition filtered_mats ::
  "array1 \<Rightarrow> array2 \<Rightarrow> array3 \<Rightarrow> array3 \<Rightarrow> array3 \<Rightarrow> array3 \<Rightarrow> array2 \<Rightarrow> dbl list list list" where
  "filtered_mats mu_init sigma_init A Q C R data =
     map (\<lambda>t. map (\<lambda>i. map (\<lambda>j. snd (filt mu_init sigma_init A Q C R data t) (i * shape3_2 C + j))
                         [0..<shape3_2 C]) [0..<shape3_2 C]) [0..<shape3_0 C]"

definition filter_state ::
  "array1 \<Rightarrow> array2 \<Rightarrow> array3 \<Rightarrow> array3 \<Rightarrow> array3 \<Rightarrow> array3 \<Rightarrow> array2 \<Rightarrow> store \<Rightarrow> nat \<Rightarrow> store \<times> dbl"
where
  "filter_state mu_init sigma_init A sigma_states C sigma_obs data heap t =
     fold (filter_step (shape3_1 C) (shape3_2 C)) [0..<t]
       (copy_init mu_init sigma_init (load_inputs A sigma_states C sigma_obs data heap), Fin 0)"

subsection \<open>The status of the factorisation inside the conditioning step\<close>

text \<open>
  \<open>condition_on_info\<close> is the value of \<open>info\<close> after the \<open>dpotrf\<close> call of
  \<open>condition_on\<close> (the first four backend calls of its second branch).
\<close>

definition condition_on_info :: "nat \<Rightarrow> nat \<Rightarrow> ptr \<Rightarrow> ptr \<Rightarrow> ptr \<Rightarrow> ptr \<Rightarrow> ptr \<Rightarrow> store \<Rightarrow> nat" where
  "condition_on_info p n sigma_x C sigma_obs temp_pn temp_pp s =
     (let s1 = dgemm_s Trans NoTrans p n n (Fin 1) C n sigma_x n (Fin 0) temp_pn p s;
          s2 = dcopy_s (p * p) sigma_obs temp_pp s1;
          s3 = dgemm_s NoTrans NoTrans p p n (Fin 1) temp_pn p C n (Fin 1) temp_pp p s2;
          (s4, info) = dpotrf_s p temp_pp p s3
      in info)"

subsection \<open>Example inputs\<close>

text \<open>
  A scalar model with one time step: \<open>n = p = T = 1\<close>.  \<open>scalar3 v\<close> is the
  \<open>1 \<times> 1 \<times> 1\<close> array holding \<open>v\<close>, and likewise for the other ranks;
  \<open>nan_rows\<close> is a \<open>1 \<times> 1\<close> observation array whose only entry is the
  missing-data sentinel.  \<open>no_heap\<close> and \<open>no_draws\<close> are a heap and a sequence of
  draws that hold \<open>NaN\<close> everywhere.
\<close>

definition scalar1 :: "real \<Rightarrow> array1" where
  "scalar1 v = \<lparr>shape1_0 = 1, flat1 = (\<lambda>z. Fin v)\<rparr>"

definition scalar2 :: "real \<Rightarrow> array2" where
  "scalar2 v = \<lparr>shape2_0 = 1, shape2_1 = 1, flat2 = (\<lambda>z. Fin v)\<rparr>"

definition scalar3 :: "real \<Rightarrow> array3" where
  "scalar3 v = \<lparr>shape3_0 = 1, shape3_1 = 1, shape3_2 = 1, flat3 = (\<lambda>z. Fin v)\<rparr>"

definition nan_rows :: array2 where
  "nan_rows = \<lparr>shape2_0 = 1, shape2_1 = 1, flat2 = (\<lambda>z. NaN)\<rparr>"

definition no_heap :: store where
  "no_heap = (\<lambda>q z. NaN)"

definition no_draws :: "nat \<Rightarrow> view" where
  "no_draws = (\<lambda>t z. NaN)"

text \<open>An observation array with one row more than the scalar model has time steps.\<close>

definition two_rows :: array2 where
  "two_rows = \<lparr>shape2_0 = 2, shape2_1 = 1, flat2 = (\<lambda>z. Fin 3)\<rparr>"

text \<open>
  An observation array with three rows, whose first row is the one of the scalar
  model and whose other rows hold another value.
\<close>

definition longer_obs :: array2 where
  "longer_obs = \<lparr>shape2_0 = 3, shape2_1 = 1, flat2 = (\<lambda>z. if z = 0 then Fin 3 else Fin 8)\<rparr>"

subsection \<open>Stores that differ in the observations\<close>

text \<open>
  \<open>with_data s d\<close> is the store \<open>s\<close> with the view \<open>d t\<close> behind the pointer to
  row \<open>t\<close> of the observations.  \<open>rows_agree p T d d'\<close>: the rows \<open>t < T\<close> of two
  observation arrays agree on what a conditioning step reads of them, the entries
  \<open>0, ..., p - 1\<close> and entry \<open>0\<close>.
\<close>

definition with_data :: "store \<Rightarrow> (nat \<Rightarrow> view) \<Rightarrow> store" where
  "with_data s d = (\<lambda>(b, t). if b = Buf_data then d t else s (b, t))"

definition rows_agree :: "nat \<Rightarrow> nat \<Rightarrow> (nat \<Rightarrow> view) \<Rightarrow> (nat \<Rightarrow> view) \<Rightarrow> bool" where
  "rows_agree p T d d' \<longleftrightarrow> (\<forall>t<T. eq_on p (d t) (d' t) \<and> d' t 0 = d t 0)"

section \<open>Real vectors and matrices\<close>

text \<open>
  The claims about the conditioning step are stated over the reals: a vector is a
  function of its index, a matrix a function of row and column, and only the entries
  below the stated sizes matter.  \<open>holds_vec\<close>, \<open>holds_rm\<close> and \<open>holds_cm\<close> say that
  a view holds a real vector, a row-major matrix (the layout of the arrays of the
  callers) or a column-major matrix (the layout the backend works in), with no entry
  a non-number.
\<close>

type_synonym rvec = "nat \<Rightarrow> real"

type_synonym rmat = "nat \<Rightarrow> nat \<Rightarrow> real"

definition qf :: "nat \<Rightarrow> nat \<Rightarrow> rmat \<Rightarrow> rvec \<Rightarrow> real" where
  "qf j p M x = (\<Sum>i = j..<p. \<Sum>k = j..<p. x i * M i k * x k)"

definition pd_from :: "nat \<Rightarrow> nat \<Rightarrow> rmat \<Rightarrow> bool" where
  "pd_from j p M \<longleftrightarrow>
     (\<forall>i\<in>{j..<p}. \<forall>k\<in>{j..<p}. M i k = M k i) \<and>
     (\<forall>x. (\<exists>i\<in>{j..<p}. x i \<noteq> 0) \<longrightarrow> 0 < qf j p M x)"

definition chol_state :: "nat \<Rightarrow> nat \<Rightarrow> rmat \<Rightarrow> rmat \<Rightarrow> view \<Rightarrow> bool" where
  "chol_state j p S L a \<longleftrightarrow>
     (\<forall>i<p. \<forall>k<p. a (i + k * p) = Fin (if k < j \<and> k \<le> i then L i k else S i k)) \<and>
     (\<forall>k<j. 0 < L k k) \<and>
     (\<forall>k<j. \<forall>i<p. k \<le> i \<longrightarrow> (\<Sum>l\<le>k. L i l * L k l) = S i k) \<and>
     pd_from j p (\<lambda>i i'. S i i' - (\<Sum>l<j. L i l * L i' l))"

definition lowpart :: "rmat \<Rightarrow> rmat" where
  "lowpart L = (\<lambda>i k. if k \<le> i then L i k else 0)"

definition holds_vec :: "nat \<Rightarrow> view \<Rightarrow> rvec \<Rightarrow> bool" where
  "holds_vec n v x \<longleftrightarrow> (\<forall>i<n. v i = Fin (x i))"

definition holds_rm :: "nat \<Rightarrow> nat \<Rightarrow> view \<Rightarrow> rmat \<Rightarrow> bool" where
  "holds_rm r c v M \<longleftrightarrow> (\<forall>i<r. \<forall>j<c. v (i * c + j) = Fin (M i j))"

definition holds_cm :: "nat \<Rightarrow> nat \<Rightarrow> view \<Rightarrow> rmat \<Rightarrow> bool" where
  "holds_cm r c v M \<longleftrightarrow> (\<forall>i<r. \<forall>j<c. v (i + j * r) = Fin (M i j))"

text \<open>The innovation covariance \<open>C Sigma C^T + R\<close> as a real matrix.\<close>

definition innov_cov :: "nat \<Rightarrow> rmat \<Rightarrow> rmat \<Rightarrow> rmat \<Rightarrow> rmat" where
  "innov_cov n Cm Sg Rm = (\<lambda>i j. (\<Sum>l<n. \<Sum>m<n. Cm i l * Sg l m * Cm j m) + Rm i j)"

definition symmetric :: "nat \<Rightarrow> rmat \<Rightarrow> bool" where
  "symmetric n M \<longleftrightarrow> (\<forall>i<n. \<forall>j<n. M i j = M j i)"

definition lower_holds :: "nat \<Rightarrow> view \<Rightarrow> rmat \<Rightarrow> bool" where
  "lower_holds p a L \<longleftrightarrow> (\<forall>i<p. \<forall>k\<le>i. a (i + k * p) = Fin (L i k)) \<and> (\<forall>i<p. 0 < L i i)"

definition mat_T :: "rmat \<Rightarrow> rmat" where
  "mat_T M = (\<lambda>i j. M j i)"

definition mat_mul :: "nat \<Rightarrow> rmat \<Rightarrow> rmat \<Rightarrow> rmat" where
  "mat_mul k M N = (\<lambda>i j. \<Sum>l<k. M i l * N l j)"

definition mat_vec :: "nat \<Rightarrow> rmat \<Rightarrow> rvec \<Rightarrow> rvec" where
  "mat_vec k M x = (\<lambda>i. \<Sum>l<k. M i l * x l)"

definition innovation :: "nat \<Rightarrow> rmat \<Rightarrow> rvec \<Rightarrow> rvec \<Rightarrow> rvec" where
  "innovation n Cm mu yv = (\<lambda>i. yv i - mat_vec n Cm mu i)"

definition right_inverse :: "nat \<Rightarrow> rmat \<Rightarrow> rmat \<Rightarrow> bool" where
  "right_inverse p S Si \<longleftrightarrow> (\<forall>i<p. \<forall>j<p. mat_mul p S Si i j = (if i = j then 1 else 0))"


section \<open>Covariances along the forward and the backward pass\<close>

text \<open>
  \<open>psd\<close> is positive semi-definiteness of the leading \<open>n \<times> n\<close> block (symmetry is
  stated separately, with \<open>symmetric\<close>).
\<close>

definition dot :: "nat \<Rightarrow> rvec \<Rightarrow> rvec \<Rightarrow> real" where
  "dot n x y = (\<Sum>i<n. x i * y i)"

definition psd :: "nat \<Rightarrow> rmat \<Rightarrow> bool" where
  "psd n M \<longleftrightarrow> (\<forall>x. 0 \<le> qf 0 n M x)"

text \<open>
  Reading a view or a returned list back as a real vector or matrix; \<open>finite_on k v\<close>
  says that none of the first \<open>k\<close> entries is a non-number, and only then is the
  reading faithful.
\<close>

fun the_fin :: "dbl \<Rightarrow> real" where
  "the_fin (Fin a) = a"
| "the_fin NaN = 0"

definition rd_vec :: "view \<Rightarrow> rvec" where
  "rd_vec v = (\<lambda>i. the_fin (v i))"

definition rd_rm :: "nat \<Rightarrow> view \<Rightarrow> rmat" where
  "rd_rm c v = (\<lambda>i j. the_fin (v (i * c + j)))"

definition finite_on :: "nat \<Rightarrow> view \<Rightarrow> bool" where
  "finite_on k v \<longleftrightarrow> (\<forall>z<k. v z \<noteq> NaN)"

text \<open>
  The conditions on the inputs.  \<open>observed data t\<close> is the negation of the source's
  test \<open>y[0] != y[0]\<close> on row \<open>t\<close>.  \<open>cov_inputs_ok\<close>: the matrices of the model
  are finite, and the covariances among them symmetric; \<open>cov_inputs_psd\<close>: the
  covariances are positive semi-definite; \<open>mean_inputs_ok\<close>: the initial mean and the
  observed rows are finite.  Sizes are those that \<open>C\<close> fixes.
\<close>

definition observed :: "array2 \<Rightarrow> nat \<Rightarrow> bool" where
  "observed data t \<longleftrightarrow> row2 data t 0 \<noteq> NaN"

definition cov_inputs_ok :: "array2 \<Rightarrow> array3 \<Rightarrow> array3 \<Rightarrow> array3 \<Rightarrow> array3 \<Rightarrow> bool" where
  "cov_inputs_ok sigma_init A Q C R \<longleftrightarrow>
     finite_on (shape3_2 C * shape3_2 C) (flat2 sigma_init) \<and>
     symmetric (shape3_2 C) (rd_rm (shape3_2 C) (flat2 sigma_init)) \<and>
     (\<forall>t<shape3_0 C.
        finite_on (shape3_2 C * shape3_2 C) (slab3 A t) \<and>
        finite_on (shape3_2 C * shape3_2 C) (slab3 Q t) \<and>
        symmetric (shape3_2 C) (rd_rm (shape3_2 C) (slab3 Q t)) \<and>
        finite_on (shape3_1 C * shape3_2 C) (slab3 C t) \<and>
        finite_on (shape3_1 C * shape3_1 C) (slab3 R t) \<and>
        symmetric (shape3_1 C) (rd_rm (shape3_1 C) (slab3 R t)))"

definition cov_inputs_psd :: "array2 \<Rightarrow> array3 \<Rightarrow> array3 \<Rightarrow> array3 \<Rightarrow> bool" where
  "cov_inputs_psd sigma_init Q C R \<longleftrightarrow>
     psd (shape3_2 C) (rd_rm (shape3_2 C) (flat2 sigma_init)) \<and>
     (\<forall>t<shape3_0 C. psd (shape3_2 C) (rd_rm (shape3_2 C) (slab3 Q t)) \<and>
                     psd (shape3_1 C) (rd_rm (shape3_1 C) (slab3 R t)))"

definition mean_inputs_ok :: "array1 \<Rightarrow> array3 \<Rightarrow> array2 \<Rightarrow> bool" where
  "mean_inputs_ok mu_init C data \<longleftrightarrow>
     finite_on (shape3_2 C) (flat1 mu_init) \<and>
     (\<forall>t<shape3_0 C. observed data t \<longrightarrow> finite_on (shape3_1 C) (row2 data t))"

text \<open>
  The predicted and filtered covariances of the forward pass as real matrices,
  and the two conditions on the matrices that the code factors: the innovation
  covariance at every observed step (\<open>dpotrf\<close> in \<open>condition_on\<close>) and the predicted
  covariance at steps \<open>1, ..., T - 1\<close> (\<open>dpotrf\<close> in \<open>rts_backward_step\<close>).
\<close>

definition pred_cov ::
  "array1 \<Rightarrow> array2 \<Rightarrow> array3 \<Rightarrow> array3 \<Rightarrow> array3 \<Rightarrow> array3 \<Rightarrow> array2 \<Rightarrow> nat \<Rightarrow> rmat" where
  "pred_cov mu_init sigma_init A Q C R data t
     = rd_rm (shape3_2 C) (fst (snd (fwd mu_init sigma_init A Q C R data t)))"

definition filt_cov ::
  "array1 \<Rightarrow> array2 \<Rightarrow> array3 \<Rightarrow> array3 \<Rightarrow> array3 \<Rightarrow> array3 \<Rightarrow> array2 \<Rightarrow> nat \<Rightarrow> rmat" where
  "filt_cov mu_init sigma_init A Q C R data t
     = rd_rm (shape3_2 C) (snd (filt mu_init sigma_init A Q C R data t))"

definition innovations_pd ::
  "array1 \<Rightarrow> array2 \<Rightarrow> array3 \<Rightarrow> array3 \<Rightarrow> array3 \<Rightarrow> array3 \<Rightarrow> array2 \<Rightarrow> bool" where
  "innovations_pd mu_init sigma_init A Q C R data \<longleftrightarrow>
     (\<forall>t<shape3_0 C. observed data t \<longrightarrow>
        pd_from 0 (shape3_1 C)
          (innov_cov (shape3_2 C) (rd_rm (shape3_2 C) (slab3 C t))
             (pred_cov mu_init sigma_init A Q C R data t) (rd_rm (shape3_1 C) (slab3 R t))))"

definition predictions_pd ::
  "array1 \<Rightarrow> array2 \<Rightarrow> array3 \<Rightarrow> array3 \<Rightarrow> array3 \<Rightarrow> array3 \<Rightarrow> array2 \<Rightarrow> bool" where
  "predictions_pd mu_init sigma_init A Q C R data \<longleftrightarrow>
     (\<forall>t<shape3_0 C. 0 < t \<longrightarrow> pd_from 0 (shape3_2 C) (pred_cov mu_init sigma_init A Q C R data t))"

text \<open>
  \<open>cov_ok n ps v\<close>: the view holds a finite symmetric matrix, positive semi-definite
  when the flag \<open>ps\<close> holds.
\<close>

definition cov_ok :: "nat \<Rightarrow> bool \<Rightarrow> view \<Rightarrow> bool" where
  "cov_ok n ps v \<longleftrightarrow> finite_on (n * n) v \<and> symmetric n (rd_rm n v) \<and> (ps \<longrightarrow> psd n (rd_rm n v))"

text \<open>
  The backward step as functions of the values it reads: what \<open>rts_backward_step\<close>
  leaves in \<open>temp_nn\<close> (the transposed gain), in \<open>filtered_mu\<close> and in
  \<open>filtered_sigma\<close>, and what \<open>set_dynamics_stats\<close> leaves in \<open>ExxnT\<close>.  The
  arguments \<open>c\<close>, \<open>c2\<close> are the old contents of the buffers written.
\<close>

definition rts_gainT :: "nat \<Rightarrow> view \<Rightarrow> view \<Rightarrow> view \<Rightarrow> view \<Rightarrow> view \<Rightarrow> view" where
  "rts_gainT n vA vfs vps c c2 =
     fst (dpotrs n n (fst (dpotrf n (dcopy (n * n) vps c2) n)) n
            (dgemm Trans NoTrans n n n (Fin 1) vA n vfs n (Fin 0) c n) n)"

definition rts_mu :: "nat \<Rightarrow> view \<Rightarrow> view \<Rightarrow> view \<Rightarrow> view \<Rightarrow> view" where
  "rts_mu n gT vfm vpm vsm = dgemv Trans n n (Fin (- 1)) gT n (daxpy n (Fin (- 1)) vsm vpm) (Fin 1) vfm"

definition rts_sigma :: "nat \<Rightarrow> view \<Rightarrow> view \<Rightarrow> view \<Rightarrow> view \<Rightarrow> view \<Rightarrow> view" where
  "rts_sigma n gT c2 vfs vps vss =
     dgemm Trans NoTrans n n n (Fin 1) gT n
       (dgemm NoTrans NoTrans n n n (Fin (- 1)) (daxpy (n * n) (Fin (- 1)) vss vps) n gT n (Fin 0) c2 n) n
       (Fin 1) vfs n"

definition stats_pure :: "nat \<Rightarrow> view \<Rightarrow> view \<Rightarrow> view \<Rightarrow> view \<Rightarrow> view \<Rightarrow> view" where
  "stats_pure n vmk vmkn vPkns gT c =
     dger n n (Fin 1) vmk vmkn (dgemm Trans NoTrans n n n (Fin 1) gT n vPkns n (Fin 0) c n) n"

text \<open>
  The store while the backward loops run, before iteration \<open>k - 1\<close>: slices below
  \<open>k\<close> still hold the filtered beliefs, predictions up to \<open>k\<close> are intact, and the
  smoothed covariances from \<open>k\<close> on are finite and symmetric.
\<close>

definition back_inv ::
  "array1 \<Rightarrow> array2 \<Rightarrow> array3 \<Rightarrow> array3 \<Rightarrow> array3 \<Rightarrow> array3 \<Rightarrow> array2 \<Rightarrow> nat \<Rightarrow> store \<Rightarrow> bool"
where
  "back_inv mu_init sigma_init A Q C R data k s \<longleftrightarrow>
     inputs_loaded A Q C R data s \<and>
     (\<forall>j<k. eq_on (shape3_2 C) (s (Buf_smoothed_mus, j)) (fst (filt mu_init sigma_init A Q C R data j)) \<and>
            eq_on (shape3_2 C * shape3_2 C) (s (Buf_smoothed_sigmas, j))
              (snd (filt mu_init sigma_init A Q C R data j))) \<and>
     (\<forall>j\<le>k. eq_on (shape3_2 C) (s (Buf_mu_predicts, j)) (fst (fwd mu_init sigma_init A Q C R data j)) \<and>
            eq_on (shape3_2 C * shape3_2 C) (s (Buf_sigma_predicts, j))
              (fst (snd (fwd mu_init sigma_init A Q C R data j)))) \<and>
     (\<forall>j. k \<le> j \<and> j < shape3_0 C \<longrightarrow>
          cov_ok (shape3_2 C) (cov_inputs_psd sigma_init Q C R) (s (Buf_smoothed_sigmas, j)) \<and>
          (mean_inputs_ok mu_init C data \<longrightarrow> finite_on (shape3_2 C) (s (Buf_smoothed_mus, j))))"

text \<open>A returned covariance: finite, symmetric and positive semi-definite.\<close>

definition mat_of :: "dbl list list \<Rightarrow> rmat" where
  "mat_of xs = (\<lambda>i j. the_fin (xs ! i ! j))"

definition vec_of :: "dbl list \<Rightarrow> rvec" where
  "vec_of xs = (\<lambda>i. the_fin (xs ! i))"

definition cov_matrix :: "nat \<Rightarrow> dbl list list \<Rightarrow> bool" where
  "cov_matrix n xs \<longleftrightarrow> (\<forall>i<n. \<forall>j<n. xs ! i ! j \<noteq> NaN) \<and> symmetric n (mat_of xs) \<and> psd n (mat_of xs)"

text \<open>A scalar model with two time steps: \<open>n = p = 1\<close>, \<open>T = 2\<close>.\<close>

definition pair3 :: "real \<Rightarrow> array3" where
  "pair3 v = \<lparr>shape3_0 = 2, shape3_1 = 1, shape3_2 = 1, flat3 = (\<lambda>z. Fin v)\<rparr>"


section \<open>Second moments\<close>

text \<open>
  \<open>gain_ok G\<close>: for every \<open>t < T - 1\<close>, \<open>G t\<close> is the smoothing gain at \<open>t\<close>,
  \<open>G\<^sub>t P\<^sub>t\<^sub>+\<^sub>1 = F\<^sub>t A\<^sub>t\<^sup>T\<close> with \<open>F\<^sub>t\<close> the filtered and \<open>P\<^sub>t\<^sub>+\<^sub>1\<close> the predicted
  covariance.  \<open>stats_inv\<close> is what the slices of \<open>ExxnT\<close> written so far hold while
  the backward loop of \<open>E_step\<close> runs.
\<close>

definition gain_ok ::
  "array1 \<Rightarrow> array2 \<Rightarrow> array3 \<Rightarrow> array3 \<Rightarrow> array3 \<Rightarrow> array3 \<Rightarrow> array2 \<Rightarrow> (nat \<Rightarrow> rmat) \<Rightarrow> bool"
where
  "gain_ok mu_init sigma_init A Q C R data G \<longleftrightarrow>
     (\<forall>t. Suc t < shape3_0 C \<longrightarrow>
        (\<forall>i<shape3_2 C. \<forall>j<shape3_2 C.
           mat_mul (shape3_2 C) (G t) (pred_cov mu_init sigma_init A Q C R data (Suc t)) i j
           = mat_mul (shape3_2 C) (filt_cov mu_init sigma_init A Q C R data t)
               (mat_T (rd_rm (shape3_2 C) (slab3 A t))) i j))"

definition stats_inv :: "array3 \<Rightarrow> (nat \<Rightarrow> rmat) \<Rightarrow> nat \<Rightarrow> store \<Rightarrow> bool" where
  "stats_inv C G k s \<longleftrightarrow>
     (\<forall>j. k \<le> j \<and> Suc j < shape3_0 C \<longrightarrow>
        holds_rm (shape3_2 C) (shape3_2 C) (s (Buf_ExxnT, j))
          (\<lambda>i i'. mat_mul (shape3_2 C) (rd_rm (shape3_2 C) (s (Buf_smoothed_sigmas, Suc j))) (mat_T (G j)) i i'
                   + rd_vec (s (Buf_smoothed_mus, Suc j)) i * rd_vec (s (Buf_smoothed_mus, j)) i'))"

text \<open>
  A model with \<open>n = 2\<close>, \<open>p = 1\<close>, \<open>T = 2\<close> and both observations missing:
  \<open>A = [[1, 0], [1, 1]]\<close>, \<open>Q = 0\<close>, initial mean 0 and initial covariance the
  identity; \<open>demo_G\<close> is its smoothing gain \<open>[[1, 0], [-1, 1]]\<close> at step 0.
\<close>

definition demo_A :: array3 where
  "demo_A = \<lparr>shape3_0 = 2, shape3_1 = 2, shape3_2 = 2, flat3 = (\<lambda>z. if z mod 4 = 1 then Fin 0 else Fin 1)\<rparr>"

definition demo_Q :: array3 where
  "demo_Q = \<lparr>shape3_0 = 2, shape3_1 = 2, shape3_2 = 2, flat3 = (\<lambda>z. Fin 0)\<rparr>"

definition demo_C :: array3 where
  "demo_C = \<lparr>shape3_0 = 2, shape3_1 = 1, shape3_2 = 2, flat3 = (\<lambda>z. Fin 1)\<rparr>"

definition demo_R :: array3 where
  "demo_R = \<lparr>shape3_0 = 2, shape3_1 = 1, shape3_2 = 1, flat3 = (\<lambda>z. Fin 1)\<rparr>"

definition demo_data :: array2 where
  "demo_data = \<lparr>shape2_0 = 2, shape2_1 = 1, flat2 = (\<lambda>z. NaN)\<rparr>"

definition demo_mu :: array1 where
  "demo_mu = \<lparr>shape1_0 = 2, flat1 = (\<lambda>z. Fin 0)\<rparr>"

definition demo_sigma :: array2 where
  "demo_sigma = \<lparr>shape2_0 = 2, shape2_1 = 2, flat2 = (\<lambda>z. if z = 1 \<or> z = 2 then Fin 0 else Fin 1)\<rparr>"

definition demo_G :: "nat \<Rightarrow> rmat" where
  "demo_G = (\<lambda>t i j. if i = j then 1 else if i = 1 \<and> j = 0 then - 1 else 0)"

text \<open>
  \<open>cross_moment n G mus sigmas t\<close> is the matrix
  \<open>G Sigma\<^sub>t\<^sub>+\<^sub>1 + mu\<^sub>t mu\<^sub>t\<^sub>+\<^sub>1\<^sup>T\<close> computed from a returned sequence of means and
  covariances; with \<open>G\<close> the smoothing gain at \<open>t\<close> it is \<open>E[x\<^sub>t x\<^sub>t\<^sub>+\<^sub>1\<^sup>T]\<close> under
  the smoothing posterior.  \<open>mat_rows\<close> lists the rows of a real matrix.
\<close>

definition cross_moment :: "nat \<Rightarrow> rmat \<Rightarrow> dbl list list \<Rightarrow> dbl list list list \<Rightarrow> nat \<Rightarrow> rmat" where
  "cross_moment n G mus sigmas t =
     (\<lambda>i j. mat_mul n G (mat_of (sigmas ! Suc t)) i j + vec_of (mus ! t) i * vec_of (mus ! Suc t) j)"

definition mat_rows :: "nat \<Rightarrow> rmat \<Rightarrow> real list list" where
  "mat_rows n M = map (\<lambda>i. map (M i) [0..<n]) [0..<n]"



section \<open>Facts about the backend and the primitives\<close>

declare zero_dbl_def [simp] one_dbl_def [simp]

lemma pi_not_le_0 [simp]: "\<not> pi \<le> 0"
  using pi_gt_zero by (simp add: not_le)

lemma dsum_cong: "(\<And>l. l < k \<Longrightarrow> f l = g l) \<Longrightarrow> dsum f k = dsum g k"
  by (induction k) auto

lemma dsum_Fin: "(\<And>l. l < k \<Longrightarrow> f l = Fin (g l)) \<Longrightarrow> dsum f k = Fin (sum g {..<k})"
  by (induction k) auto

lemma idx_mod [simp]: "i < m \<Longrightarrow> (i + j * m) mod m = (i::nat)"
  by simp

lemma idx_div [simp]: "i < m \<Longrightarrow> (i + j * m) div m = (j::nat)"
  by simp

lemma idx_lt: "i < m \<Longrightarrow> j < n \<Longrightarrow> i + j * m < m * (n::nat)"
proof -
  assume a: "i < m" "j < n"
  have "i + j * m < m + j * m" using a by simp
  also have "\<dots> = m * Suc j" by simp
  also have "\<dots> \<le> m * n" using a by (intro mult_le_mono2) simp
  finally show ?thesis .
qed

lemma idx_lt': "i < m \<Longrightarrow> j < n \<Longrightarrow> i + j * m < n * (m::nat)"
  using idx_lt[of i m j n] by (simp add: mult.commute)

lemma lt_mul_mod: "z < m * (n::nat) \<Longrightarrow> z mod m < m"
  by (cases "m = 0") auto

lemma lt_mul_div: "z < m * (n::nat) \<Longrightarrow> z div m < n"
  by (simp add: less_mult_imp_div_less mult.commute)

lemma eq_onD: "eq_on k v w \<Longrightarrow> z < k \<Longrightarrow> v z = w z"
  by (simp add: eq_on_def)

lemma eq_on_refl [simp]: "eq_on k v v"
  by (simp add: eq_on_def)

lemma eq_on_sym: "eq_on k v w \<Longrightarrow> eq_on k w v"
  by (simp add: eq_on_def)

lemma eq_on_trans: "eq_on k u v \<Longrightarrow> eq_on k v w \<Longrightarrow> eq_on k u w"
  by (simp add: eq_on_def)

lemma dcopy_cong: "eq_on n x x' \<Longrightarrow> eq_on n (dcopy n x y) (dcopy n x' y')"
  by (simp add: eq_on_def dcopy_def)

lemma dcopy_same [simp]: "dcopy n x x = x"
  by (simp add: dcopy_def fun_eq_iff)

lemma daxpy_cong: "eq_on n x x' \<Longrightarrow> eq_on n y y' \<Longrightarrow> eq_on n (daxpy n al x y) (daxpy n al x' y')"
  by (simp add: eq_on_def daxpy_def)

lemma dnrm2_cong: "eq_on n x x' \<Longrightarrow> dnrm2 n x = dnrm2 n x'"
  unfolding dnrm2_def eq_on_def by (rule arg_cong[where f=dsqrt], rule dsum_cong) simp

lemma opm_cong_a:
  assumes "lda = (case ta of NoTrans \<Rightarrow> m | Trans \<Rightarrow> k)" "eq_on (m * k) a a'" "i < m" "l < k"
  shows "opm ta a lda i l = opm ta a' lda i l"
proof (cases ta)
  case NoTrans
  then show ?thesis using assms idx_lt[of i m l k] by (simp add: eq_on_def)
next
  case Trans
  then show ?thesis using assms idx_lt'[of l k i m] by (simp add: eq_on_def)
qed

lemma dgemm_cong:
  assumes "lda = (case ta of NoTrans \<Rightarrow> m | Trans \<Rightarrow> k)"
    and "ldb = (case tb of NoTrans \<Rightarrow> k | Trans \<Rightarrow> n)"
    and "eq_on (m * k) a a'" and "eq_on (k * n) b b'"
    and "beta \<noteq> Fin 0 \<Longrightarrow> eq_on (m * n) c c'"
  shows "eq_on (m * n) (dgemm ta tb m n k alpha a lda b ldb beta c m)
                       (dgemm ta tb m n k alpha a' lda b' ldb beta c' m)"
  unfolding eq_on_def
proof (intro allI impI)
  fix z assume z: "z < m * n"
  then have i: "z mod m < m" and j: "z div m < n" by (auto intro: lt_mul_mod lt_mul_div)
  have s: "dsum (\<lambda>l. opm ta a lda (z mod m) l * opm tb b ldb l (z div m)) k
         = dsum (\<lambda>l. opm ta a' lda (z mod m) l * opm tb b' ldb l (z div m)) k"
    by (rule dsum_cong) (simp add: opm_cong_a[OF assms(1,3) i] opm_cong_a[OF assms(2,4) _ j])
  show "dgemm ta tb m n k alpha a lda b ldb beta c m z = dgemm ta tb m n k alpha a' lda b' ldb beta c' m z"
    using i j s assms(5) z by (auto simp: dgemm_def Let_def eq_on_def)
qed

lemma opm_Trans_cong:
  "eq_on (m * k) a a' \<Longrightarrow> i < m \<Longrightarrow> l < k \<Longrightarrow> opm Trans a k i l = opm Trans a' k i l"
  using opm_cong_a[where ta=Trans and lda=k and m=m and k=k and a=a and a'=a' and i=i and l=l] by simp

lemma opm_NoTrans_cong:
  "eq_on (m * k) a a' \<Longrightarrow> i < m \<Longrightarrow> l < k \<Longrightarrow> opm NoTrans a m i l = opm NoTrans a' m i l"
  using opm_cong_a[where ta=NoTrans and lda=m and m=m and k=k and a=a and a'=a' and i=i and l=l] by simp

lemma dgemv_Trans_cong:
  assumes "eq_on (m * n) a a'" "eq_on m x x'" "beta \<noteq> Fin 0 \<Longrightarrow> eq_on n y y'"
  shows "eq_on n (dgemv Trans m n alpha a m x beta y) (dgemv Trans m n alpha a' m x' beta y')"
  unfolding eq_on_def
proof (intro allI impI)
  fix z assume z: "z < n"
  have s: "dsum (\<lambda>l. opm Trans a m z l * x l) m = dsum (\<lambda>l. opm Trans a' m z l * x' l) m"
    by (rule dsum_cong) (use assms(1,2) z opm_Trans_cong[where m=n and k=m and a=a and a'=a' and i=z] in \<open>simp add: eq_on_def mult.commute\<close>)
  show "dgemv Trans m n alpha a m x beta y z = dgemv Trans m n alpha a' m x' beta y' z"
    using z s assms(3) by (auto simp: dgemv_def Let_def eq_on_def)
qed

lemma dger_cong:
  assumes "eq_on m x x'" "eq_on n y y'" "eq_on (m * n) a a'"
  shows "eq_on (m * n) (dger m n alpha x y a m) (dger m n alpha x' y' a' m)"
  unfolding eq_on_def
proof (intro allI impI)
  fix z assume z: "z < m * n"
  then have i: "z mod m < m" and j: "z div m < n" by (auto intro: lt_mul_mod lt_mul_div)
  show "dger m n alpha x y a m z = dger m n alpha x' y' a' m z"
    using i j z assms by (simp add: dger_def eq_on_def)
qed

lemma dtrmv_cong:
  assumes "eq_on (n * n) a a'" "eq_on n x x'"
  shows "eq_on n (dtrmv n a n x) (dtrmv n a' n x')"
  unfolding eq_on_def
proof (intro allI impI)
  fix z assume z: "z < n"
  have "dsum (\<lambda>k. a (z + k * n) * x k) (Suc z) = dsum (\<lambda>k. a' (z + k * n) * x' k) (Suc z)"
  proof (rule dsum_cong)
    fix l assume "l < Suc z"
    then have l: "l < n" using z by simp
    from idx_lt[OF z l] assms l show "a (z + l * n) * x l = a' (z + l * n) * x' l"
      by (simp add: eq_on_def)
  qed
  then show "dtrmv n a n x z = dtrmv n a' n x' z" using z by (simp add: dtrmv_def)
qed

lemma eq_on_upd: "eq_on K x x' \<Longrightarrow> v = v' \<Longrightarrow> eq_on K (x(q := v)) (x'(q := v'))"
  by (simp add: eq_on_def)

lemma potf2_pivot_cong:
  assumes "eq_on (n * n) a a'" "j < n"
  shows "potf2_pivot j a n = potf2_pivot j a' n"
proof -
  have "dsum (\<lambda>k. a (j + k * n) * a (j + k * n)) j = dsum (\<lambda>k. a' (j + k * n) * a' (j + k * n)) j"
  proof (rule dsum_cong)
    fix l assume "l < j"
    then have "j + l * n < n * n" using assms(2) idx_lt[of j n l n] by simp
    then show "a (j + l * n) * a (j + l * n) = a' (j + l * n) * a' (j + l * n)"
      using assms(1) by (simp add: eq_on_def)
  qed
  moreover have "a (j + j * n) = a' (j + j * n)"
    using assms idx_lt[of j n j n] by (simp add: eq_on_def)
  ultimately show ?thesis by (simp add: potf2_pivot_def)
qed

lemma potf2_column_cong:
  assumes "eq_on (n * n) a a'" "j < n"
  shows "eq_on (n * n) (potf2_column j n a n d) (potf2_column j n a' n d)"
  unfolding eq_on_def
proof (intro allI impI)
  fix z assume z: "z < n * n"
  show "potf2_column j n a n d z = potf2_column j n a' n d z"
  proof (cases "z div n = j \<and> j < z mod n \<and> z mod n < n")
    case True
    have "dsum (\<lambda>k. a (z mod n + k * n) * a (j + k * n)) j = dsum (\<lambda>k. a' (z mod n + k * n) * a' (j + k * n)) j"
    proof (rule dsum_cong)
      fix l assume "l < j"
      then have "j + l * n < n * n" "z mod n + l * n < n * n"
        using assms(2) True idx_lt[of j n l n] idx_lt[of "z mod n" n l n] by auto
      then show "a (z mod n + l * n) * a (j + l * n) = a' (z mod n + l * n) * a' (j + l * n)"
        using assms(1) by (simp add: eq_on_def)
    qed
    then show ?thesis using True z assms(1) by (simp add: potf2_column_def eq_on_def)
  next
    case False
    then show ?thesis using z assms(1) by (auto simp: potf2_column_def eq_on_def)
  qed
qed

lemma potf2_cong:
  assumes "eq_on (n * n) a a'" "j \<le> n"
  shows "eq_on (n * n) (fst (potf2 j n a n)) (fst (potf2 j n a' n)) \<and> snd (potf2 j n a n) = snd (potf2 j n a' n)"
  using assms(2)
proof (induction j)
  case 0
  then show ?case using assms(1) by simp
next
  case (Suc j)
  then have IH: "eq_on (n * n) (fst (potf2 j n a n)) (fst (potf2 j n a' n))"
    "snd (potf2 j n a n) = snd (potf2 j n a' n)" and j: "j < n" by auto
  obtain b i where b: "potf2 j n a n = (b, i)" by (cases "potf2 j n a n")
  obtain b' i' where b': "potf2 j n a' n = (b', i')" by (cases "potf2 j n a' n")
  from IH b b' have e: "eq_on (n * n) b b'" and ii: "i' = i" by auto
  have pv: "potf2_pivot j b n = potf2_pivot j b' n" by (rule potf2_pivot_cong[OF e j])
  show ?case
    using b b' e ii pv potf2_column_cong[OF e j] eq_on_upd[OF e]
    by (auto simp: Let_def)
qed

lemma dpotrf_cong:
  assumes "eq_on (n * n) a a'"
  shows "eq_on (n * n) (fst (dpotrf n a n)) (fst (dpotrf n a' n))" "snd (dpotrf n a n) = snd (dpotrf n a' n)"
  using potf2_cong[OF assms, of n] by (simp_all add: dpotrf_def)

lemma trsv_LN_cong:
  assumes "eq_on (n * n) a a'" "off + n \<le> K" "eq_on K b b'" "i \<le> n"
  shows "eq_on K (trsv_LN i a n off b) (trsv_LN i a' n off b')"
  using assms(4)
proof (induction i)
  case 0
  then show ?case using assms(3) by simp
next
  case (Suc i)
  then have IH: "eq_on K (trsv_LN i a n off b) (trsv_LN i a' n off b')" and i: "i < n" by auto
  let ?x = "trsv_LN i a n off b" and ?x' = "trsv_LN i a' n off b'"
  have "dsum (\<lambda>k. a (i + k * n) * ?x (off + k)) i = dsum (\<lambda>k. a' (i + k * n) * ?x' (off + k)) i"
  proof (rule dsum_cong)
    fix l assume l: "l < i"
    then have "i + l * n < n * n" "off + l < K" using i assms(2) idx_lt[of i n l n] by auto
    then show "a (i + l * n) * ?x (off + l) = a' (i + l * n) * ?x' (off + l)"
      using assms(1) IH by (simp add: eq_on_def)
  qed
  moreover have "a (i + i * n) = a' (i + i * n)" using assms(1) i idx_lt[of i n i n] by (simp add: eq_on_def)
  moreover have "?x (off + i) = ?x' (off + i)" using IH i assms(2) by (simp add: eq_on_def)
  ultimately show ?case using IH by (simp add: Let_def eq_on_def)
qed

lemma trsv_LT_cong:
  assumes "eq_on (n * n) a a'" "off + n \<le> K" "eq_on K b b'" "m \<le> n"
  shows "eq_on K (trsv_LT m n a n off b) (trsv_LT m n a' n off b')"
  using assms(4)
proof (induction m)
  case 0
  then show ?case using assms(3) by simp
next
  case (Suc m)
  then have IH: "eq_on K (trsv_LT m n a n off b) (trsv_LT m n a' n off b')" and m: "m < n" by auto
  let ?x = "trsv_LT m n a n off b" and ?x' = "trsv_LT m n a' n off b'"
  define i where "i = n - Suc m"
  have i: "i < n" "i + 1 + m = n" using m by (auto simp: i_def)
  have "dsum (\<lambda>k. a (i + 1 + k + i * n) * ?x (off + i + 1 + k)) m
      = dsum (\<lambda>k. a' (i + 1 + k + i * n) * ?x' (off + i + 1 + k)) m"
  proof (rule dsum_cong)
    fix l assume l: "l < m"
    then have "i + 1 + l + i * n < n * n" "off + i + 1 + l < K"
      using i assms(2) idx_lt[of "i + 1 + l" n i n] by auto
    then show "a (i + 1 + l + i * n) * ?x (off + i + 1 + l) = a' (i + 1 + l + i * n) * ?x' (off + i + 1 + l)"
      using assms(1) IH by (simp add: eq_on_def)
  qed
  moreover have "a (i + i * n) = a' (i + i * n)" using assms(1) i idx_lt[of i n i n] by (simp add: eq_on_def)
  moreover have "?x (off + i) = ?x' (off + i)" using IH i assms(2) by (simp add: eq_on_def)
  ultimately show ?case using IH by (simp add: Let_def eq_on_def i_def)
qed

lemma each_column_cong:
  assumes "\<And>c x x'. c < nrhs \<Longrightarrow> eq_on K x x' \<Longrightarrow> eq_on K (f (c * ldb) x) (f' (c * ldb) x')"
    and "eq_on K b b'" "c \<le> nrhs"
  shows "eq_on K (each_column c ldb f b) (each_column c ldb f' b')"
  using assms(3) by (induction c) (auto intro: assms)

lemma dtrsm_L_cong:
  assumes "eq_on (n * n) a a'" "eq_on (n * nrhs) b b'"
  shows "eq_on (n * nrhs) (dtrsm_L tr n nrhs a n b n) (dtrsm_L tr n nrhs a' n b' n)"
proof -
  have off: "c * n + n \<le> n * nrhs" if "c < nrhs" for c
  proof -
    have "c * n + n = n * Suc c" by simp
    also have "\<dots> \<le> n * nrhs" using that by (intro mult_le_mono2) simp
    finally show ?thesis .
  qed
  show ?thesis
  proof (cases tr)
    case NoTrans
    then show ?thesis
      using each_column_cong[where nrhs=nrhs and K="n * nrhs" and f="trsv_LN n a n" and ldb=n and f'="trsv_LN n a' n" and b=b and b'=b' and c=nrhs]
        trsv_LN_cong[OF assms(1) off] assms(2) by (simp add: dtrsm_L_def)
  next
    case Trans
    then show ?thesis
      using each_column_cong[where nrhs=nrhs and K="n * nrhs" and f="trsv_LT n n a n" and ldb=n and f'="trsv_LT n n a' n" and b=b and b'=b' and c=nrhs]
        trsv_LT_cong[OF assms(1) off] assms(2) by (simp add: dtrsm_L_def)
  qed
qed

lemma find_diag_cong:
  assumes "eq_on (n * n) a a'"
  shows "find (\<lambda>i. deq (a (i + i * n)) 0) [0..<n] = find (\<lambda>i. deq (a' (i + i * n)) 0) [0..<n]"
proof (rule find_cong[OF refl])
  fix i assume "i \<in> set [0..<n]"
  then have "i + i * n < n * n" using idx_lt[of i n i n] by simp
  then show "deq (a (i + i * n)) 0 = deq (a' (i + i * n)) 0" using assms by (simp add: eq_on_def)
qed

lemma dtrtrs_cong:
  assumes "eq_on (n * n) a a'" "eq_on (n * nrhs) b b'"
  shows "eq_on (n * nrhs) (fst (dtrtrs tr n nrhs a n b n)) (fst (dtrtrs tr n nrhs a' n b' n))"
    "snd (dtrtrs tr n nrhs a n b n) = snd (dtrtrs tr n nrhs a' n b' n)"
  using dtrsm_L_cong[OF assms] assms(2) find_diag_cong[OF assms(1)]
  by (auto simp: dtrtrs_def split: option.splits)

lemma dpotrs_cong:
  assumes "eq_on (n * n) a a'" "eq_on (n * nrhs) b b'"
  shows "eq_on (n * nrhs) (fst (dpotrs n nrhs a n b n)) (fst (dpotrs n nrhs a' n b' n))"
  using dtrsm_L_cong[OF assms(1) dtrsm_L_cong[OF assms]] by (simp add: dpotrs_def)

lemma eq_on_restrict: "k \<le> k' \<Longrightarrow> eq_on k v (restrict k' v)"
  by (simp add: eq_on_def restrict_def)

lemma eq_on_restrict_mul [simp]:
  "eq_on (a * b) v (restrict (a * b) v)" "eq_on (a * b) v (restrict (b * a) v)" "eq_on a v (restrict a v)"
  by (simp_all add: eq_on_restrict mult.commute)

lemma dcopy_restrict_cong: "eq_on n (dcopy n x y) (dcopy n (restrict n x) y')"
  by (simp add: eq_on_def dcopy_def restrict_def)

lemma dgemm_TN_cong:
  assumes "eq_on (k * m) a a'" "eq_on (k * n) b b'" "eq_on (m * n) c c'"
  shows "eq_on (m * n) (dgemm Trans NoTrans m n k alpha a k b k beta c m)
                       (dgemm Trans NoTrans m n k alpha a' k b' k beta c' m)"
  using dgemm_cong[where ta=Trans and tb=NoTrans and m=m and n=n and k=k and a=a and a'=a' and b=b and b'=b'
      and c=c and c'=c' and lda=k and ldb=k and beta=beta and alpha=alpha] assms
  by (simp add: mult.commute)

lemma dgemm_TN0_cong:
  assumes "eq_on (k * m) a a'" "eq_on (k * n) b b'"
  shows "eq_on (m * n) (dgemm Trans NoTrans m n k alpha a k b k (Fin 0) c m)
                       (dgemm Trans NoTrans m n k alpha a' k b' k (Fin 0) c' m)"
  using dgemm_cong[where ta=Trans and tb=NoTrans and m=m and n=n and k=k and a=a and a'=a' and b=b and b'=b'
      and c=c and c'=c' and lda=k and ldb=k and beta="Fin 0" and alpha=alpha] assms
  by (simp add: mult.commute)

lemma dgemm_NN_cong:
  assumes "eq_on (m * k) a a'" "eq_on (k * n) b b'" "eq_on (m * n) c c'"
  shows "eq_on (m * n) (dgemm NoTrans NoTrans m n k alpha a m b k beta c m)
                       (dgemm NoTrans NoTrans m n k alpha a' m b' k beta c' m)"
  using dgemm_cong[where ta=NoTrans and tb=NoTrans and m=m and n=n and k=k and a=a and a'=a' and b=b and b'=b'
      and c=c and c'=c' and lda=m and ldb=k and beta=beta and alpha=alpha] assms
  by simp

lemma dgemm_NN0_cong:
  assumes "eq_on (m * k) a a'" "eq_on (k * n) b b'"
  shows "eq_on (m * n) (dgemm NoTrans NoTrans m n k alpha a m b k (Fin 0) c m)
                       (dgemm NoTrans NoTrans m n k alpha a' m b' k (Fin 0) c' m)"
  using dgemm_cong[where ta=NoTrans and tb=NoTrans and m=m and n=n and k=k and a=a and a'=a' and b=b and b'=b'
      and c=c and c'=c' and lda=m and ldb=k and beta="Fin 0" and alpha=alpha] assms
  by simp

lemma dgemv_T_cong:
  assumes "eq_on (m * n) a a'" "eq_on m x x'" "eq_on n y y'"
  shows "eq_on n (dgemv Trans m n alpha a m x beta y) (dgemv Trans m n alpha a' m x' beta y')"
  using dgemv_Trans_cong[OF assms(1,2)] assms(3) by simp

lemma dgemv_T0_cong:
  assumes "eq_on (m * n) a a'" "eq_on m x x'"
  shows "eq_on n (dgemv Trans m n alpha a m x (Fin 0) y) (dgemv Trans m n alpha a' m x' (Fin 0) y')"
  using dgemv_Trans_cong[OF assms(1,2), where beta="Fin 0"] by simp

lemma dtrtrs1_cong:
  assumes "eq_on (n * n) a a'" "eq_on n b b'"
  shows "eq_on n (fst (dtrtrs tr n (Suc 0) a n b n)) (fst (dtrtrs tr n (Suc 0) a' n b' n))"
  using dtrtrs_cong(1)[where nrhs="Suc 0" and n=n and a=a and a'=a' and b=b and b'=b' and tr=tr] assms by simp

lemma fold_ll_cong:
  assumes "eq_on (p * p) L L'" "l0 = l0'" "k \<le> p"
  shows "fold (\<lambda>i ll. ll - dlog (L (i + i * p))) [0..<k] l0 = fold (\<lambda>i ll. ll - dlog (L' (i + i * p))) [0..<k] l0'"
  using assms(3)
proof (induction k)
  case 0
  then show ?case using assms(2) by simp
next
  case (Suc k)
  then have "k + k * p < p * p" using idx_lt[of k p k p] by simp
  then show ?case using Suc assms(1) by (simp add: eq_on_def)
qed

lemmas cong_rules = dcopy_cong daxpy_cong dgemm_TN0_cong dgemm_NN0_cong dgemm_TN_cong dgemm_NN_cong
  dgemv_T0_cong dgemv_T_cong dger_cong dtrmv_cong dpotrf_cong(1) dtrtrs1_cong dtrtrs_cong(1) dpotrs_cong

lemma dne_self [simp]: "dne x x = (x = NaN)"
  by (cases x) auto

lemma cond_sepD:
  assumes "cond_sep mx sx C R y mc sc tp tpn tpp"
  shows "tp \<noteq> tpn" "tp \<noteq> tpp" "tpn \<noteq> tpp" "tpn \<noteq> tp" "tpp \<noteq> tp" "tpp \<noteq> tpn"
    "tp \<noteq> mx" "tp \<noteq> sx" "tp \<noteq> C" "tp \<noteq> R" "tp \<noteq> y" "tp \<noteq> mc" "tp \<noteq> sc"
    "tpn \<noteq> mx" "tpn \<noteq> sx" "tpn \<noteq> C" "tpn \<noteq> R" "tpn \<noteq> y" "tpn \<noteq> mc" "tpn \<noteq> sc"
    "tpp \<noteq> mx" "tpp \<noteq> sx" "tpp \<noteq> C" "tpp \<noteq> R" "tpp \<noteq> y" "tpp \<noteq> mc" "tpp \<noteq> sc"
    "mx \<noteq> tp" "sx \<noteq> tp" "C \<noteq> tp" "R \<noteq> tp" "y \<noteq> tp" "mc \<noteq> tp" "sc \<noteq> tp"
    "mx \<noteq> tpn" "sx \<noteq> tpn" "C \<noteq> tpn" "R \<noteq> tpn" "y \<noteq> tpn" "mc \<noteq> tpn" "sc \<noteq> tpn"
    "mx \<noteq> tpp" "sx \<noteq> tpp" "C \<noteq> tpp" "R \<noteq> tpp" "y \<noteq> tpp" "mc \<noteq> tpp" "sc \<noteq> tpp"
    "mc \<noteq> sc" "sc \<noteq> mc" "mc \<noteq> sx" "mc \<noteq> C" "mc \<noteq> R" "mc \<noteq> y" "sc \<noteq> mx" "sc \<noteq> C" "sc \<noteq> R" "sc \<noteq> y"
    "sx \<noteq> mc" "C \<noteq> mc" "R \<noteq> mc" "y \<noteq> mc" "mx \<noteq> sc" "C \<noteq> sc" "R \<noteq> sc" "y \<noteq> sc"
  using assms unfolding cond_sep_def by auto

lemma dcopy_s_apply: "dcopy_s n x y s q = (if q = y then dcopy n (s x) (s y) else s q)"
  by (simp add: dcopy_s_def)

lemma daxpy_s_apply: "daxpy_s n al x y s q = (if q = y then daxpy n al (s x) (s y) else s q)"
  by (simp add: daxpy_s_def)

lemma dgemm_s_apply:
  "dgemm_s ta tb m n k al a lda b ldb be c ldc s q
     = (if q = c then dgemm ta tb m n k al (s a) lda (s b) ldb be (s c) ldc else s q)"
  by (simp add: dgemm_s_def)

lemma dgemv_s_apply:
  "dgemv_s tr m n al a lda x be y s q = (if q = y then dgemv tr m n al (s a) lda (s x) be (s y) else s q)"
  by (simp add: dgemv_s_def)

lemma dger_s_apply:
  "dger_s m n al x y a lda s q = (if q = a then dger m n al (s x) (s y) (s a) lda else s q)"
  by (simp add: dger_s_def)

lemma dtrmv_s_apply: "dtrmv_s n a lda x s q = (if q = x then dtrmv n (s a) lda (s x) else s q)"
  by (simp add: dtrmv_s_def)

lemma dpotrf_s_apply: "fst (dpotrf_s n a lda s) q = (if q = a then fst (dpotrf n (s a) lda) else s q)"
  by (simp add: dpotrf_s_def split_beta)

lemma dtrtrs_s_apply:
  "fst (dtrtrs_s tr n nrhs a lda b ldb s) q = (if q = b then fst (dtrtrs tr n nrhs (s a) lda (s b) ldb) else s q)"
  by (simp add: dtrtrs_s_def split_beta)

lemma dpotrs_s_apply:
  "fst (dpotrs_s n nrhs a lda b ldb s) q = (if q = b then fst (dpotrs n nrhs (s a) lda (s b) ldb) else s q)"
  by (simp add: dpotrs_s_def split_beta)

lemmas store_apply = dcopy_s_apply daxpy_s_apply dgemm_s_apply dgemv_s_apply dger_s_apply dtrmv_s_apply
  dpotrf_s_apply dtrtrs_s_apply dpotrs_s_apply

lemma condition_on_ll:
  assumes sep: "cond_sep mx sx C R y mc sc tp tpn tpp"
  shows "fst (condition_on p n mx sx C R y mc sc tp tpn tpp s)
       = fst (cond_pure p n (s mx) (s sx) (s C) (s R) (s y))"
proof (cases "s y 0 = NaN")
  case True
  then show ?thesis by (simp add: condition_on_def cond_pure_def Let_def)
next
  case False
  note d = cond_sepD[OF sep]
  show ?thesis
    using False
    apply (simp add: condition_on_def cond_pure_def Let_def split_beta store_apply d
         cond_ll_def cond_z_def cond_L_def cond_S_def cond_tpn_def cond_r_def del: dlog.simps)
    apply (intro conjI impI)
    apply (intro fold_ll_cong arg_cong2[where f="(-)"] arg_cong2[where f="(*)"] arg_cong[where f=dsq]
        dnrm2_cong cong_rules refl order_refl; simp)+
    done
qed

lemma dcopy_restrict: "eq_on n (dcopy n x y) (restrict n x)"
  by (simp add: eq_on_def dcopy_def restrict_def)

lemma eq_on_dcopy_restrict: "eq_on n v (dcopy n (restrict n v) y)"
  by (simp add: eq_on_def dcopy_def restrict_def)

lemma condition_on_mu:
  assumes sep: "cond_sep mx sx C R y mc sc tp tpn tpp"
  shows "eq_on n (snd (condition_on p n mx sx C R y mc sc tp tpn tpp s) mc)
           (fst (snd (cond_pure p n (s mx) (s sx) (s C) (s R) (s y))))"
proof (cases "s y 0 = NaN")
  case True
  note d = cond_sepD[OF sep]
  from True show ?thesis
    by (simp add: condition_on_def cond_pure_def Let_def store_apply d dcopy_restrict)
next
  case False
  note d = cond_sepD[OF sep]
  show ?thesis
    using False
    apply (simp add: condition_on_def cond_pure_def Let_def split_beta store_apply d
         cond_mu_def cond_w_def cond_z_def cond_L_def cond_S_def cond_tpn_def cond_r_def del: dlog.simps)
    apply (intro conjI impI)
    apply (intro cong_rules eq_on_dcopy_restrict refl order_refl; simp)+
    done
qed

lemma condition_on_sigma:
  assumes sep: "cond_sep mx sx C R y mc sc tp tpn tpp"
  shows "eq_on (n * n) (snd (condition_on p n mx sx C R y mc sc tp tpn tpp s) sc)
           (snd (snd (cond_pure p n (s mx) (s sx) (s C) (s R) (s y))))"
proof (cases "s y 0 = NaN")
  case True
  note d = cond_sepD[OF sep]
  from True show ?thesis
    by (simp add: condition_on_def cond_pure_def Let_def store_apply d dcopy_restrict)
next
  case False
  note d = cond_sepD[OF sep]
  show ?thesis
    using False
    apply (simp add: condition_on_def cond_pure_def Let_def split_beta store_apply d
         cond_sigma_def cond_V_def cond_L_def cond_S_def cond_tpn_def del: dlog.simps)
    apply (intro conjI impI)
    apply (intro cong_rules eq_on_dcopy_restrict refl order_refl; simp)+
    done
qed

lemma condition_on_frame:
  assumes "q \<noteq> mc" "q \<noteq> sc" "q \<noteq> tp" "q \<noteq> tpn" "q \<noteq> tpp"
  shows "snd (condition_on p n mx sx C R y mc sc tp tpn tpp s) q = s q"
  using assms
  by (simp add: condition_on_def Let_def split_beta store_apply del: dlog.simps)

lemma pred_sepD:
  assumes "pred_sep mu sg A Q mp sp tnn"
  shows "tnn \<noteq> mu" "tnn \<noteq> sg" "tnn \<noteq> A" "tnn \<noteq> Q" "tnn \<noteq> mp" "tnn \<noteq> sp"
    "mu \<noteq> tnn" "sg \<noteq> tnn" "A \<noteq> tnn" "Q \<noteq> tnn" "mp \<noteq> tnn" "sp \<noteq> tnn"
    "mp \<noteq> sp" "sp \<noteq> mp" "mp \<noteq> mu" "mp \<noteq> sg" "mp \<noteq> A" "mp \<noteq> Q" "sp \<noteq> mu" "sp \<noteq> sg" "sp \<noteq> A" "sp \<noteq> Q"
    "mu \<noteq> mp" "sg \<noteq> mp" "A \<noteq> mp" "Q \<noteq> mp" "mu \<noteq> sp" "sg \<noteq> sp" "A \<noteq> sp" "Q \<noteq> sp"
  using assms unfolding pred_sep_def by auto

lemma predict_mu:
  assumes sep: "pred_sep mu sg A Q mp sp tnn"
  shows "eq_on n (predict n mu sg A Q mp sp tnn s mp) (fst (pred_pure n (s mu) (s sg) (s A) (s Q)))"
  apply (simp add: predict_def pred_pure_def Let_def store_apply pred_sepD[OF sep] pred_mu_def)
  apply (intro cong_rules refl; simp)
  done

lemma predict_sigma:
  assumes sep: "pred_sep mu sg A Q mp sp tnn"
  shows "eq_on (n * n) (predict n mu sg A Q mp sp tnn s sp) (snd (pred_pure n (s mu) (s sg) (s A) (s Q)))"
  apply (simp add: predict_def pred_pure_def Let_def store_apply pred_sepD[OF sep] pred_sigma_def)
  apply (intro cong_rules refl; simp)
  done

lemma predict_frame:
  assumes "q \<noteq> mp" "q \<noteq> sp" "q \<noteq> tnn"
  shows "predict n mu sg A Q mp sp tnn s q = s q"
  using assms by (simp add: predict_def Let_def store_apply)

lemma restrict_cong: "eq_on k v w \<Longrightarrow> restrict k v = restrict k w"
  by (auto simp: eq_on_def restrict_def)

lemma cond_pure_cong:
  assumes "eq_on n vmx vmx'" "eq_on (n * n) vsx vsx'" "eq_on (n * p) vC vC'" "eq_on (p * p) vR vR'"
    "eq_on p vy vy'" "vy 0 = vy' 0"
  shows "cond_pure p n vmx vsx vC vR vy = cond_pure p n vmx' vsx' vC' vR' vy'"
  using assms(6) restrict_cong[OF assms(1)] restrict_cong[OF assms(2)] restrict_cong[OF assms(3)]
    restrict_cong[OF assms(4)] restrict_cong[OF assms(5)]
  by (simp add: cond_pure_def)

lemma pred_pure_cong:
  assumes "eq_on n vmu vmu'" "eq_on (n * n) vsg vsg'" "eq_on (n * n) vA vA'" "eq_on (n * n) vQ vQ'"
  shows "pred_pure n vmu vsg vA vQ = pred_pure n vmu' vsg' vA' vQ'"
  using restrict_cong[OF assms(1)] restrict_cong[OF assms(2)] restrict_cong[OF assms(3)]
    restrict_cong[OF assms(4)]
  by (simp add: pred_pure_def)

lemma fwd_Suc:
  "fwd mu_init sigma_init A Q C R data (Suc t)
     = fwd_step (shape3_1 C) (shape3_2 C) A Q C R data t (fwd mu_init sigma_init A Q C R data t)"
  by (simp add: fwd_def)

lemma filter_sep:
  "cond_sep (Buf_mu_predict, 0) (Buf_sigma_predict, 0) (Buf_C, t) (Buf_sigma_obs, t) (Buf_data, t)
     (Buf_filtered_mus, t) (Buf_filtered_sigmas, t) (Buf_temp_p, 0) (Buf_temp_pn, 0) (Buf_temp_pp, 0)"
  "pred_sep (Buf_filtered_mus, t) (Buf_filtered_sigmas, t) (Buf_A, t) (Buf_sigma_states, t)
     (Buf_mu_predict, 0) (Buf_sigma_predict, 0) (Buf_temp_nn, 0)"
  by (simp_all add: cond_sep_def pred_sep_def)

lemma filter_step_inv:
  assumes "filter_inv mu_init sigma_init A Q C R data t sl"
  shows "filter_inv mu_init sigma_init A Q C R data (Suc t) (filter_step (shape3_1 C) (shape3_2 C) t sl)"
proof -
  obtain s ll where sl: "sl = (s, ll)" by (cases sl)
  let ?p = "shape3_1 C" and ?n = "shape3_2 C"
  obtain mp sp l where f: "fwd mu_init sigma_init A Q C R data t = (mp, sp, l)"
    by (cases "fwd mu_init sigma_init A Q C R data t")
  from assms sl f have ld: "inputs_loaded A Q C R data s"
    and mp: "eq_on ?n (s (Buf_mu_predict, 0)) mp" and sp: "eq_on (?n * ?n) (s (Buf_sigma_predict, 0)) sp"
    and ll: "ll = l"
    and old: "\<And>k. k < t \<Longrightarrow> eq_on ?n (s (Buf_filtered_mus, k)) (fst (filt mu_init sigma_init A Q C R data k))
                \<and> eq_on (?n * ?n) (s (Buf_filtered_sigmas, k)) (snd (filt mu_init sigma_init A Q C R data k))"
    by (auto simp: filter_inv_def)
  define r where "r = condition_on ?p ?n (Buf_mu_predict, 0) (Buf_sigma_predict, 0)
                      (Buf_C, t) (Buf_sigma_obs, t) (Buf_data, t)
                      (Buf_filtered_mus, t) (Buf_filtered_sigmas, t)
                      (Buf_temp_p, 0) (Buf_temp_pn, 0) (Buf_temp_pp, 0) s"
  define s2 where "s2 = predict ?n (Buf_filtered_mus, t) (Buf_filtered_sigmas, t) (Buf_A, t) (Buf_sigma_states, t)
                 (Buf_mu_predict, 0) (Buf_sigma_predict, 0) (Buf_temp_nn, 0) (snd r)"
  have step: "filter_step ?p ?n t sl = (s2, ll + fst r)"
    by (simp add: filter_step_def sl split_beta Let_def r_def s2_def)
  define cp where "cp = cond_pure ?p ?n mp sp (slab3 C t) (slab3 R t) (row2 data t)"
  have cp: "cond_pure ?p ?n (s (Buf_mu_predict, 0)) (s (Buf_sigma_predict, 0)) (s (Buf_C, t))
              (s (Buf_sigma_obs, t)) (s (Buf_data, t)) = cp"
    unfolding cp_def using ld by (intro cond_pure_cong mp sp) (simp_all add: inputs_loaded_def)
  have r1: "fst r = fst cp" unfolding r_def using condition_on_ll[OF filter_sep(1)] cp by simp
  have r2: "eq_on ?n (snd r (Buf_filtered_mus, t)) (fst (snd cp))"
    unfolding r_def cp[symmetric] by (rule condition_on_mu[OF filter_sep(1)])
  have r3: "eq_on (?n * ?n) (snd r (Buf_filtered_sigmas, t)) (snd (snd cp))"
    unfolding r_def cp[symmetric] by (rule condition_on_sigma[OF filter_sep(1)])
  have rf: "\<And>q. fst q \<notin> {Buf_filtered_mus, Buf_filtered_sigmas, Buf_temp_p, Buf_temp_pn, Buf_temp_pp} \<Longrightarrow> snd r q = s q"
    unfolding r_def by (rule condition_on_frame) auto
  have rk: "\<And>k. k \<noteq> t \<Longrightarrow> snd r (Buf_filtered_mus, k) = s (Buf_filtered_mus, k)
                \<and> snd r (Buf_filtered_sigmas, k) = s (Buf_filtered_sigmas, k)"
    unfolding r_def by (simp add: condition_on_frame)
  define pp where "pp = pred_pure ?n (fst (snd cp)) (snd (snd cp)) (slab3 A t) (slab3 Q t)"
  have pp: "pred_pure ?n (snd r (Buf_filtered_mus, t)) (snd r (Buf_filtered_sigmas, t)) (snd r (Buf_A, t))
              (snd r (Buf_sigma_states, t)) = pp"
    unfolding pp_def using ld rf by (intro pred_pure_cong r2 r3) (simp_all add: inputs_loaded_def)
  have p1: "eq_on ?n (s2 (Buf_mu_predict, 0)) (fst pp)"
    unfolding s2_def pp[symmetric] by (rule predict_mu[OF filter_sep(2)])
  have p2: "eq_on (?n * ?n) (s2 (Buf_sigma_predict, 0)) (snd pp)"
    unfolding s2_def pp[symmetric] by (rule predict_sigma[OF filter_sep(2)])
  have pf: "\<And>q. fst q \<notin> {Buf_mu_predict, Buf_sigma_predict, Buf_temp_nn} \<Longrightarrow> s2 q = snd r q"
    unfolding s2_def by (rule predict_frame) auto
  have fS: "fwd mu_init sigma_init A Q C R data (Suc t) = (fst pp, snd pp, l + fst cp)"
    by (simp add: fwd_Suc f fwd_step_def split_beta Let_def cp_def pp_def)
  have ft: "filt mu_init sigma_init A Q C R data t = snd cp"
    by (simp add: filt_def f cp_def)
  have ld2: "inputs_loaded A Q C R data s2"
    using ld pf rf by (simp add: inputs_loaded_def)
  have new: "eq_on ?n (s2 (Buf_filtered_mus, k)) (fst (filt mu_init sigma_init A Q C R data k))
           \<and> eq_on (?n * ?n) (s2 (Buf_filtered_sigmas, k)) (snd (filt mu_init sigma_init A Q C R data k))"
    if "k < Suc t" for k
  proof (cases "k = t")
    case True
    then show ?thesis using r2 r3 pf ft by simp
  next
    case False
    then have "k < t" using that by simp
    then show ?thesis using old[of k] pf rk[OF False] by simp
  qed
  show ?thesis
    unfolding step filter_inv_def using ld2 p1 p2 new fS ll r1 by simp
qed

lemma smoother_sep:
  "cond_sep (Buf_mu_predicts, t) (Buf_sigma_predicts, t) (Buf_C, t) (Buf_sigma_obs, t) (Buf_data, t)
     (Buf_smoothed_mus, t) (Buf_smoothed_sigmas, t) (Buf_temp_p, 0) (Buf_temp_pn, 0) (Buf_temp_pp, 0)"
  "pred_sep (Buf_smoothed_mus, t) (Buf_smoothed_sigmas, t) (Buf_A, t) (Buf_sigma_states, t)
     (Buf_mu_predicts, t + 1) (Buf_sigma_predicts, t + 1) (Buf_temp_nn, 0)"
  by (simp_all add: cond_sep_def pred_sep_def)

lemma smoother_step_inv:
  assumes "smoother_inv mu_init sigma_init A Q C R data t sl"
  shows "smoother_inv mu_init sigma_init A Q C R data (Suc t) (smoother_step (shape3_1 C) (shape3_2 C) t sl)"
proof -
  obtain s ll where sl: "sl = (s, ll)" by (cases sl)
  let ?p = "shape3_1 C" and ?n = "shape3_2 C"
  let ?fwd = "fwd mu_init sigma_init A Q C R data" and ?filt = "filt mu_init sigma_init A Q C R data"
  obtain mp sp l where f: "?fwd t = (mp, sp, l)" by (cases "?fwd t")
  from assms sl f have ld: "inputs_loaded A Q C R data s" and ll: "ll = l"
    and prd: "\<And>k. k \<le> t \<Longrightarrow> eq_on ?n (s (Buf_mu_predicts, k)) (fst (?fwd k))
                \<and> eq_on (?n * ?n) (s (Buf_sigma_predicts, k)) (fst (snd (?fwd k)))"
    and old: "\<And>k. k < t \<Longrightarrow> eq_on ?n (s (Buf_smoothed_mus, k)) (fst (?filt k))
                \<and> eq_on (?n * ?n) (s (Buf_smoothed_sigmas, k)) (snd (?filt k))"
    by (auto simp: smoother_inv_def)
  from prd[of t] f have mp: "eq_on ?n (s (Buf_mu_predicts, t)) mp"
    and sp: "eq_on (?n * ?n) (s (Buf_sigma_predicts, t)) sp" by auto
  define r where "r = condition_on ?p ?n (Buf_mu_predicts, t) (Buf_sigma_predicts, t)
                      (Buf_C, t) (Buf_sigma_obs, t) (Buf_data, t)
                      (Buf_smoothed_mus, t) (Buf_smoothed_sigmas, t)
                      (Buf_temp_p, 0) (Buf_temp_pn, 0) (Buf_temp_pp, 0) s"
  define s2 where "s2 = predict ?n (Buf_smoothed_mus, t) (Buf_smoothed_sigmas, t) (Buf_A, t) (Buf_sigma_states, t)
                 (Buf_mu_predicts, t + 1) (Buf_sigma_predicts, t + 1) (Buf_temp_nn, 0) (snd r)"
  have step: "smoother_step ?p ?n t sl = (s2, ll + fst r)"
    by (simp add: smoother_step_def sl split_beta Let_def r_def s2_def)
  define cp where "cp = cond_pure ?p ?n mp sp (slab3 C t) (slab3 R t) (row2 data t)"
  have cp: "cond_pure ?p ?n (s (Buf_mu_predicts, t)) (s (Buf_sigma_predicts, t)) (s (Buf_C, t))
              (s (Buf_sigma_obs, t)) (s (Buf_data, t)) = cp"
    unfolding cp_def using ld by (intro cond_pure_cong mp sp) (simp_all add: inputs_loaded_def)
  have r1: "fst r = fst cp"
    unfolding r_def cp[symmetric] by (rule condition_on_ll[OF smoother_sep(1)])
  have r2: "eq_on ?n (snd r (Buf_smoothed_mus, t)) (fst (snd cp))"
    unfolding r_def cp[symmetric] by (rule condition_on_mu[OF smoother_sep(1)])
  have r3: "eq_on (?n * ?n) (snd r (Buf_smoothed_sigmas, t)) (snd (snd cp))"
    unfolding r_def cp[symmetric] by (rule condition_on_sigma[OF smoother_sep(1)])
  have rf: "\<And>q. fst q \<notin> {Buf_smoothed_mus, Buf_smoothed_sigmas, Buf_temp_p, Buf_temp_pn, Buf_temp_pp} \<Longrightarrow> snd r q = s q"
    unfolding r_def by (rule condition_on_frame) auto
  have rk: "\<And>k. k \<noteq> t \<Longrightarrow> snd r (Buf_smoothed_mus, k) = s (Buf_smoothed_mus, k)
                \<and> snd r (Buf_smoothed_sigmas, k) = s (Buf_smoothed_sigmas, k)"
    unfolding r_def by (simp add: condition_on_frame)
  define pp where "pp = pred_pure ?n (fst (snd cp)) (snd (snd cp)) (slab3 A t) (slab3 Q t)"
  have pp: "pred_pure ?n (snd r (Buf_smoothed_mus, t)) (snd r (Buf_smoothed_sigmas, t)) (snd r (Buf_A, t))
              (snd r (Buf_sigma_states, t)) = pp"
    unfolding pp_def using ld rf by (intro pred_pure_cong r2 r3) (simp_all add: inputs_loaded_def)
  have p1: "eq_on ?n (s2 (Buf_mu_predicts, t + 1)) (fst pp)"
    unfolding s2_def pp[symmetric] by (rule predict_mu[OF smoother_sep(2)])
  have p2: "eq_on (?n * ?n) (s2 (Buf_sigma_predicts, t + 1)) (snd pp)"
    unfolding s2_def pp[symmetric] by (rule predict_sigma[OF smoother_sep(2)])
  have pf: "\<And>q. fst q \<notin> {Buf_mu_predicts, Buf_sigma_predicts, Buf_temp_nn} \<Longrightarrow> s2 q = snd r q"
    unfolding s2_def by (rule predict_frame) auto
  have pk: "\<And>k. k \<noteq> t + 1 \<Longrightarrow> s2 (Buf_mu_predicts, k) = snd r (Buf_mu_predicts, k)
                \<and> s2 (Buf_sigma_predicts, k) = snd r (Buf_sigma_predicts, k)"
    unfolding s2_def by (simp add: predict_frame)
  have fS: "?fwd (Suc t) = (fst pp, snd pp, l + fst cp)"
    by (simp add: fwd_Suc f fwd_step_def split_beta Let_def cp_def pp_def)
  have ft: "?filt t = snd cp"
    by (simp add: filt_def f cp_def)
  have ld2: "inputs_loaded A Q C R data s2"
    using ld pf rf by (simp add: inputs_loaded_def)
  have new: "eq_on ?n (s2 (Buf_smoothed_mus, k)) (fst (?filt k))
           \<and> eq_on (?n * ?n) (s2 (Buf_smoothed_sigmas, k)) (snd (?filt k))"
    if "k < Suc t" for k
  proof (cases "k = t")
    case True
    then show ?thesis using r2 r3 pf ft by simp
  next
    case False
    then have "k < t" using that by simp
    then show ?thesis using old[of k] pf rk[OF False] by simp
  qed
  have newp: "eq_on ?n (s2 (Buf_mu_predicts, k)) (fst (?fwd k))
           \<and> eq_on (?n * ?n) (s2 (Buf_sigma_predicts, k)) (fst (snd (?fwd k)))"
    if "k \<le> Suc t" for k
  proof (cases "k = Suc t")
    case True
    then show ?thesis using p1 p2 fS by simp
  next
    case False
    then have "k \<le> t" "k \<noteq> t + 1" using that by simp_all
    then show ?thesis using prd[of k] pk[of k] rf by simp
  qed
  show ?thesis
    unfolding step smoother_inv_def using ld2 new newp fS ll r1 by simp
qed

lemma filter_loop_inv:
  assumes "filter_inv mu_init sigma_init A Q C R data 0 sl"
  shows "filter_inv mu_init sigma_init A Q C R data T (fold (filter_step (shape3_1 C) (shape3_2 C)) [0..<T] sl)"
  by (induction T) (simp_all add: assms filter_step_inv)

lemma smoother_loop_inv:
  assumes "smoother_inv mu_init sigma_init A Q C R data 0 sl"
  shows "smoother_inv mu_init sigma_init A Q C R data T (fold (smoother_step (shape3_1 C) (shape3_2 C)) [0..<T] sl)"
  by (induction T) (simp_all add: assms smoother_step_inv)

lemma inputs_loaded_load: "inputs_loaded A Q C R data (load_inputs A Q C R data heap)"
  by (simp add: inputs_loaded_def load_inputs_def)

lemma fwd_0: "fwd mu_init sigma_init A Q C R data 0 = (flat1 mu_init, flat2 sigma_init, Fin 0)"
  by (simp add: fwd_def)

lemma filter_inv_init:
  assumes "init_ok mu_init sigma_init C"
  shows "filter_inv mu_init sigma_init A Q C R data 0
           (copy_init mu_init sigma_init (load_inputs A Q C R data heap), Fin 0)"
  using assms
  by (simp add: filter_inv_def fwd_0 copy_init_def inputs_loaded_def load_inputs_def init_ok_def
      eq_on_def dcopy_def)

lemma filter_inv_init_randn:
  assumes "init_ok mu_init sigma_init C"
  shows "filter_inv mu_init sigma_init A Q C R data 0
           ((\<lambda>(b, t). if b = Buf_randseq then randn t
                       else copy_init mu_init sigma_init (load_inputs A Q C R data heap) (b, t)), Fin 0)"
  using assms
  by (simp add: filter_inv_def fwd_0 copy_init_def inputs_loaded_def load_inputs_def init_ok_def
      eq_on_def dcopy_def)

lemma assign_init_ok:
  assumes "init_ok mu_init sigma_init C"
  shows "\<exists>s0. assign_init (shape3_2 C) mu_init sigma_init (load_inputs A Q C R data heap) = Inr s0
            \<and> smoother_inv mu_init sigma_init A Q C R data 0 (s0, Fin 0)"
  using assms
  by (simp add: smoother_inv_def fwd_0 assign_init_def inputs_loaded_def load_inputs_def init_ok_def
      eq_on_def lt_mul_div lt_mul_mod)

lemma eq_on_map: "eq_on k v w \<longleftrightarrow> map v [0..<k] = map w [0..<k]"
  by (auto simp: eq_on_def)

lemma read_rows_cong:
  assumes "\<And>t. t < T \<Longrightarrow> eq_on n (s (b, t)) (s' (b', t))"
  shows "read_rows T n b s = read_rows T n b' s'"
  using assms by (simp add: read_rows_def eq_on_map)

lemma read_mats_cong:
  assumes "\<And>t. t < T \<Longrightarrow> eq_on (n * n) (s (b, t)) (s' (b', t))"
  shows "read_mats T n b s = read_mats T n b' s'"
proof -
  have "s (b, t) (i * n + j) = s' (b', t) (i * n + j)" if "t < T" "i < n" "j < n" for t i j
    using assms[OF that(1)] idx_lt[of j n i n] that by (simp add: eq_on_def add.commute)
  then show ?thesis by (simp add: read_mats_def)
qed

lemma rts_backward_step_frame:
  assumes "q \<noteq> fm" "q \<noteq> fs" "q \<noteq> npm" "q \<noteq> nps" "q \<noteq> tnn" "q \<noteq> tnn2"
  shows "rts_backward_step n A Q fm fs npm nps nsm nss tnn tnn2 s q = s q"
  using assms by (simp add: rts_backward_step_def Let_def split_beta store_apply)

lemma set_dynamics_stats_frame:
  assumes "q \<noteq> ex"
  shows "set_dynamics_stats n mk mkn Pkns GkT ex s q = s q"
  using assms by (simp add: set_dynamics_stats_def Let_def store_apply)

lemma rts_step_last:
  assumes "t < k"
  shows "rts_step m t s (Buf_smoothed_mus, k) = s (Buf_smoothed_mus, k)"
    "rts_step m t s (Buf_smoothed_sigmas, k) = s (Buf_smoothed_sigmas, k)"
  using assms by (simp_all add: rts_step_def rts_backward_step_frame)

lemma stats_step_last:
  assumes "t < k"
  shows "stats_step m n t s (Buf_smoothed_mus, k) = s (Buf_smoothed_mus, k)"
    "stats_step m n t s (Buf_smoothed_sigmas, k) = s (Buf_smoothed_sigmas, k)"
  using assms by (simp_all add: stats_step_def Let_def set_dynamics_stats_frame rts_step_last)

lemma fold_rts_last:
  assumes "\<And>t. t \<in> set ts \<Longrightarrow> t < k"
  shows "fold (rts_step m) ts s (Buf_smoothed_mus, k) = s (Buf_smoothed_mus, k)
       \<and> fold (rts_step m) ts s (Buf_smoothed_sigmas, k) = s (Buf_smoothed_sigmas, k)"
  using assms by (induction ts arbitrary: s) (simp_all add: rts_step_last)

lemma fold_stats_last:
  assumes "\<And>t. t \<in> set ts \<Longrightarrow> t < k"
  shows "fold (stats_step m n) ts s (Buf_smoothed_mus, k) = s (Buf_smoothed_mus, k)
       \<and> fold (stats_step m n) ts s (Buf_smoothed_sigmas, k) = s (Buf_smoothed_sigmas, k)"
  using assms by (induction ts arbitrary: s) (simp_all add: stats_step_last)

lemma read_rows_pure:
  assumes "\<And>t. t < T \<Longrightarrow> eq_on n (s (b, t)) (f t)"
  shows "read_rows T n b s = map (\<lambda>t. map (f t) [0..<n]) [0..<T]"
  using assms by (simp add: read_rows_def eq_on_map)

lemma read_mats_pure:
  assumes "\<And>t. t < T \<Longrightarrow> eq_on (n * n) (s (b, t)) (f t)"
  shows "read_mats T n b s = map (\<lambda>t. map (\<lambda>i. map (\<lambda>j. f t (i * n + j)) [0..<n]) [0..<n]) [0..<T]"
proof -
  have "s (b, t) (i * n + j) = f t (i * n + j)" if "t < T" "i < n" "j < n" for t i j
    using assms[OF that(1)] idx_lt[of j n i n] that by (simp add: eq_on_def add.commute)
  then show ?thesis by (simp add: read_mats_def)
qed

lemma kalman_filter_pure:
  assumes "init_ok mu_init sigma_init C"
  shows "kalman_filter mu_init sigma_init A Q C R data heap
       = Inr (snd (snd (fwd mu_init sigma_init A Q C R data (shape3_0 C))),
              filtered_rows mu_init sigma_init A Q C R data, filtered_mats mu_init sigma_init A Q C R data)"
proof -
  let ?T = "shape3_0 C" and ?p = "shape3_1 C" and ?n = "shape3_2 C"
  define sl where "sl = fold (filter_step ?p ?n) [0..<?T]
                          (copy_init mu_init sigma_init (load_inputs A Q C R data heap), Fin 0)"
  have inv: "filter_inv mu_init sigma_init A Q C R data ?T sl"
    unfolding sl_def by (rule filter_loop_inv[OF filter_inv_init[OF assms]])
  obtain s ll where sl: "sl = (s, ll)" by (cases sl)
  from inv sl have ll: "ll = snd (snd (fwd mu_init sigma_init A Q C R data ?T))"
    and rows: "\<And>k. k < ?T \<Longrightarrow> eq_on ?n (s (Buf_filtered_mus, k)) (fst (filt mu_init sigma_init A Q C R data k))"
    and mats: "\<And>k. k < ?T \<Longrightarrow> eq_on (?n * ?n) (s (Buf_filtered_sigmas, k)) (snd (filt mu_init sigma_init A Q C R data k))"
    by (auto simp: filter_inv_def split_beta)
  have "kalman_filter mu_init sigma_init A Q C R data heap
      = Inr (ll, read_rows ?T ?n Buf_filtered_mus s, read_mats ?T ?n Buf_filtered_sigmas s)"
    using sl by (simp add: kalman_filter_def Let_def sl_def[symmetric])
  then show ?thesis
    using ll read_rows_pure[of ?T ?n s Buf_filtered_mus, OF rows] read_mats_pure[of ?T ?n s Buf_filtered_sigmas, OF mats]
    by (simp add: filtered_rows_def filtered_mats_def)
qed

lemma smoother_forward:
  assumes "init_ok mu_init sigma_init C"
  shows "\<exists>s0 s1. assign_init (shape3_2 C) mu_init sigma_init (load_inputs A Q C R data heap) = Inr s0
           \<and> fold (smoother_step (shape3_1 C) (shape3_2 C)) [0..<shape3_0 C] (s0, Fin 0)
               = (s1, snd (snd (fwd mu_init sigma_init A Q C R data (shape3_0 C))))
           \<and> smoother_inv mu_init sigma_init A Q C R data (shape3_0 C)
               (s1, snd (snd (fwd mu_init sigma_init A Q C R data (shape3_0 C))))"
proof -
  from assign_init_ok[OF assms] obtain s0 where
    s0: "assign_init (shape3_2 C) mu_init sigma_init (load_inputs A Q C R data heap) = Inr s0"
    and i0: "smoother_inv mu_init sigma_init A Q C R data 0 (s0, Fin 0)" by blast
  define sl where "sl = fold (smoother_step (shape3_1 C) (shape3_2 C)) [0..<shape3_0 C] (s0, Fin 0)"
  have inv: "smoother_inv mu_init sigma_init A Q C R data (shape3_0 C) sl"
    unfolding sl_def by (rule smoother_loop_inv[OF i0])
  obtain s1 ll where sl: "sl = (s1, ll)" by (cases sl)
  from inv sl have "ll = snd (snd (fwd mu_init sigma_init A Q C R data (shape3_0 C)))"
    by (simp add: smoother_inv_def)
  with s0 sl inv show ?thesis unfolding sl_def by auto
qed

lemma init_okI:
  "shape1_0 mu_init = shape3_2 C \<Longrightarrow> shape2_0 sigma_init = shape3_2 C \<Longrightarrow> shape2_1 sigma_init = shape3_2 C
     \<Longrightarrow> init_ok mu_init sigma_init C"
  by (simp add: init_ok_def)

lemma filter_and_sample_ll:
  assumes "init_ok mu_init sigma_init C" and pos: "0 < shape3_0 C"
  shows "\<exists>xs. filter_and_sample mu_init sigma_init A Q C R data randn heap
             = Inr (snd (snd (fwd mu_init sigma_init A Q C R data (shape3_0 C))), xs)"
proof -
  let ?T = "shape3_0 C" and ?p = "shape3_1 C" and ?n = "shape3_2 C"
  define s0 where "s0 = (\<lambda>(b, t). if b = Buf_randseq then randn t
                       else copy_init mu_init sigma_init (load_inputs A Q C R data heap) (b, t))"
  define sl where "sl = fold (filter_step ?p ?n) [0..<?T] (s0, Fin 0)"
  have inv: "filter_inv mu_init sigma_init A Q C R data ?T sl"
    unfolding sl_def s0_def by (rule filter_loop_inv[OF filter_inv_init_randn[OF assms(1)]])
  obtain s ll where sl: "sl = (s, ll)" by (cases sl)
  from inv sl have ll: "ll = snd (snd (fwd mu_init sigma_init A Q C R data ?T))"
    by (auto simp: filter_inv_def split_beta)
  show ?thesis
    using sl ll pos by (simp add: filter_and_sample_def Let_def s0_def[symmetric] sl_def[symmetric])
qed

lemma rts_smoother_shape:
  assumes "init_ok mu_init sigma_init C"
  shows "\<exists>s1 s2. smoother_inv mu_init sigma_init A Q C R data (shape3_0 C)
                   (s1, snd (snd (fwd mu_init sigma_init A Q C R data (shape3_0 C))))
          \<and> s2 = fold (rts_step (shape3_1 A)) (rev [0..<shape3_0 C - 1]) s1
          \<and> rts_smoother mu_init sigma_init A Q C R data heap
             = Inr (snd (snd (fwd mu_init sigma_init A Q C R data (shape3_0 C))),
                    read_rows (shape3_0 C) (shape3_2 C) Buf_smoothed_mus s2,
                    read_mats (shape3_0 C) (shape3_2 C) Buf_smoothed_sigmas s2)"
proof -
  from smoother_forward[OF assms, of A Q R data heap] obtain s0 s1 where
    a: "assign_init (shape3_2 C) mu_init sigma_init (load_inputs A Q C R data heap) = Inr s0"
    and f: "fold (smoother_step (shape3_1 C) (shape3_2 C)) [0..<shape3_0 C] (s0, Fin 0)
               = (s1, snd (snd (fwd mu_init sigma_init A Q C R data (shape3_0 C))))"
    and i: "smoother_inv mu_init sigma_init A Q C R data (shape3_0 C)
               (s1, snd (snd (fwd mu_init sigma_init A Q C R data (shape3_0 C))))" by blast
  show ?thesis
    by (rule exI[of _ s1], rule exI[of _ "fold (rts_step (shape3_1 A)) (rev [0..<shape3_0 C - 1]) s1"])
      (use a f i in \<open>simp add: rts_smoother_def Let_def\<close>)
qed

lemma E_step_shape:
  assumes "init_ok mu_init sigma_init C" "0 < shape3_0 C"
  shows "\<exists>s1 s2. smoother_inv mu_init sigma_init A Q C R data (shape3_0 C)
                   (s1, snd (snd (fwd mu_init sigma_init A Q C R data (shape3_0 C))))
          \<and> s2 = fold (stats_step (shape3_1 A) (shape3_2 C)) (rev [0..<shape3_0 C - 1]) s1
          \<and> E_step mu_init sigma_init A Q C R data heap
             = Inr (snd (snd (fwd mu_init sigma_init A Q C R data (shape3_0 C))),
                    read_rows (shape3_0 C) (shape3_2 C) Buf_smoothed_mus s2,
                    read_mats (shape3_0 C) (shape3_2 C) Buf_smoothed_sigmas s2,
                    read_mats (shape3_0 C - 1) (shape3_2 C) Buf_ExxnT s2)"
proof -
  from smoother_forward[OF assms(1), of A Q R data heap] obtain s0 s1 where
    a: "assign_init (shape3_2 C) mu_init sigma_init (load_inputs A Q C R data heap) = Inr s0"
    and f: "fold (smoother_step (shape3_1 C) (shape3_2 C)) [0..<shape3_0 C] (s0, Fin 0)
               = (s1, snd (snd (fwd mu_init sigma_init A Q C R data (shape3_0 C))))"
    and i: "smoother_inv mu_init sigma_init A Q C R data (shape3_0 C)
               (s1, snd (snd (fwd mu_init sigma_init A Q C R data (shape3_0 C))))" by blast
  show ?thesis
    by (rule exI[of _ s1],
        rule exI[of _ "fold (stats_step (shape3_1 A) (shape3_2 C)) (rev [0..<shape3_0 C - 1]) s1"])
      (use a f i assms(2) in \<open>simp add: E_step_def Let_def\<close>)
qed

lemma add_Fin0 [simp]: "x + Fin 0 = (x::dbl)"
  by (cases x) simp_all

lemma filter_step_frame:
  assumes "b \<notin> {Buf_temp_p, Buf_temp_pn, Buf_temp_pp, Buf_temp_nn, Buf_mu_predict, Buf_sigma_predict}"
    and "b \<in> {Buf_filtered_mus, Buf_filtered_sigmas} \<longrightarrow> k \<noteq> t"
  shows "fst (filter_step p n t sl) (b, k) = fst sl (b, k)"
  using assms by (cases sl) (auto simp: filter_step_def split_beta Let_def predict_frame condition_on_frame)

lemma fold_filter_step_frame:
  assumes "b \<notin> {Buf_temp_p, Buf_temp_pn, Buf_temp_pp, Buf_temp_nn, Buf_mu_predict, Buf_sigma_predict}"
    and "b \<in> {Buf_filtered_mus, Buf_filtered_sigmas} \<longrightarrow> k \<notin> set ts"
  shows "fst (fold (filter_step p n) ts sl) (b, k) = fst sl (b, k)"
  using assms(2)
proof (induction ts arbitrary: sl)
  case Nil
  then show ?case by simp
next
  case (Cons t ts)
  then show ?case using filter_step_frame[OF assms(1), of k t p n sl] by auto
qed

lemma filter_state_data:
  "fst (filter_state mu_init sigma_init A Q C R data heap t) (Buf_data, k) = row2 data k"
  unfolding filter_state_def
  by (subst fold_filter_step_frame) (simp_all add: copy_init_def load_inputs_def)

lemma condition_on_missing:
  assumes "cond_sep mu_x sigma_x C sigma_obs y mu_cond sigma_cond temp_p temp_pn temp_pp"
    and "dne (s y 0) (s y 0)"
  shows "fst (condition_on p n mu_x sigma_x C sigma_obs y mu_cond sigma_cond temp_p temp_pn temp_pp s) = Fin 0"
    "eq_on n (snd (condition_on p n mu_x sigma_x C sigma_obs y mu_cond sigma_cond temp_p temp_pn temp_pp s) mu_cond) (s mu_x)"
    "eq_on (n * n) (snd (condition_on p n mu_x sigma_x C sigma_obs y mu_cond sigma_cond temp_p temp_pn temp_pp s) sigma_cond) (s sigma_x)"
    "q \<noteq> mu_cond \<Longrightarrow> q \<noteq> sigma_cond \<Longrightarrow>
       snd (condition_on p n mu_x sigma_x C sigma_obs y mu_cond sigma_cond temp_p temp_pn temp_pp s) q = s q"
  using assms(2) cond_sepD[OF assms(1)]
  by (simp_all add: condition_on_def Let_def store_apply eq_on_def dcopy_def)

lemma dpotrf_s_info: "snd (dpotrf_s n a lda s) = snd (dpotrf n (s a) lda)"
  by (simp add: dpotrf_s_def split_beta)


lemmas example_defs = scalar1_def scalar2_def scalar3_def nan_rows_def no_heap_def no_draws_def two_rows_def

lemmas routine_defs = kalman_filter_def rts_smoother_def filter_and_sample_def E_step_def
  filter_step_def smoother_step_def rts_step_def stats_step_def sample_step_def filter_state_def
  condition_on_def predict_def rts_backward_step_def set_dynamics_stats_def sample_gaussian_def
  condition_on_info_def dpotrf_s_info Let_def split_beta store_apply copy_init_def assign_init_def load_inputs_def
  slab3_def row2_def read_rows_def read_mats_def

lemmas backend_defs = dgemm_def dgemv_def dcopy_def dpotrf_def potf2_pivot_def potf2_column_def
  dtrtrs_def dtrsm_L_def dnrm2_def dsq_def daxpy_def dger_def dtrmv_def dpotrs_def


section \<open>Facts about the factorization and the triangular solves\<close>

lemma pd_pivot:
  assumes "pd_from j p M" "j < p"
  shows "0 < M j j"
proof -
  define e :: rvec where "e = (\<lambda>i. if i = j then 1 else 0)"
  have "qf j p M e = (\<Sum>i = j..<p. if i = j then M j j else 0)"
    unfolding qf_def
  proof (rule sum.cong[OF refl])
    fix i assume "i \<in> {j..<p}"
    have "(\<Sum>k = j..<p. e i * M i k * e k) = (\<Sum>k = j..<p. if k = j then e i * M i j else 0)"
      by (rule sum.cong) (auto simp: e_def)
    also have "\<dots> = e i * M i j" using assms(2) by simp
    finally show "(\<Sum>k = j..<p. e i * M i k * e k) = (if i = j then M j j else 0)"
      by (simp add: e_def)
  qed
  also have "\<dots> = M j j" using assms(2) by simp
  finally have "qf j p M e = M j j" .
  moreover have "0 < qf j p M e"
    using assms by (auto simp: pd_from_def e_def intro!: bexI[of _ j])
  ultimately show ?thesis by simp
qed

lemma qf_split:
  assumes "j < p" "\<And>i k. i \<in> {j..<p} \<Longrightarrow> k \<in> {j..<p} \<Longrightarrow> M i k = M k i"
  shows "qf j p M x = x j * M j j * x j + 2 * x j * (\<Sum>i = Suc j..<p. M i j * x i) + qf (Suc j) p M x"
proof -
  have split: "{j..<p} = insert j {Suc j..<p}" using assms(1) by auto
  have fin: "j \<notin> {Suc j..<p}" by simp
  have row: "(\<Sum>k = j..<p. x i * M i k * x k) = x i * M i j * x j + (\<Sum>k = Suc j..<p. x i * M i k * x k)" for i
    unfolding split by (simp add: sum.insert[OF _ fin])
  have "qf j p M x = (\<Sum>i = j..<p. x i * M i j * x j + (\<Sum>k = Suc j..<p. x i * M i k * x k))"
    unfolding qf_def by (simp add: row)
  also have "\<dots> = (x j * M j j * x j + (\<Sum>k = Suc j..<p. x j * M j k * x k))
                 + (\<Sum>i = Suc j..<p. x i * M i j * x j + (\<Sum>k = Suc j..<p. x i * M i k * x k))"
    unfolding split by (simp add: sum.insert[OF _ fin])
  also have "(\<Sum>i = Suc j..<p. x i * M i j * x j + (\<Sum>k = Suc j..<p. x i * M i k * x k))
           = (\<Sum>i = Suc j..<p. x i * M i j * x j) + qf (Suc j) p M x"
    by (simp add: sum.distrib qf_def)
  also have "(\<Sum>k = Suc j..<p. x j * M j k * x k) = x j * (\<Sum>i = Suc j..<p. M i j * x i)"
  proof -
    have "(\<Sum>k = Suc j..<p. x j * M j k * x k) = (\<Sum>k = Suc j..<p. x j * (M k j * x k))"
      by (rule sum.cong) (use assms in \<open>auto simp: mult.assoc\<close>)
    then show ?thesis by (simp add: sum_distrib_left)
  qed
  also have "(\<Sum>i = Suc j..<p. x i * M i j * x j) = x j * (\<Sum>i = Suc j..<p. M i j * x i)"
    by (simp add: sum_distrib_left mult_ac)
  finally show ?thesis by (simp add: algebra_simps)
qed

lemma schur_step:
  assumes pd: "pd_from j p M" and j: "j < p"
  shows "pd_from (Suc j) p (\<lambda>i k. M i k - M i j * M k j / M j j)"
proof -
  let ?M' = "\<lambda>i k. M i k - M i j * M k j / M j j"
  from pd have sym: "\<And>i k. i \<in> {j..<p} \<Longrightarrow> k \<in> {j..<p} \<Longrightarrow> M i k = M k i"
    by (auto simp: pd_from_def)
  have d: "0 < M j j" by (rule pd_pivot[OF pd j])
  have sym': "\<forall>i\<in>{Suc j..<p}. \<forall>k\<in>{Suc j..<p}. ?M' i k = ?M' k i"
    using sym by (auto simp: mult.commute)
  have pos: "0 < qf (Suc j) p ?M' y" if y: "\<exists>i\<in>{Suc j..<p}. y i \<noteq> 0" for y
  proof -
    define c where "c = (\<Sum>i = Suc j..<p. M i j * y i) / M j j"
    define x where "x = (\<lambda>i. if i = j then - c else y i)"
    have xs: "\<And>i. i \<in> {Suc j..<p} \<Longrightarrow> x i = y i" by (auto simp: x_def)
    have nz: "\<exists>i\<in>{j..<p}. x i \<noteq> 0"
    proof -
      from y obtain i where "i \<in> {Suc j..<p}" "y i \<noteq> 0" by blast
      then show ?thesis by (intro bexI[of _ i]) (auto simp: x_def)
    qed
    have q1: "qf (Suc j) p M x = qf (Suc j) p M y"
      unfolding qf_def by (intro sum.cong refl) (simp add: xs)
    have s1: "(\<Sum>i = Suc j..<p. M i j * x i) = c * M j j"
    proof -
      have "(\<Sum>i = Suc j..<p. M i j * x i) = (\<Sum>i = Suc j..<p. M i j * y i)"
        by (intro sum.cong refl) (simp add: xs)
      then show ?thesis using d by (simp add: c_def)
    qed
    have "qf j p M x = c * M j j * c - 2 * c * (c * M j j) + qf (Suc j) p M y"
      using qf_split[OF j sym, where x=x] s1 q1 by (simp add: x_def)
    then have e1: "qf j p M x = qf (Suc j) p M y - c * c * M j j" by (simp add: algebra_simps)
    have "qf (Suc j) p ?M' y
        = qf (Suc j) p M y - (\<Sum>i = Suc j..<p. \<Sum>k = Suc j..<p. (y i * M i j) * (M k j * y k)) / M j j"
      unfolding qf_def
      by (simp add: algebra_simps sum_subtractf sum_divide_distrib diff_divide_distrib)
    also have "(\<Sum>i = Suc j..<p. \<Sum>k = Suc j..<p. (y i * M i j) * (M k j * y k))
             = (\<Sum>i = Suc j..<p. M i j * y i) * (\<Sum>k = Suc j..<p. M k j * y k)"
      by (simp add: sum_product mult.commute)
    also have "\<dots> / M j j = c * c * M j j" using d by (simp add: c_def)
    finally have "qf (Suc j) p ?M' y = qf j p M x" using e1 by simp
    moreover have "0 < qf j p M x" using pd nz by (auto simp: pd_from_def)
    ultimately show ?thesis by simp
  qed
  show ?thesis unfolding pd_from_def using sym' pos by blast
qed

lemma idx_inj: "i < p \<Longrightarrow> j < p \<Longrightarrow> (i + k * p = j + l * p) \<longleftrightarrow> (i = j \<and> k = (l::nat))"
proof
  assume a: "i < p" "j < p" and e: "i + k * p = j + l * p"
  from e have "(i + k * p) mod p = (j + l * p) mod p" "(i + k * p) div p = (j + l * p) div p" by simp_all
  with a show "i = j \<and> k = l" by simp
qed auto

lemma pd_from_cong:
  assumes "\<And>i k. i \<in> {j..<p} \<Longrightarrow> k \<in> {j..<p} \<Longrightarrow> M i k = M' i k"
  shows "pd_from j p M = pd_from j p M'"
proof -
  have "qf j p M x = qf j p M' x" for x
    unfolding qf_def by (intro sum.cong refl) (simp add: assms)
  then show ?thesis using assms by (simp add: pd_from_def)
qed

lemma sum_le_Suc: "(\<Sum>l\<le>j. f l) = (\<Sum>l<j. f l) + (f (j::nat) :: real)"
  by (metis lessThan_Suc_atMost sum.lessThan_Suc)

lemma potf2_step:
  assumes st: "chol_state j p S L a" and j: "j < p"
  shows "\<exists>L'. potf2_pivot j a p = Fin (S j j - (\<Sum>l<j. L j l * L j l))
           \<and> 0 < S j j - (\<Sum>l<j. L j l * L j l)
           \<and> chol_state (Suc j) p S L' (potf2_column j p a p (Fin (sqrt (S j j - (\<Sum>l<j. L j l * L j l)))))"
proof -
  let ?M = "\<lambda>i i'. S i i' - (\<Sum>l<j. L i l * L i' l)"
  from st have buf: "\<And>i k. i < p \<Longrightarrow> k < p \<Longrightarrow> a (i + k * p) = Fin (if k < j \<and> k \<le> i then L i k else S i k)"
    and dg: "\<And>k. k < j \<Longrightarrow> 0 < L k k"
    and eqs: "\<And>k i. k < j \<Longrightarrow> i < p \<Longrightarrow> k \<le> i \<Longrightarrow> (\<Sum>l\<le>k. L i l * L k l) = S i k"
    and pd: "pd_from j p ?M"
    by (auto simp: chol_state_def)
  define d where "d = ?M j j"
  have d: "0 < d" unfolding d_def by (rule pd_pivot[OF pd j])
  have low: "a (i + l * p) = Fin (L i l)" if "i < p" "l < j" "j \<le> i" for i l
    using buf[of i l] that j by simp
  have rowsum: "dsum (\<lambda>l. a (i + l * p) * a (j + l * p)) j = Fin (\<Sum>l<j. L i l * L j l)" if "i < p" "j \<le> i" for i
    by (rule dsum_Fin) (use low that j in simp)
  have piv: "potf2_pivot j a p = Fin d"
    unfolding potf2_pivot_def d_def using rowsum[of j] buf[of j j] j by simp
  define r where "r = sqrt d"
  have r: "0 < r" "r * r = d" using d by (simp_all add: r_def)
  define a' where "a' = potf2_column j p a p (Fin r)"
  define L' where "L' = (\<lambda>i k. if k = j then (if i = j then r else ?M i j / r) else L i k)"
  have col: "a' (i + k * p) = Fin (if k < Suc j \<and> k \<le> i then L' i k else S i k)" if "i < p" "k < p" for i k
  proof -
    consider "i = j \<and> k = j" | "k = j \<and> j < i" | "k \<noteq> j \<or> i < j" "\<not> (i = j \<and> k = j)" by linarith
    then show ?thesis
    proof cases
      case 1
      then show ?thesis by (simp add: a'_def potf2_column_def L'_def)
    next
      case 2
      then have ne: "i + k * p \<noteq> j + j * p" using idx_inj[of i p j k j] that j by simp
      have "a' (i + k * p) = (a (i + j * p) - dsum (\<lambda>l. a (i + l * p) * a (j + l * p)) j) * (1 / Fin r)"
        using 2 ne that by (simp add: a'_def potf2_column_def)
      also have "\<dots> = Fin (?M i j / r)"
        using rowsum[of i] buf[of i j] 2 that j r by simp
      finally show ?thesis using 2 by (simp add: L'_def)
    next
      case 3
      then have ne: "i + k * p \<noteq> j + j * p" using idx_inj[of i p j k j] that j by auto
      have "a' (i + k * p) = a (i + k * p)"
        using 3 ne that by (auto simp: a'_def potf2_column_def)
      then show ?thesis using 3 buf[OF that] by (auto simp: L'_def)
    qed
  qed
  have dg': "0 < L' k k" if "k < Suc j" for k
    using that dg r by (cases "k = j") (auto simp: L'_def)
  have old: "L' i l = L i l" if "l < j" for i l using that by (simp add: L'_def)
  have eqs': "(\<Sum>l\<le>k. L' i l * L' k l) = S i k" if "k < Suc j" "i < p" "k \<le> i" for k i
  proof (cases "k = j")
    case False
    then have kj: "k < j" using that by simp
    have "(\<Sum>l\<le>k. L' i l * L' k l) = (\<Sum>l\<le>k. L i l * L k l)"
      by (intro sum.cong refl) (use kj old in auto)
    then show ?thesis using eqs[OF kj that(2,3)] by simp
  next
    case True
    have "(\<Sum>l\<le>j. L' i l * L' j l) = (\<Sum>l<j. L' i l * L' j l) + L' i j * L' j j"
      by (rule sum_le_Suc)
    also have "(\<Sum>l<j. L' i l * L' j l) = (\<Sum>l<j. L i l * L j l)"
      by (intro sum.cong refl) (use old in auto)
    also have "L' i j * L' j j = ?M i j"
      using r d by (cases "i = j") (auto simp: L'_def d_def)
    finally show ?thesis using True by simp
  qed
  have pd': "pd_from (Suc j) p (\<lambda>i i'. S i i' - (\<Sum>l<Suc j. L' i l * L' i' l))"
  proof -
    have "pd_from (Suc j) p (\<lambda>i k. ?M i k - ?M i j * ?M k j / ?M j j)"
      by (rule schur_step[OF pd j])
    moreover have "S i i' - (\<Sum>l<Suc j. L' i l * L' i' l) = ?M i i' - ?M i j * ?M i' j / ?M j j"
      if "i \<in> {Suc j..<p}" "i' \<in> {Suc j..<p}" for i i'
    proof -
      have "(\<Sum>l<Suc j. L' i l * L' i' l) = (\<Sum>l<j. L i l * L i' l) + L' i j * L' i' j"
        using old by simp
      moreover have "L' i j * L' i' j = ?M i j * ?M i' j / d"
        using that r by (auto simp: L'_def)
      ultimately show ?thesis by (simp add: d_def)
    qed
    ultimately show ?thesis using pd_from_cong[of "Suc j" p] by (metis (no_types, lifting))
  qed
  have "chol_state (Suc j) p S L' a'"
    unfolding chol_state_def using col dg' eqs' pd' by blast
  then show ?thesis using piv d by (auto simp: a'_def r_def d_def)
qed

lemma potf2_pd:
  assumes a0: "\<forall>i<p. \<forall>k<p. a0 (i + k * p) = Fin (S i k)" and pd: "pd_from 0 p S" and j: "j \<le> p"
  shows "\<exists>L. snd (potf2 j p a0 p) = 0 \<and> chol_state j p S L (fst (potf2 j p a0 p))"
  using j
proof (induction j)
  case 0
  then show ?case using a0 pd by (simp add: chol_state_def)
next
  case (Suc j)
  then obtain L where i0: "snd (potf2 j p a0 p) = 0" and st: "chol_state j p S L (fst (potf2 j p a0 p))"
    and j: "j < p" by auto
  obtain a where a: "potf2 j p a0 p = (a, 0)" using i0 by (cases "potf2 j p a0 p") auto
  from potf2_step[OF st j] a obtain L' where
    piv: "potf2_pivot j a p = Fin (S j j - (\<Sum>l<j. L j l * L j l))"
    and pos: "0 < S j j - (\<Sum>l<j. L j l * L j l)"
    and st': "chol_state (Suc j) p S L' (potf2_column j p a p (Fin (sqrt (S j j - (\<Sum>l<j. L j l * L j l)))))"
    by auto
  show ?case
    using a piv pos st' by (intro exI[of _ L']) (simp add: Let_def)
qed

lemma trsv_LN_solves:
  assumes a: "\<And>i k. i < n \<Longrightarrow> k \<le> i \<Longrightarrow> a (i + k * n) = Fin (L i k)"
    and dg: "\<And>i. i < n \<Longrightarrow> L i i \<noteq> 0"
    and b: "\<And>i. i < n \<Longrightarrow> b (off + i) = Fin (bv i)"
    and i: "i \<le> n"
  shows "\<exists>x. (\<forall>i'<n. trsv_LN i a n off b (off + i') = Fin (if i' < i then x i' else bv i')) \<and>
             (\<forall>i'<i. (\<Sum>k\<le>i'. L i' k * x k) = bv i') \<and>
             (\<forall>z. z < off \<or> off + n \<le> z \<longrightarrow> trsv_LN i a n off b z = b z)"
  using i
proof (induction i)
  case 0
  then show ?case using b by simp
next
  case (Suc i)
  then obtain x where
    v: "\<And>i'. i' < n \<Longrightarrow> trsv_LN i a n off b (off + i') = Fin (if i' < i then x i' else bv i')"
    and e: "\<And>i'. i' < i \<Longrightarrow> (\<Sum>k\<le>i'. L i' k * x k) = bv i'"
    and f: "\<And>z. z < off \<or> off + n \<le> z \<Longrightarrow> trsv_LN i a n off b z = b z"
    and i: "i < n" by auto
  let ?t = "trsv_LN i a n off b"
  define xi where "xi = (bv i - (\<Sum>k<i. L i k * x k)) / L i i"
  define x' where "x' = x(i := xi)"
  have s: "dsum (\<lambda>k. a (i + k * n) * ?t (off + k)) i = Fin (\<Sum>k<i. L i k * x k)"
    by (rule dsum_Fin) (use a[OF i] v i in simp)
  have new: "(?t (off + i) - dsum (\<lambda>k. a (i + k * n) * ?t (off + k)) i) / a (i + i * n) = Fin xi"
    using s v[OF i] a[OF i, of i] dg[OF i] by (simp add: xi_def)
  have S: "trsv_LN (Suc i) a n off b = ?t(off + i := Fin xi)"
    using new by (simp add: Let_def)
  have 1: "\<forall>i'<n. trsv_LN (Suc i) a n off b (off + i') = Fin (if i' < Suc i then x' i' else bv i')"
    using v by (auto simp: S x'_def simp del: trsv_LN.simps)
  have 2: "\<forall>i'<Suc i. (\<Sum>k\<le>i'. L i' k * x' k) = bv i'"
  proof (intro allI impI)
    fix i' assume "i' < Suc i"
    show "(\<Sum>k\<le>i'. L i' k * x' k) = bv i'"
    proof (cases "i' = i")
      case True
      have "(\<Sum>k\<le>i. L i k * x' k) = (\<Sum>k<i. L i k * x' k) + L i i * x' i" by (rule sum_le_Suc)
      also have "(\<Sum>k<i. L i k * x' k) = (\<Sum>k<i. L i k * x k)"
        by (intro sum.cong refl) (simp add: x'_def)
      finally show ?thesis using True dg[OF i] by (simp add: x'_def xi_def)
    next
      case False
      then have l: "i' < i" using \<open>i' < Suc i\<close> by simp
      have "(\<Sum>k\<le>i'. L i' k * x' k) = (\<Sum>k\<le>i'. L i' k * x k)"
        by (intro sum.cong refl) (use l in \<open>auto simp: x'_def\<close>)
      then show ?thesis using e[OF l] by simp
    qed
  qed
  have 3: "\<forall>z. z < off \<or> off + n \<le> z \<longrightarrow> trsv_LN (Suc i) a n off b z = b z"
    using f i by (auto simp: S simp del: trsv_LN.simps)
  from 1 2 3 show ?case by blast
qed

lemma sum_shift: "(\<Sum>k<m. f (i + 1 + k)) = (\<Sum>k = Suc i..<Suc i + m. (f k :: real))"
proof -
  have "(\<Sum>k = Suc i..<Suc i + m. f k) = (\<Sum>k = 0 + Suc i..<m + Suc i. f k)" by (simp add: add.commute)
  also have "\<dots> = (\<Sum>k = 0..<m. f (k + Suc i))" by (rule sum.shift_bounds_nat_ivl)
  also have "\<dots> = (\<Sum>k<m. f (i + 1 + k))" by (simp add: lessThan_atLeast0 add.commute)
  finally show ?thesis by simp
qed

lemma trsv_LT_solves:
  assumes a: "\<And>i k. i < n \<Longrightarrow> k \<le> i \<Longrightarrow> a (i + k * n) = Fin (L i k)"
    and dg: "\<And>i. i < n \<Longrightarrow> L i i \<noteq> 0"
    and b: "\<And>i. i < n \<Longrightarrow> b (off + i) = Fin (bv i)"
    and m: "m \<le> n"
  shows "\<exists>x. (\<forall>i'<n. trsv_LT m n a n off b (off + i') = Fin (if n - m \<le> i' then x i' else bv i')) \<and>
             (\<forall>i'<n. n - m \<le> i' \<longrightarrow> (\<Sum>k = i'..<n. L k i' * x k) = bv i') \<and>
             (\<forall>z. z < off \<or> off + n \<le> z \<longrightarrow> trsv_LT m n a n off b z = b z)"
  using m
proof (induction m)
  case 0
  then show ?case using b by simp
next
  case (Suc m)
  then obtain x where
    v: "\<And>i'. i' < n \<Longrightarrow> trsv_LT m n a n off b (off + i') = Fin (if n - m \<le> i' then x i' else bv i')"
    and e: "\<And>i'. i' < n \<Longrightarrow> n - m \<le> i' \<Longrightarrow> (\<Sum>k = i'..<n. L k i' * x k) = bv i'"
    and f: "\<And>z. z < off \<or> off + n \<le> z \<Longrightarrow> trsv_LT m n a n off b z = b z"
    and m: "m < n" by auto
  let ?t = "trsv_LT m n a n off b"
  define i where "i = n - Suc m"
  have i: "i < n" "Suc i + m = n" "n - m = Suc i" using m by (auto simp: i_def)
  define xi where "xi = (bv i - (\<Sum>k = Suc i..<n. L k i * x k)) / L i i"
  define x' where "x' = x(i := xi)"
  have "dsum (\<lambda>k. a (i + 1 + k + i * n) * ?t (off + i + 1 + k)) m = Fin (\<Sum>k<m. L (i + 1 + k) i * x (i + 1 + k))"
  proof (rule dsum_Fin)
    fix l assume l: "l < m"
    then have "i + 1 + l < n" using i by simp
    then show "a (i + 1 + l + i * n) * ?t (off + i + 1 + l) = Fin (L (i + 1 + l) i * x (i + 1 + l))"
      using a[of "i + 1 + l" i] v[of "i + 1 + l"] i by (simp add: add.assoc)
  qed
  also have "(\<Sum>k<m. L (i + 1 + k) i * x (i + 1 + k)) = (\<Sum>k = Suc i..<Suc i + m. L k i * x k)"
    by (rule sum_shift[of "\<lambda>k. L k i * x k" i m])
  also have "\<dots> = (\<Sum>k = Suc i..<n. L k i * x k)"
    by (simp only: i(2))
  finally have s: "dsum (\<lambda>k. a (i + 1 + k + i * n) * ?t (off + i + 1 + k)) m = Fin (\<Sum>k = Suc i..<n. L k i * x k)" .
  have new: "(?t (off + i) - dsum (\<lambda>k. a (i + 1 + k + i * n) * ?t (off + i + 1 + k)) m) / a (i + i * n) = Fin xi"
    using s v[OF i(1)] a[OF i(1), of i] dg[OF i(1)] i by (simp add: xi_def)
  have S: "trsv_LT (Suc m) n a n off b = ?t(off + i := Fin xi)"
    using new by (simp add: Let_def i_def)
  have 1: "\<forall>i'<n. trsv_LT (Suc m) n a n off b (off + i') = Fin (if n - Suc m \<le> i' then x' i' else bv i')"
    using v i by (auto simp: S x'_def i_def simp del: trsv_LT.simps)
  have 2: "\<forall>i'<n. n - Suc m \<le> i' \<longrightarrow> (\<Sum>k = i'..<n. L k i' * x' k) = bv i'"
  proof (intro allI impI)
    fix i' assume i': "i' < n" "n - Suc m \<le> i'"
    show "(\<Sum>k = i'..<n. L k i' * x' k) = bv i'"
    proof (cases "i' = i")
      case True
      have "{i..<n} = insert i {Suc i..<n}" using i by auto
      then have "(\<Sum>k = i..<n. L k i * x' k) = L i i * x' i + (\<Sum>k = Suc i..<n. L k i * x' k)"
        by simp
      also have "(\<Sum>k = Suc i..<n. L k i * x' k) = (\<Sum>k = Suc i..<n. L k i * x k)"
        by (intro sum.cong refl) (simp add: x'_def)
      finally show ?thesis using True dg[OF i(1)] by (simp add: x'_def xi_def)
    next
      case False
      then have l: "n - m \<le> i'" using i' i by (simp add: i_def)
      have "(\<Sum>k = i'..<n. L k i' * x' k) = (\<Sum>k = i'..<n. L k i' * x k)"
        by (intro sum.cong refl) (use l i in \<open>auto simp: x'_def\<close>)
      then show ?thesis using e[OF i'(1) l] by simp
    qed
  qed
  have 3: "\<forall>z. z < off \<or> off + n \<le> z \<longrightarrow> trsv_LT (Suc m) n a n off b z = b z"
    using f i by (auto simp: S simp del: trsv_LT.simps)
  from 1 2 3 show ?case by blast
qed

lemma sum_low:
  assumes "i < p"
  shows "(\<Sum>k<p. lowpart L i k * f k) = (\<Sum>k\<le>i. L i k * f k)"
proof -
  have "(\<Sum>k<p. lowpart L i k * f k) = (\<Sum>k\<in>{..<p}. if k \<in> {..i} then L i k * f k else 0)"
    by (intro sum.cong refl) (simp add: lowpart_def)
  also have "\<dots> = (\<Sum>k\<in>{..<p} \<inter> {..i}. L i k * f k)"
    by (simp add: sum.inter_restrict)
  also have "{..<p} \<inter> {..i} = {..i}" using assms by auto
  finally show ?thesis .
qed

lemma sum_low_T:
  assumes "i < p"
  shows "(\<Sum>k<p. lowpart L k i * f k) = (\<Sum>k = i..<p. L k i * f k)"
proof -
  have "(\<Sum>k<p. lowpart L k i * f k) = (\<Sum>k\<in>{..<p}. if k \<in> {i..<p} then L k i * f k else 0)"
    by (intro sum.cong refl) (simp add: lowpart_def)
  also have "\<dots> = (\<Sum>k\<in>{..<p} \<inter> {i..<p}. L k i * f k)"
    by (simp add: sum.inter_restrict)
  also have "{..<p} \<inter> {i..<p} = {i..<p}" by auto
  finally show ?thesis .
qed

lemma chol_full:
  fixes S :: rmat
  assumes eqs: "\<And>k i. k < p \<Longrightarrow> i < p \<Longrightarrow> k \<le> i \<Longrightarrow> (\<Sum>l\<le>k. L i l * L k l) = S i k"
    and sym: "\<And>i k. i < p \<Longrightarrow> k < p \<Longrightarrow> S i k = S k i"
    and i: "i < p" and j: "j < p"
  shows "(\<Sum>l<p. lowpart L i l * lowpart L j l) = S i j"
proof -
  have main: "(\<Sum>l<p. lowpart L i l * lowpart L k l) = S i k" if "k \<le> i" "i < p" for i k
  proof -
    have k: "k < p" using that by simp
    have "(\<Sum>l<p. lowpart L i l * lowpart L k l) = (\<Sum>l<p. lowpart L k l * lowpart L i l)"
      by (simp add: mult.commute)
    also have "\<dots> = (\<Sum>l\<le>k. L k l * lowpart L i l)" by (rule sum_low[OF k])
    also have "\<dots> = (\<Sum>l\<le>k. L i l * L k l)"
      by (intro sum.cong refl) (use that in \<open>auto simp: lowpart_def\<close>)
    finally show ?thesis using eqs[OF k that(2,1)] by simp
  qed
  show ?thesis
  proof (cases "j \<le> i")
    case True
    then show ?thesis using main i by simp
  next
    case False
    then have "(\<Sum>l<p. lowpart L j l * lowpart L i l) = S j i" using main[of i j] j by simp
    then show ?thesis using sym[OF i j] by (simp add: mult.commute)
  qed
qed

lemma solve_twice:
  fixes S :: rmat
  assumes LLT: "\<And>i j. i < p \<Longrightarrow> j < p \<Longrightarrow> (\<Sum>l<p. Lz i l * Lz j l) = S i j"
    and fwd: "\<And>i. i < p \<Longrightarrow> (\<Sum>k<p. Lz i k * z k) = r i"
    and bwd: "\<And>i. i < p \<Longrightarrow> (\<Sum>k<p. Lz k i * w k) = z i"
    and i: "i < p"
  shows "(\<Sum>j<p. S i j * w j) = (r i :: real)"
proof -
  have "(\<Sum>j<p. S i j * w j) = (\<Sum>j<p. (\<Sum>l<p. Lz i l * Lz j l) * w j)"
    by (intro sum.cong refl) (simp add: LLT[OF i])
  also have "\<dots> = (\<Sum>j<p. \<Sum>l<p. Lz i l * (Lz j l * w j))"
    by (simp add: sum_distrib_right mult.assoc)
  also have "\<dots> = (\<Sum>l<p. \<Sum>j<p. Lz i l * (Lz j l * w j))" by (rule sum.swap)
  also have "\<dots> = (\<Sum>l<p. Lz i l * (\<Sum>j<p. Lz j l * w j))" by (simp add: sum_distrib_left)
  also have "\<dots> = (\<Sum>l<p. Lz i l * z l)" by (intro sum.cong refl) (simp add: bwd)
  finally show ?thesis using fwd[OF i] by simp
qed

lemma pd_injective:
  assumes pd: "pd_from 0 p S" and z: "\<And>i. i < p \<Longrightarrow> (\<Sum>j<p. S i j * x j) = 0" and i: "i < p"
  shows "x i = 0"
proof (rule ccontr)
  assume "x i \<noteq> 0"
  then have "\<exists>i\<in>{0..<p}. x i \<noteq> 0" using i by auto
  moreover from pd have "(\<exists>i\<in>{0..<p}. x i \<noteq> 0) \<longrightarrow> 0 < qf 0 p S x" by (simp add: pd_from_def)
  ultimately have "0 < qf 0 p S x" by blast
  moreover have "qf 0 p S x = (\<Sum>i<p. x i * (\<Sum>j<p. S i j * x j))"
    unfolding qf_def by (simp add: sum_distrib_left mult.assoc lessThan_atLeast0)
  moreover have "\<dots> = 0" by (intro sum.neutral) (simp add: z)
  ultimately show False by simp
qed

lemma pd_unique:
  fixes S :: rmat
  assumes pd: "pd_from 0 p S"
    and a: "\<And>i. i < p \<Longrightarrow> (\<Sum>j<p. S i j * x j) = r i"
    and b: "\<And>i. i < p \<Longrightarrow> (\<Sum>j<p. S i j * y j) = r i"
    and i: "i < p"
  shows "x i = y i"
proof -
  have "(\<Sum>j<p. S k j * (x j - y j)) = 0" if "k < p" for k
    using a[OF that] b[OF that] by (simp add: right_diff_distrib sum_subtractf)
  from pd_injective[OF pd this i] show ?thesis by simp
qed

lemma lower_injective:
  fixes L :: rmat
  assumes dg: "\<And>i. i < p \<Longrightarrow> L i i \<noteq> 0"
    and z: "\<And>i. i < p \<Longrightarrow> (\<Sum>k\<le>i. L i k * x k) = 0"
    and i: "i < p"
  shows "x i = 0"
  using i
proof (induction i rule: less_induct)
  case (less i)
  have "(\<Sum>k\<le>i. L i k * x k) = (\<Sum>k<i. L i k * x k) + L i i * x i" by (rule sum_le_Suc)
  also have "(\<Sum>k<i. L i k * x k) = 0"
    by (intro sum.neutral) (use less in auto)
  finally show ?case using z[OF less.prems] dg[OF less.prems] by simp
qed

lemma right_inverse_apply:
  fixes S :: rmat
  assumes inv: "\<And>i j. i < p \<Longrightarrow> j < p \<Longrightarrow> (\<Sum>k<p. S i k * Si k j) = (if i = j then 1 else 0)"
    and i: "i < p"
  shows "(\<Sum>j<p. S i j * (\<Sum>k<p. Si j k * r k)) = (r i :: real)"
proof -
  have "(\<Sum>j<p. S i j * (\<Sum>k<p. Si j k * r k)) = (\<Sum>j<p. \<Sum>k<p. (S i j * Si j k) * r k)"
    by (simp add: sum_distrib_left mult.assoc)
  also have "\<dots> = (\<Sum>k<p. \<Sum>j<p. (S i j * Si j k) * r k)" by (rule sum.swap)
  also have "\<dots> = (\<Sum>k<p. (\<Sum>j<p. S i j * Si j k) * r k)" by (simp add: sum_distrib_right)
  also have "\<dots> = (\<Sum>k<p. (if i = k then 1 else 0) * r k)"
    by (intro sum.cong refl) (simp add: inv[OF i])
  also have "\<dots> = (\<Sum>k<p. if i = k then r k else 0)"
    by (intro sum.cong refl) simp
  also have "\<dots> = r i" using i by (simp add: sum.delta')
  finally show ?thesis .
qed

lemma holds_vecD: "holds_vec n v x \<Longrightarrow> i < n \<Longrightarrow> v i = Fin (x i)"
  by (simp add: holds_vec_def)

lemma holds_rmD: "holds_rm r c v M \<Longrightarrow> i < r \<Longrightarrow> j < c \<Longrightarrow> v (i * c + j) = Fin (M i j)"
  by (simp add: holds_rm_def)

lemma holds_rmD': "holds_rm r c v M \<Longrightarrow> i < r \<Longrightarrow> j < c \<Longrightarrow> v (j + i * c) = Fin (M i j)"
  by (simp add: holds_rm_def add.commute)

lemma holds_cmD: "holds_cm r c v M \<Longrightarrow> i < r \<Longrightarrow> j < c \<Longrightarrow> v (i + j * r) = Fin (M i j)"
  by (simp add: holds_cm_def)

lemma holds_vec_restrict [simp]: "holds_vec n (restrict n v) x = holds_vec n v x"
  by (simp add: holds_vec_def restrict_def)

lemma holds_rm_restrict [simp]:
  "holds_rm r c (restrict (r * c) v) M = holds_rm r c v M"
  "holds_rm r c (restrict (c * r) v) M = holds_rm r c v M"
proof -
  have "i * c + j < r * c" if "i < r" "j < c" for i j
    using idx_lt[of j c i r] that by (simp add: add.commute mult.commute)
  then show "holds_rm r c (restrict (r * c) v) M = holds_rm r c v M"
    "holds_rm r c (restrict (c * r) v) M = holds_rm r c v M"
    by (auto simp: holds_rm_def restrict_def mult.commute)
qed

lemma dgemm_at:
  assumes "i < m" "j < n"
  shows "dgemm ta tb m n k alpha a lda b ldb beta c m (i + j * m)
       = (if beta = Fin 0 then alpha * dsum (\<lambda>l. opm ta a lda i l * opm tb b ldb l j) k
          else alpha * dsum (\<lambda>l. opm ta a lda i l * opm tb b ldb l j) k + beta * c (i + j * m))"
  using assms by (simp add: dgemm_def Let_def)

lemma mul_Fin1 [simp]: "Fin 1 * x = x" "x * Fin 1 = x"
  by (cases x; simp)+

lemma cond_tpn_holds:
  assumes C: "holds_rm p n vC Cm" and S: "holds_rm n n vsx Sg"
  shows "holds_cm p n (cond_tpn p n vC vsx) (\<lambda>i j. \<Sum>l<n. Cm i l * Sg j l)"
  unfolding holds_cm_def cond_tpn_def
proof (intro allI impI)
  fix i j assume i: "i < p" and j: "j < n"
  have "dsum (\<lambda>l. opm Trans vC n i l * opm NoTrans vsx n l j) n = Fin (\<Sum>l<n. Cm i l * Sg j l)"
    by (rule dsum_Fin) (simp add: holds_rmD'[OF C i] holds_rmD'[OF S j])
  then show "dgemm Trans NoTrans p n n (Fin 1) vC n vsx n (Fin 0) blank p (i + j * p) = Fin (\<Sum>l<n. Cm i l * Sg j l)"
    by (simp add: dgemm_at[OF i j])
qed

lemma cond_S_holds:
  assumes C: "holds_rm p n vC Cm" and S: "holds_rm n n vsx Sg" and R: "holds_rm p p vR Rm"
  shows "holds_cm p p (cond_S p n vC vsx vR) (\<lambda>i j. (\<Sum>l<n. (\<Sum>m<n. Cm i m * Sg l m) * Cm j l) + Rm j i)"
  unfolding holds_cm_def cond_S_def
proof (intro allI impI)
  fix i j assume i: "i < p" and j: "j < p"
  note T = holds_cmD[OF cond_tpn_holds[OF C S] i]
  have "dsum (\<lambda>l. opm NoTrans (cond_tpn p n vC vsx) p i l * opm NoTrans vC n l j) n
      = Fin (\<Sum>l<n. (\<Sum>m<n. Cm i m * Sg l m) * Cm j l)"
    by (rule dsum_Fin) (simp add: T holds_rmD'[OF C j])
  moreover have "dcopy (p * p) vR blank (i + j * p) = Fin (Rm j i)"
    using holds_rmD'[OF R j i] idx_lt[OF i j] by (simp add: dcopy_def)
  ultimately show "dgemm NoTrans NoTrans p p n (Fin 1) (cond_tpn p n vC vsx) p vC n (Fin 1)
      (dcopy (p * p) vR blank) p (i + j * p) = Fin ((\<Sum>l<n. (\<Sum>m<n. Cm i m * Sg l m) * Cm j l) + Rm j i)"
    by (simp add: dgemm_at[OF i j])
qed

lemma innov_cov_code:
  assumes "symmetric n Sg" "symmetric p Rm" "i < p" "j < p"
  shows "(\<Sum>l<n. (\<Sum>m<n. Cm i m * Sg l m) * Cm j l) + Rm j i = innov_cov n Cm Sg Rm i j"
proof -
  have "(\<Sum>l<n. (\<Sum>m<n. Cm i m * Sg l m) * Cm j l) = (\<Sum>l<n. \<Sum>m<n. Cm i m * Sg m l * Cm j l)"
    by (intro sum.cong refl) (use assms(1) in \<open>simp add: sum_distrib_right symmetric_def\<close>)
  also have "\<dots> = (\<Sum>m<n. \<Sum>l<n. Cm i m * Sg m l * Cm j l)" by (rule sum.swap)
  finally show ?thesis using assms by (simp add: innov_cov_def symmetric_def)
qed

lemma innov_cov_symmetric:
  assumes "symmetric n Sg" "symmetric p Rm"
  shows "symmetric p (innov_cov n Cm Sg Rm)"
  unfolding symmetric_def innov_cov_def
proof (intro allI impI)
  fix i j assume "i < p" "j < p"
  have "(\<Sum>l<n. \<Sum>m<n. Cm i l * Sg l m * Cm j m) = (\<Sum>l<n. \<Sum>m<n. Cm j m * Sg m l * Cm i l)"
    by (intro sum.cong refl) (use assms(1) in \<open>simp add: symmetric_def mult_ac\<close>)
  also have "\<dots> = (\<Sum>m<n. \<Sum>l<n. Cm j m * Sg m l * Cm i l)" by (rule sum.swap)
  finally show "(\<Sum>l<n. \<Sum>m<n. Cm i l * Sg l m * Cm j m) + Rm i j = (\<Sum>l<n. \<Sum>m<n. Cm j l * Sg l m * Cm i m) + Rm j i"
    using assms(2) \<open>i < p\<close> \<open>j < p\<close> by (simp add: symmetric_def)
qed

lemma dgemv_T_at:
  assumes "i < n"
  shows "dgemv Trans m n alpha a lda x beta y i
       = (if beta = Fin 0 then alpha * dsum (\<lambda>l. a (l + i * lda) * x l) m
          else alpha * dsum (\<lambda>l. a (l + i * lda) * x l) m + beta * y i)"
  using assms by (simp add: dgemv_def Let_def)

lemma lower_holdsD:
  assumes "lower_holds p a L"
  shows "\<And>i k. i < p \<Longrightarrow> k \<le> i \<Longrightarrow> a (i + k * p) = Fin (L i k)" "\<And>i. i < p \<Longrightarrow> 0 < L i i"
    "\<And>i. i < p \<Longrightarrow> L i i \<noteq> 0"
  using assms by (auto simp: lower_holds_def dest: less_imp_neq)

lemma dpotrf_pd:
  assumes a0: "holds_cm p p a0 S" and pd: "pd_from 0 p S"
  shows "\<exists>L. snd (dpotrf p a0 p) = 0 \<and> lower_holds p (fst (dpotrf p a0 p)) L \<and>
             (\<forall>k<p. \<forall>i<p. k \<le> i \<longrightarrow> (\<Sum>l\<le>k. L i l * L k l) = S i k)"
proof -
  from a0 have "\<forall>i<p. \<forall>k<p. a0 (i + k * p) = Fin (S i k)" by (simp add: holds_cm_def)
  from potf2_pd[OF this pd order_refl] obtain L where
    i: "snd (potf2 p p a0 p) = 0" and st: "chol_state p p S L (fst (potf2 p p a0 p))" by blast
  from st have "lower_holds p (fst (dpotrf p a0 p)) L"
    by (auto simp: chol_state_def lower_holds_def dpotrf_def)
  moreover from st have "\<forall>k<p. \<forall>i<p. k \<le> i \<longrightarrow> (\<Sum>l\<le>k. L i l * L k l) = S i k"
    by (simp add: chol_state_def)
  ultimately show ?thesis using i by (auto simp: dpotrf_def)
qed

lemma find_diag_none:
  assumes "lower_holds p a L"
  shows "find (\<lambda>i. deq (a (i + i * p)) (Fin 0)) [0..<p] = None"
  using lower_holdsD(1)[OF assms, of _ "_"] lower_holdsD(3)[OF assms]
  by (simp add: find_None_iff)

lemma dtrtrs_N1:
  assumes L: "lower_holds p a L" and b: "holds_vec p b bv"
  shows "\<exists>x. holds_vec p (fst (dtrtrs NoTrans p 1 a p b p)) x \<and> (\<forall>i<p. (\<Sum>k\<le>i. L i k * x k) = bv i)"
proof -
  from trsv_LN_solves[of p a L b 0 bv p] lower_holdsD[OF L] b
  obtain x where "\<forall>i'<p. trsv_LN p a p 0 b (0 + i') = Fin (if i' < p then x i' else bv i')"
    "\<forall>i'<p. (\<Sum>k\<le>i'. L i' k * x k) = bv i'"
    by (auto simp: holds_vec_def)
  then show ?thesis
    by (intro exI[of _ x]) (simp add: dtrtrs_def find_diag_none[OF L] dtrsm_L_def holds_vec_def)
qed

lemma dtrtrs_T1:
  assumes L: "lower_holds p a L" and b: "holds_vec p b bv"
  shows "\<exists>x. holds_vec p (fst (dtrtrs Trans p 1 a p b p)) x \<and> (\<forall>i<p. (\<Sum>k = i..<p. L k i * x k) = bv i)"
proof -
  from trsv_LT_solves[of p a L b 0 bv p] lower_holdsD[OF L] b
  obtain x where "\<forall>i'<p. trsv_LT p p a p 0 b (0 + i') = Fin (if p - p \<le> i' then x i' else bv i')"
    "\<forall>i'<p. p - p \<le> i' \<longrightarrow> (\<Sum>k = i'..<p. L k i' * x k) = bv i'"
    by (auto simp: holds_vec_def)
  then show ?thesis
    by (intro exI[of _ x]) (simp add: dtrtrs_def find_diag_none[OF L] dtrsm_L_def holds_vec_def)
qed

lemma each_column_LN:
  assumes L: "lower_holds p a L" and b: "holds_cm p n b B" and c: "c \<le> n"
  shows "\<exists>V. (\<forall>j<n. \<forall>i<p. each_column c p (trsv_LN p a p) b (i + j * p) = Fin (if j < c then V i j else B i j)) \<and>
             (\<forall>j<c. \<forall>i<p. (\<Sum>k\<le>i. L i k * V k j) = B i j)"
  using c
proof (induction c)
  case 0
  then show ?case using b by (simp add: holds_cm_def)
next
  case (Suc c)
  then obtain V where
    v: "\<And>j i. j < n \<Longrightarrow> i < p \<Longrightarrow> each_column c p (trsv_LN p a p) b (i + j * p) = Fin (if j < c then V i j else B i j)"
    and e: "\<And>j i. j < c \<Longrightarrow> i < p \<Longrightarrow> (\<Sum>k\<le>i. L i k * V k j) = B i j"
    and c: "c < n" by auto
  let ?b = "each_column c p (trsv_LN p a p) b"
  have bc: "?b (c * p + i) = Fin (B i c)" if "i < p" for i
    using v[OF c that] by (simp add: add.commute)
  have "\<exists>x. (\<forall>i'<p. trsv_LN p a p (c * p) ?b (c * p + i') = Fin (if i' < p then x i' else B i' c)) \<and>
             (\<forall>i'<p. (\<Sum>k\<le>i'. L i' k * x k) = B i' c) \<and>
             (\<forall>z. z < c * p \<or> c * p + p \<le> z \<longrightarrow> trsv_LN p a p (c * p) ?b z = ?b z)"
    by (rule trsv_LN_solves[where L=L and bv="\<lambda>i. B i c"])
       (simp_all add: lower_holdsD[OF L] bc)
  then obtain x where
    x1: "\<And>i'. i' < p \<Longrightarrow> trsv_LN p a p (c * p) ?b (c * p + i') = Fin (x i')"
    and x2: "\<And>i'. i' < p \<Longrightarrow> (\<Sum>k\<le>i'. L i' k * x k) = B i' c"
    and x3: "\<And>z. z < c * p \<or> c * p + p \<le> z \<Longrightarrow> trsv_LN p a p (c * p) ?b z = ?b z"
    by (elim exE conjE) simp
  define V' where "V' = (\<lambda>i j. if j = c then x i else V i j)"
  have 1: "each_column (Suc c) p (trsv_LN p a p) b (i + j * p) = Fin (if j < Suc c then V' i j else B i j)"
    if "j < n" "i < p" for i j
  proof (cases "j = c")
    case True
    then show ?thesis using x1[OF that(2)] by (simp add: V'_def add.commute)
  next
    case False
    have "i + j * p < c * p \<or> c * p + p \<le> i + j * p"
    proof (cases "j < c")
      case True
      then have "Suc j \<le> c" by simp
      then have "Suc j * p \<le> c * p" by (rule mult_le_mono1)
      then show ?thesis using that(2) by simp
    next
      case False
      with \<open>j \<noteq> c\<close> have "Suc c \<le> j" by simp
      then have "Suc c * p \<le> j * p" by (rule mult_le_mono1)
      then show ?thesis by simp
    qed
    from x3[OF this] show ?thesis using v[OF that] False by (auto simp: V'_def)
  qed
  have 2: "(\<Sum>k\<le>i. L i k * V' k j) = B i j" if "j < Suc c" "i < p" for i j
    using that x2 e by (cases "j = c") (auto simp: V'_def)
  from 1 2 show ?case by blast
qed

lemma dtrtrs_Nn:
  assumes L: "lower_holds p a L" and b: "holds_cm p n b B"
  shows "\<exists>V. holds_cm p n (fst (dtrtrs NoTrans p n a p b p)) V \<and> (\<forall>j<n. \<forall>i<p. (\<Sum>k\<le>i. L i k * V k j) = B i j)"
proof -
  from each_column_LN[OF L b order_refl] obtain V where
    "\<forall>j<n. \<forall>i<p. each_column n p (trsv_LN p a p) b (i + j * p) = Fin (if j < n then V i j else B i j)"
    "\<forall>j<n. \<forall>i<p. (\<Sum>k\<le>i. L i k * V k j) = B i j" by blast
  then show ?thesis
    by (intro exI[of _ V]) (simp add: dtrtrs_def find_diag_none[OF L] dtrsm_L_def holds_cm_def)
qed

lemma fold_log:
  assumes "\<And>i. i < p \<Longrightarrow> a (i + i * p) = Fin (L i i)" "\<And>i. i < p \<Longrightarrow> 0 < L i i" "k \<le> p"
  shows "fold (\<lambda>i ll. ll - dlog (a (i + i * p))) [0..<k] (Fin c) = Fin (c - (\<Sum>i<k. ln (L i i)))"
  using assms(3)
proof (induction k)
  case 0
  then show ?case by simp
next
  case (Suc k)
  then have k: "k < p" by simp
  with assms(2)[OF k] have "\<not> L k k \<le> 0" by simp
  with Suc show ?case using assms(1)[OF k] by simp
qed

lemma dnrm2_sq:
  assumes "holds_vec p v z"
  shows "dsq (dnrm2 p v) = Fin (\<Sum>i<p. z i * z i)"
proof -
  have "dsum (\<lambda>i. v i * v i) p = Fin (\<Sum>i<p. z i * z i)"
    by (rule dsum_Fin) (simp add: holds_vecD[OF assms])
  moreover have "0 \<le> (\<Sum>i<p. z i * z i)" by (intro sum_nonneg) simp
  ultimately show ?thesis by (simp add: dnrm2_def dsq_def not_less)
qed

lemma cond_S_innov:
  assumes C: "holds_rm p n vC Cm" and S: "holds_rm n n vsx Sg" and R: "holds_rm p p vR Rm"
    and sym: "symmetric n Sg" "symmetric p Rm"
  shows "holds_cm p p (cond_S p n vC vsx vR) (innov_cov n Cm Sg Rm)"
  using cond_S_holds[OF C S R] by (simp add: holds_cm_def innov_cov_code[OF sym])

lemma cond_r_holds:
  assumes C: "holds_rm p n vC Cm" and mx: "holds_vec n vmx mu" and y: "holds_vec p vy yv"
  shows "holds_vec p (cond_r p n vC vmx vy) (\<lambda>i. yv i - (\<Sum>l<n. Cm i l * mu l))"
  unfolding holds_vec_def cond_r_def
proof (intro allI impI)
  fix i assume i: "i < p"
  have "dsum (\<lambda>l. vC (l + i * n) * vmx l) n = Fin (\<Sum>l<n. Cm i l * mu l)"
    by (rule dsum_Fin) (simp add: holds_rmD'[OF C i] holds_vecD[OF mx])
  then show "dgemv Trans n p (Fin (- 1)) vC n vmx (Fin 1) (dcopy p vy blank) i = Fin (yv i - (\<Sum>l<n. Cm i l * mu l))"
    using holds_vecD[OF y i] i by (simp add: dgemv_T_at[OF i] dcopy_def)
qed

lemma cond_mu_holds:
  assumes T: "holds_cm p n (cond_tpn p n vC vsx) Tm" and mx: "holds_vec n vmx mu"
    and w: "holds_vec p (cond_w p n vmx vsx vC vR vy) w"
  shows "holds_vec n (cond_mu p n vmx vsx vC vR vy) (\<lambda>i. mu i + (\<Sum>l<p. Tm l i * w l))"
  unfolding holds_vec_def cond_mu_def
proof (intro allI impI)
  fix i assume i: "i < n"
  have "dsum (\<lambda>l. cond_tpn p n vC vsx (l + i * p) * cond_w p n vmx vsx vC vR vy l) p = Fin (\<Sum>l<p. Tm l i * w l)"
    by (rule dsum_Fin) (simp add: holds_cmD[OF T _ i] holds_vecD[OF w])
  then show "dgemv Trans p n (Fin 1) (cond_tpn p n vC vsx) p (cond_w p n vmx vsx vC vR vy) (Fin 1) (dcopy n vmx blank) i
      = Fin (mu i + (\<Sum>l<p. Tm l i * w l))"
    using holds_vecD[OF mx i] i by (simp add: dgemv_T_at[OF i] dcopy_def)
qed

lemma cond_sigma_holds:
  assumes V: "holds_cm p n (cond_V p n vC vsx vR) V" and S: "holds_rm n n vsx Sg"
  shows "holds_rm n n (cond_sigma p n vsx vC vR) (\<lambda>i j. Sg i j - (\<Sum>l<p. V l j * V l i))"
  unfolding holds_rm_def cond_sigma_def
proof (intro allI impI)
  fix i j assume i: "i < n" and j: "j < n"
  have "dsum (\<lambda>l. opm Trans (cond_V p n vC vsx vR) p j l * opm NoTrans (cond_V p n vC vsx vR) p l i) p
      = Fin (\<Sum>l<p. V l j * V l i)"
    by (rule dsum_Fin) (simp add: holds_cmD[OF V _ i] holds_cmD[OF V _ j])
  moreover have "dcopy (n * n) vsx blank (j + i * n) = Fin (Sg i j)"
    using holds_rmD'[OF S i j] idx_lt[OF j i] by (simp add: dcopy_def)
  ultimately have "dgemm Trans NoTrans n n p (Fin (- 1)) (cond_V p n vC vsx vR) p (cond_V p n vC vsx vR) p (Fin 1)
      (dcopy (n * n) vsx blank) n (j + i * n) = Fin (Sg i j - (\<Sum>l<p. V l j * V l i))"
    by (simp add: dgemm_at[OF j i])
  then show "dgemm Trans NoTrans n n p (Fin (- 1)) (cond_V p n vC vsx vR) p (cond_V p n vC vsx vR) p (Fin 1)
      (dcopy (n * n) vsx blank) n (i * n + j) = Fin (Sg i j - (\<Sum>l<p. V l j * V l i))"
    by (simp add: add.commute)
qed

lemma cond_reals:
  assumes C: "holds_rm p n vC Cm" and S: "holds_rm n n vsx Sg" and R: "holds_rm p p vR Rm"
    and mx: "holds_vec n vmx mu" and y: "holds_vec p vy yv"
    and sym: "symmetric n Sg" "symmetric p Rm"
    and pd: "pd_from 0 p (innov_cov n Cm Sg Rm)"
  shows "\<exists>L z w V.
     (\<forall>i<p. 0 < L i i) \<and>
     (\<forall>k<p. \<forall>i<p. k \<le> i \<longrightarrow> (\<Sum>l\<le>k. L i l * L k l) = innov_cov n Cm Sg Rm i k) \<and>
     (\<forall>i<p. (\<Sum>k\<le>i. L i k * z k) = yv i - (\<Sum>l<n. Cm i l * mu l)) \<and>
     (\<forall>i<p. (\<Sum>k = i..<p. L k i * w k) = z i) \<and>
     (\<forall>j<n. \<forall>i<p. (\<Sum>k\<le>i. L i k * V k j) = (\<Sum>l<n. Cm i l * Sg j l)) \<and>
     cond_ll p n vmx vsx vC vR vy
       = Fin (- (1 / 2) * (\<Sum>i<p. z i * z i) - real p / 2 * ln (2 * pi) - (\<Sum>i<p. ln (L i i))) \<and>
     holds_vec n (cond_mu p n vmx vsx vC vR vy) (\<lambda>i. mu i + (\<Sum>l<p. (\<Sum>m<n. Cm l m * Sg i m) * w l)) \<and>
     holds_rm n n (cond_sigma p n vsx vC vR) (\<lambda>i j. Sg i j - (\<Sum>l<p. V l j * V l i))"
proof -
  note T = cond_tpn_holds[OF C S]
  from dpotrf_pd[OF cond_S_innov[OF C S R sym] pd] obtain L where
    L: "lower_holds p (cond_L p n vC vsx vR) L"
    and LL: "\<forall>k<p. \<forall>i<p. k \<le> i \<longrightarrow> (\<Sum>l\<le>k. L i l * L k l) = innov_cov n Cm Sg Rm i k"
    by (auto simp: cond_L_def)
  from dtrtrs_N1[OF L cond_r_holds[OF C mx y]] obtain z where
    z: "holds_vec p (cond_z p n vmx vsx vC vR vy) z"
    and Lz: "\<forall>i<p. (\<Sum>k\<le>i. L i k * z k) = yv i - (\<Sum>l<n. Cm i l * mu l)"
    by (auto simp: cond_z_def)
  from dtrtrs_T1[OF L z] obtain w where
    w: "holds_vec p (cond_w p n vmx vsx vC vR vy) w"
    and Lw: "\<forall>i<p. (\<Sum>k = i..<p. L k i * w k) = z i"
    by (auto simp: cond_w_def)
  from dtrtrs_Nn[OF L T] obtain V where
    V: "holds_cm p n (cond_V p n vC vsx vR) V"
    and LV: "\<forall>j<n. \<forall>i<p. (\<Sum>k\<le>i. L i k * V k j) = (\<Sum>l<n. Cm i l * Sg j l)"
    by (auto simp: cond_V_def)
  have ll: "cond_ll p n vmx vsx vC vR vy
       = Fin (- (1 / 2) * (\<Sum>i<p. z i * z i) - real p / 2 * ln (2 * pi) - (\<Sum>i<p. ln (L i i)))"
    unfolding cond_ll_def dnrm2_sq[OF z]
    using fold_log[where a="cond_L p n vC vsx vR" and L=L and p=p and k=p
        and c="- (1 / 2) * (\<Sum>i<p. z i * z i) - real p / 2 * ln (2 * pi)"]
      lower_holdsD(1,2)[OF L]
    by (simp del: dlog.simps add: dlog.simps(1)[of "2 * pi"])
  from lower_holdsD(2)[OF L] LL Lz Lw LV ll cond_mu_holds[OF T mx w] cond_sigma_holds[OF V S]
  show ?thesis by blast
qed

lemma LLT_back:
  fixes L S :: rmat
  assumes dg: "\<And>i. i < p \<Longrightarrow> L i i \<noteq> 0"
    and LL: "\<And>i j. i < p \<Longrightarrow> j < p \<Longrightarrow> (\<Sum>l<p. lowpart L i l * lowpart L j l) = S i j"
    and Lv: "\<And>i. i < p \<Longrightarrow> (\<Sum>k\<le>i. L i k * v k) = t i"
    and Sx: "\<And>i. i < p \<Longrightarrow> (\<Sum>j<p. S i j * x j) = t i"
    and l: "l < p"
  shows "(\<Sum>k<p. lowpart L k l * x k) = v l"
proof -
  define u where "u = (\<lambda>l. (\<Sum>k<p. lowpart L k l * x k) - v l)"
  have "(\<Sum>k\<le>i. L i k * u k) = 0" if i: "i < p" for i
  proof -
    have "(\<Sum>k\<le>i. L i k * (\<Sum>k'<p. lowpart L k' k * x k')) = (\<Sum>k<p. lowpart L i k * (\<Sum>k'<p. lowpart L k' k * x k'))"
      by (rule sum_low[OF i, symmetric])
    also have "\<dots> = (\<Sum>k<p. \<Sum>k'<p. (lowpart L i k * lowpart L k' k) * x k')"
      by (simp add: sum_distrib_left mult.assoc)
    also have "\<dots> = (\<Sum>k'<p. \<Sum>k<p. (lowpart L i k * lowpart L k' k) * x k')" by (rule sum.swap)
    also have "\<dots> = (\<Sum>k'<p. (\<Sum>k<p. lowpart L i k * lowpart L k' k) * x k')"
      by (simp add: sum_distrib_right)
    also have "\<dots> = (\<Sum>k'<p. S i k' * x k')"
      by (intro sum.cong refl) (simp add: LL[OF i])
    also have "\<dots> = t i" by (rule Sx[OF i])
    finally show ?thesis using Lv[OF i] by (simp add: u_def right_diff_distrib sum_subtractf)
  qed
  from lower_injective[where L=L and x=u, OF dg this l] show ?thesis by (simp add: u_def)
qed

lemma quad_form:
  fixes Lz :: rmat
  assumes fw: "\<And>i. i < p \<Longrightarrow> (\<Sum>k<p. Lz i k * z k) = r i"
    and bw: "\<And>i. i < p \<Longrightarrow> (\<Sum>k<p. Lz k i * w k) = z i"
  shows "(\<Sum>i<p. z i * z i) = (\<Sum>i<p. r i * w i)"
proof -
  have "(\<Sum>i<p. z i * z i) = (\<Sum>i<p. z i * (\<Sum>k<p. Lz k i * w k))"
    by (intro sum.cong refl) (simp add: bw)
  also have "\<dots> = (\<Sum>i<p. \<Sum>k<p. (Lz k i * z i) * w k)"
    by (simp add: sum_distrib_left mult_ac)
  also have "\<dots> = (\<Sum>k<p. \<Sum>i<p. (Lz k i * z i) * w k)" by (rule sum.swap)
  also have "\<dots> = (\<Sum>k<p. (\<Sum>i<p. Lz k i * z i) * w k)" by (simp add: sum_distrib_right)
  also have "\<dots> = (\<Sum>k<p. r k * w k)" by (intro sum.cong refl) (simp add: fw)
  finally show ?thesis .
qed

lemma gram_form:
  fixes Lz :: rmat
  assumes bk: "\<And>l. l < p \<Longrightarrow> (\<Sum>k<p. Lz k l * X k) = Vj l"
    and fw: "\<And>k. k < p \<Longrightarrow> (\<Sum>l<p. Lz k l * Vi l) = Ti k"
  shows "(\<Sum>l<p. Vj l * Vi l) = (\<Sum>k<p. Ti k * X k)"
proof -
  have "(\<Sum>l<p. Vj l * Vi l) = (\<Sum>l<p. (\<Sum>k<p. Lz k l * X k) * Vi l)"
    by (intro sum.cong refl) (simp add: bk)
  also have "\<dots> = (\<Sum>l<p. \<Sum>k<p. (Lz k l * Vi l) * X k)"
    by (intro sum.cong refl) (simp add: sum_distrib_left sum_distrib_right mult_ac)
  also have "\<dots> = (\<Sum>k<p. \<Sum>l<p. (Lz k l * Vi l) * X k)" by (rule sum.swap)
  also have "\<dots> = (\<Sum>k<p. (\<Sum>l<p. Lz k l * Vi l) * X k)" by (simp add: sum_distrib_right)
  also have "\<dots> = (\<Sum>k<p. Ti k * X k)" by (intro sum.cong refl) (simp add: fw)
  finally show ?thesis .
qed

lemma holds_vec_cong: "holds_vec n v f \<Longrightarrow> (\<And>i. i < n \<Longrightarrow> f i = g i) \<Longrightarrow> holds_vec n v g"
  by (simp add: holds_vec_def)

lemma holds_rm_cong: "holds_rm r c v f \<Longrightarrow> (\<And>i j. i < r \<Longrightarrow> j < c \<Longrightarrow> f i j = g i j) \<Longrightarrow> holds_rm r c v g"
  by (simp add: holds_rm_def)

lemma holds_vec_eq_on: "eq_on n v w \<Longrightarrow> holds_vec n w x \<Longrightarrow> holds_vec n v x"
  by (simp add: eq_on_def holds_vec_def)

lemma holds_rm_eq_on:
  assumes "eq_on (r * c) v w" "holds_rm r c w M"
  shows "holds_rm r c v M"
proof -
  have "i * c + j < r * c" if "i < r" "j < c" for i j
    using idx_lt[of j c i r] that by (simp add: add.commute mult.commute)
  with assms show ?thesis by (simp add: eq_on_def holds_rm_def)
qed

lemma SCt_vec: "mat_vec p (mat_mul n Sg (mat_T Cm)) v i = (\<Sum>l<p. (\<Sum>m<n. Sg i m * Cm l m) * v l)"
  by (simp add: mat_vec_def mat_mul_def mat_T_def)

lemma cond_pure_formulas:
  assumes C: "holds_rm p n vC Cm" and S: "holds_rm n n vsx Sg" and R: "holds_rm p p vR Rm"
    and mx: "holds_vec n vmx mu" and y: "holds_vec p vy yv"
    and sym: "symmetric n Sg" "symmetric p Rm"
    and pd: "pd_from 0 p (innov_cov n Cm Sg Rm)"
    and inv: "right_inverse p (innov_cov n Cm Sg Rm) Si"
  shows "holds_vec n (cond_mu p n vmx vsx vC vR vy)
           (\<lambda>i. mu i + mat_vec p (mat_mul n Sg (mat_T Cm)) (mat_vec p Si (innovation n Cm mu yv)) i) \<and>
         holds_rm n n (cond_sigma p n vsx vC vR)
           (\<lambda>i j. Sg i j - mat_mul p (mat_mul n Sg (mat_T Cm)) (mat_mul p Si (mat_mul n Cm Sg)) i j) \<and>
         (\<exists>L z. (\<forall>i<p. 0 < L i i) \<and>
                (\<forall>i<p. \<forall>j<p. mat_mul p (lowpart L) (mat_T (lowpart L)) i j = innov_cov n Cm Sg Rm i j) \<and>
                (\<forall>i<p. mat_vec p (lowpart L) z i = innovation n Cm mu yv i) \<and>
                cond_ll p n vmx vsx vC vR vy
                  = Fin (- (1 / 2) * (\<Sum>i<p. z i * z i) - real p / 2 * ln (2 * pi) - (\<Sum>i<p. ln (L i i))) \<and>
                (\<Sum>i<p. z i * z i)
                  = (\<Sum>i<p. innovation n Cm mu yv i * mat_vec p Si (innovation n Cm mu yv) i))"
proof -
  let ?S = "innov_cov n Cm Sg Rm" and ?r = "innovation n Cm mu yv"
  from cond_reals[OF C S R mx y sym pd] obtain L z w V where
    dg0: "\<forall>i<p. 0 < L i i"
    and LL0: "\<forall>k<p. \<forall>i<p. k \<le> i \<longrightarrow> (\<Sum>l\<le>k. L i l * L k l) = ?S i k"
    and Lz0: "\<forall>i<p. (\<Sum>k\<le>i. L i k * z k) = yv i - (\<Sum>l<n. Cm i l * mu l)"
    and Lw0: "\<forall>i<p. (\<Sum>k = i..<p. L k i * w k) = z i"
    and LV0: "\<forall>j<n. \<forall>i<p. (\<Sum>k\<le>i. L i k * V k j) = (\<Sum>l<n. Cm i l * Sg j l)"
    and ll: "cond_ll p n vmx vsx vC vR vy
       = Fin (- (1 / 2) * (\<Sum>i<p. z i * z i) - real p / 2 * ln (2 * pi) - (\<Sum>i<p. ln (L i i)))"
    and hm: "holds_vec n (cond_mu p n vmx vsx vC vR vy) (\<lambda>i. mu i + (\<Sum>l<p. (\<Sum>m<n. Cm l m * Sg i m) * w l))"
    and hs: "holds_rm n n (cond_sigma p n vsx vC vR) (\<lambda>i j. Sg i j - (\<Sum>l<p. V l j * V l i))"
    by (elim exE conjE) (rule that, assumption+)
  have dg: "\<And>i. i < p \<Longrightarrow> 0 < L i i"
    and LL: "\<And>k i. k < p \<Longrightarrow> i < p \<Longrightarrow> k \<le> i \<Longrightarrow> (\<Sum>l\<le>k. L i l * L k l) = ?S i k"
    and Lz: "\<And>i. i < p \<Longrightarrow> (\<Sum>k\<le>i. L i k * z k) = yv i - (\<Sum>l<n. Cm i l * mu l)"
    and Lw: "\<And>i. i < p \<Longrightarrow> (\<Sum>k = i..<p. L k i * w k) = z i"
    and LV: "\<And>j i. j < n \<Longrightarrow> i < p \<Longrightarrow> (\<Sum>k\<le>i. L i k * V k j) = (\<Sum>l<n. Cm i l * Sg j l)"
    using dg0 LL0 Lz0 Lw0 LV0 by simp_all
  have dg': "L i i \<noteq> 0" if "i < p" for i using dg[OF that] by simp
  have Ssym: "?S i k = ?S k i" if "i < p" "k < p" for i k
    using innov_cov_symmetric[OF sym, of Cm] that by (simp add: symmetric_def)
  have full: "(\<Sum>l<p. lowpart L i l * lowpart L j l) = ?S i j" if "i < p" "j < p" for i j
    by (rule chol_full[OF LL Ssym that])
  have fwz: "(\<Sum>k<p. lowpart L i k * z k) = ?r i" if "i < p" for i
    using Lz[OF that] by (simp add: sum_low[OF that] innovation_def mat_vec_def)
  have bww: "(\<Sum>k<p. lowpart L k i * w k) = z i" if "i < p" for i
    using Lw[OF that] by (simp add: sum_low_T[OF that])
  have inv': "(\<Sum>k<p. ?S i k * Si k j) = (if i = j then 1 else 0)" if "i < p" "j < p" for i j
    using inv that by (simp add: right_inverse_def mat_mul_def)
  have Sw: "(\<Sum>j<p. ?S i j * w j) = ?r i" if "i < p" for i
    by (rule solve_twice[OF full fwz bww that])
  have SSi: "(\<Sum>j<p. ?S i j * mat_vec p Si v j) = v i" if "i < p" for i v
    using right_inverse_apply[where S="?S" and Si=Si and r=v, OF inv' that] by (simp add: mat_vec_def)
  have w: "w i = mat_vec p Si ?r i" if "i < p" for i
    by (rule pd_unique[OF pd Sw SSi that])
  have 1: "holds_vec n (cond_mu p n vmx vsx vC vR vy)
           (\<lambda>i. mu i + mat_vec p (mat_mul n Sg (mat_T Cm)) (mat_vec p Si ?r) i)"
  proof (rule holds_vec_cong[OF hm])
    fix i assume "i < n"
    have "(\<Sum>l<p. (\<Sum>m<n. Cm l m * Sg i m) * w l) = (\<Sum>l<p. (\<Sum>m<n. Sg i m * Cm l m) * mat_vec p Si ?r l)"
      by (intro sum.cong refl) (simp add: w mult.commute)
    then show "mu i + (\<Sum>l<p. (\<Sum>m<n. Cm l m * Sg i m) * w l)
        = mu i + mat_vec p (mat_mul n Sg (mat_T Cm)) (mat_vec p Si ?r) i"
      by (simp only: SCt_vec)
  qed
  have 2: "holds_rm n n (cond_sigma p n vsx vC vR)
           (\<lambda>i j. Sg i j - mat_mul p (mat_mul n Sg (mat_T Cm)) (mat_mul p Si (mat_mul n Cm Sg)) i j)"
  proof (rule holds_rm_cong[OF hs])
    fix i j assume i: "i < n" and j: "j < n"
    let ?T = "\<lambda>i k. \<Sum>l<n. Cm k l * Sg i l"
    let ?X = "\<lambda>k. mat_vec p Si (\<lambda>c. ?T j c) k"
    have bk: "(\<Sum>k<p. lowpart L k l * ?X k) = V l j" if "l < p" for l
      by (rule LLT_back[where S="?S" and t="\<lambda>c. ?T j c", OF dg' full LV[OF j] SSi that])
    have fw: "(\<Sum>l<p. lowpart L k l * V l i) = ?T i k" if "k < p" for k
      using LV[OF i that] by (simp add: sum_low[OF that])
    have "(\<Sum>l<p. V l j * V l i) = (\<Sum>k<p. ?T i k * ?X k)"
      by (rule gram_form[OF bk fw])
    also have "\<dots> = mat_mul p (mat_mul n Sg (mat_T Cm)) (mat_mul p Si (mat_mul n Cm Sg)) i j"
      unfolding mat_mul_def[of p "mat_mul n Sg (mat_T Cm)"]
    proof (intro sum.cong refl)
      fix k assume "k \<in> {..<p}"
      have a: "?T i k = mat_mul n Sg (mat_T Cm) i k"
        by (simp add: mat_mul_def mat_T_def mult.commute)
      have "?T j c = mat_mul n Cm Sg c j" for c
        unfolding mat_mul_def
        by (intro sum.cong refl) (use sym(1) j in \<open>simp add: symmetric_def\<close>)
      then have b: "?X k = mat_mul p Si (mat_mul n Cm Sg) k j"
        by (simp add: mat_vec_def mat_mul_def[of p Si])
      show "?T i k * ?X k = mat_mul n Sg (mat_T Cm) i k * mat_mul p Si (mat_mul n Cm Sg) k j"
        by (simp only: a b)
    qed
    finally show "Sg i j - (\<Sum>l<p. V l j * V l i)
        = Sg i j - mat_mul p (mat_mul n Sg (mat_T Cm)) (mat_mul p Si (mat_mul n Cm Sg)) i j"
      by simp
  qed
  have q: "(\<Sum>i<p. z i * z i) = (\<Sum>i<p. ?r i * mat_vec p Si ?r i)"
  proof -
    have "(\<Sum>i<p. z i * z i) = (\<Sum>i<p. ?r i * w i)" by (rule quad_form[OF fwz bww])
    also have "\<dots> = (\<Sum>i<p. ?r i * mat_vec p Si ?r i)" by (intro sum.cong refl) (simp add: w)
    finally show ?thesis .
  qed
  have 3: "\<forall>i<p. \<forall>j<p. mat_mul p (lowpart L) (mat_T (lowpart L)) i j = ?S i j"
    using full by (simp add: mat_mul_def mat_T_def)
  have 4: "\<forall>i<p. mat_vec p (lowpart L) z i = ?r i"
    using fwz by (simp add: mat_vec_def)
  have "\<forall>i<p. 0 < L i i" using dg by simp
  with 3 4 ll q have "\<exists>L z. (\<forall>i<p. 0 < L i i) \<and>
                (\<forall>i<p. \<forall>j<p. mat_mul p (lowpart L) (mat_T (lowpart L)) i j = innov_cov n Cm Sg Rm i j) \<and>
                (\<forall>i<p. mat_vec p (lowpart L) z i = innovation n Cm mu yv i) \<and>
                cond_ll p n vmx vsx vC vR vy
                  = Fin (- (1 / 2) * (\<Sum>i<p. z i * z i) - real p / 2 * ln (2 * pi) - (\<Sum>i<p. ln (L i i))) \<and>
                (\<Sum>i<p. z i * z i)
                  = (\<Sum>i<p. innovation n Cm mu yv i * mat_vec p Si (innovation n Cm mu yv) i)"
    by (intro exI[of _ L] exI[of _ z] conjI)
  with 1 2 show ?thesis by (intro conjI)
qed

lemma pd_scalar:
  assumes "0 < c"
  shows "pd_from 0 1 (\<lambda>i j. c)"
proof -
  have "0 < x 0 * c * x 0" if "x 0 \<noteq> 0" for x :: rvec
  proof -
    have "0 < x 0 * x 0" using that by (auto simp: zero_less_mult_iff)
    with assms have "0 < c * (x 0 * x 0)" by (rule mult_pos_pos)
    then show ?thesis by (simp add: mult_ac)
  qed
  then show ?thesis by (simp add: pd_from_def qf_def)
qed


section \<open>Facts about covariances\<close>

lemma qf_dot: "qf 0 n M x = dot n x (mat_vec n M x)"
  by (simp add: qf_def dot_def mat_vec_def atLeast0LessThan sum_distrib_left mult.assoc)

lemma dot_cong: "(\<And>i. i < n \<Longrightarrow> x i = x' i) \<Longrightarrow> (\<And>i. i < n \<Longrightarrow> y i = y' i) \<Longrightarrow> dot n x y = dot n x' y'"
  by (simp add: dot_def)

lemma mat_vec_cong:
  "(\<And>l. l < k \<Longrightarrow> M i l = M' i l) \<Longrightarrow> (\<And>l. l < k \<Longrightarrow> x l = x' l) \<Longrightarrow> mat_vec k M x i = mat_vec k M' x' i"
  by (simp add: mat_vec_def)

lemma dot_commute: "dot n x y = dot n y x"
  by (simp add: dot_def mult.commute)

lemma dot_diff_left: "dot n (\<lambda>i. x i - y i) z = dot n x z - dot n y z"
  by (simp add: dot_def left_diff_distrib sum_subtractf)

lemma dot_diff_right: "dot n z (\<lambda>i. x i - y i) = dot n z x - dot n z y"
  by (simp add: dot_def right_diff_distrib sum_subtractf)

lemma dot_add_right: "dot n z (\<lambda>i. x i + y i) = dot n z x + dot n z y"
  by (simp add: dot_def distrib_left sum.distrib)

lemma mat_vec_diff: "mat_vec k M (\<lambda>i. x i - y i) = (\<lambda>i. mat_vec k M x i - mat_vec k M y i)"
  by (simp add: mat_vec_def right_diff_distrib sum_subtractf)

lemma dot_adjoint: "dot n (mat_vec p (mat_T C) u) w = dot p u (mat_vec n C w)"
proof -
  have "dot n (mat_vec p (mat_T C) u) w = (\<Sum>j<n. \<Sum>i<p. u i * (C i j * w j))"
    unfolding dot_def mat_vec_def mat_T_def
    by (intro sum.cong refl) (simp add: sum_distrib_left sum_distrib_right mult_ac)
  also have "\<dots> = (\<Sum>i<p. \<Sum>j<n. u i * (C i j * w j))" by (rule sum.swap)
  also have "\<dots> = dot p u (mat_vec n C w)"
    by (simp add: dot_def mat_vec_def sum_distrib_left)
  finally show ?thesis .
qed

lemma dot_sym_mat:
  assumes "symmetric n M"
  shows "dot n x (mat_vec n M y) = dot n y (mat_vec n M x)"
proof -
  have "dot n x (mat_vec n M y) = dot n (mat_vec n (mat_T M) x) y"
    by (rule dot_adjoint[symmetric])
  also have "\<dots> = dot n (mat_vec n M x) y"
    by (rule dot_cong) (use assms in \<open>simp_all add: mat_vec_def mat_T_def symmetric_def\<close>)
  finally show ?thesis by (simp add: dot_commute)
qed

lemma mat_vec_triple:
  "mat_vec n C (mat_vec n Sg (mat_vec p (mat_T C) u)) i
     = (\<Sum>k<p. (\<Sum>l<n. \<Sum>m<n. C i l * Sg l m * C k m) * u k)"
proof -
  have "mat_vec n C (mat_vec n Sg (mat_vec p (mat_T C) u)) i
      = (\<Sum>l<n. \<Sum>m<n. \<Sum>k<p. C i l * Sg l m * C k m * u k)"
    by (simp add: mat_vec_def mat_T_def sum_distrib_left mult.assoc)
  also have "\<dots> = (\<Sum>l<n. \<Sum>k<p. \<Sum>m<n. C i l * Sg l m * C k m * u k)"
    by (intro sum.cong refl sum.swap)
  also have "\<dots> = (\<Sum>k<p. \<Sum>l<n. \<Sum>m<n. C i l * Sg l m * C k m * u k)" by (rule sum.swap)
  also have "\<dots> = (\<Sum>k<p. (\<Sum>l<n. \<Sum>m<n. C i l * Sg l m * C k m) * u k)"
    by (simp add: sum_distrib_right)
  finally show ?thesis .
qed

text \<open>The core of the downdate: the posterior quadratic form is a sum of two forms.\<close>

lemma downdate_split:
  assumes sym: "symmetric n Sg"
    and Su: "\<And>i. i < p \<Longrightarrow> mat_vec p (innov_cov n C Sg R) u i = mat_vec n C (mat_vec n Sg x) i"
  shows "qf 0 n Sg x - dot p u (mat_vec n C (mat_vec n Sg x))
       = qf 0 n Sg (\<lambda>j. x j - mat_vec p (mat_T C) u j) + qf 0 p R u"
proof -
  let ?y = "mat_vec p (mat_T C) u" and ?b = "mat_vec n C (mat_vec n Sg x)"
  have 1: "dot n ?y (mat_vec n Sg x) = dot p u ?b" by (rule dot_adjoint)
  have 2: "dot n x (mat_vec n Sg ?y) = dot p u ?b"
    using dot_sym_mat[OF sym, of x ?y] 1 by simp
  have "dot n ?y (mat_vec n Sg ?y) = dot p u (mat_vec n C (mat_vec n Sg ?y))" by (rule dot_adjoint)
  also have "\<dots> = dot p u (\<lambda>i. ?b i - mat_vec p R u i)"
  proof (rule dot_cong[OF refl])
    fix i assume i: "i < p"
    have "mat_vec n C (mat_vec n Sg ?y) i = (\<Sum>k<p. (innov_cov n C Sg R i k - R i k) * u k)"
      by (simp add: mat_vec_triple innov_cov_def)
    also have "\<dots> = mat_vec p (innov_cov n C Sg R) u i - mat_vec p R u i"
      by (simp add: mat_vec_def left_diff_distrib sum_subtractf)
    finally show "mat_vec n C (mat_vec n Sg ?y) i = ?b i - mat_vec p R u i" by (simp add: Su[OF i])
  qed
  also have "\<dots> = dot p u ?b - qf 0 p R u" by (simp add: dot_diff_right qf_dot)
  finally have 3: "dot n ?y (mat_vec n Sg ?y) = dot p u ?b - qf 0 p R u" .
  have "qf 0 n Sg (\<lambda>j. x j - ?y j)
      = dot n x (mat_vec n Sg x) - dot n x (mat_vec n Sg ?y) - (dot n ?y (mat_vec n Sg x) - dot n ?y (mat_vec n Sg ?y))"
    by (simp add: qf_dot mat_vec_diff dot_diff_left dot_diff_right)
  then show ?thesis by (simp add: 1 2 3 qf_dot)
qed

lemma downdate_nonneg:
  assumes "symmetric n Sg" "psd n Sg" "psd p R"
    and "\<And>i. i < p \<Longrightarrow> mat_vec p (innov_cov n C Sg R) u i = mat_vec n C (mat_vec n Sg x) i"
  shows "0 \<le> qf 0 n Sg x - dot p u (mat_vec n C (mat_vec n Sg x))"
proof -
  have "0 \<le> qf 0 n Sg (\<lambda>j. x j - mat_vec p (mat_T C) u j) + qf 0 p R u"
    using assms(2,3) by (simp add: psd_def add_nonneg_nonneg)
  then show ?thesis by (simp only: downdate_split[OF assms(1,4)])
qed

lemma innov_cov_psd:
  assumes "psd n Sg" "psd p R"
  shows "psd p (innov_cov n C Sg R)"
  unfolding psd_def
proof
  fix x
  have "mat_vec p (innov_cov n C Sg R) x i
      = mat_vec n C (mat_vec n Sg (mat_vec p (mat_T C) x)) i + mat_vec p R x i" for i
    by (simp add: mat_vec_triple) (simp add: mat_vec_def innov_cov_def distrib_right sum.distrib)
  then have "dot p x (mat_vec p (innov_cov n C Sg R) x)
      = dot p x (\<lambda>i. mat_vec n C (mat_vec n Sg (mat_vec p (mat_T C) x)) i + mat_vec p R x i)"
    by (intro dot_cong refl)
  then have "qf 0 p (innov_cov n C Sg R) x
      = dot p x (mat_vec n C (mat_vec n Sg (mat_vec p (mat_T C) x))) + qf 0 p R x"
    by (simp add: qf_dot dot_add_right)
  also have "dot p x (mat_vec n C (mat_vec n Sg (mat_vec p (mat_T C) x))) = qf 0 n Sg (mat_vec p (mat_T C) x)"
    by (simp add: dot_adjoint[symmetric] qf_dot)
  finally show "0 \<le> qf 0 p (innov_cov n C Sg R) x"
    using assms by (simp add: psd_def add_nonneg_nonneg)
qed

lemma back_subst_exists:
  fixes L :: rmat
  assumes dg: "\<And>i. i < p \<Longrightarrow> L i i \<noteq> 0"
  shows "\<exists>u. \<forall>i<p. (\<Sum>k<p. lowpart L k i * u k) = a i"
proof -
  define av :: view where "av = (\<lambda>z. Fin (L (z mod p) (z div p)))"
  define bv :: view where "bv = (\<lambda>z. Fin (a z))"
  have 1: "av (i + k * p) = Fin (L i k)" if "i < p" "k \<le> i" for i k
    using that by (simp add: av_def)
  have 2: "bv (0 + i) = Fin (a i)" if "i < p" for i by (simp add: bv_def)
  from trsv_LT_solves[where a=av and L=L and b=bv and off=0 and bv=a and n=p and m=p, OF 1 dg 2 order_refl]
  obtain u where "\<forall>i'<p. p - p \<le> i' \<longrightarrow> (\<Sum>k = i'..<p. L k i' * u k) = a i'" by blast
  then have "\<forall>i<p. (\<Sum>k<p. lowpart L k i * u k) = a i"
    by (simp add: sum_low_T)
  then show ?thesis by blast
qed

lemma gram_downdate:
  fixes L S T V :: rmat
  assumes dg: "\<And>i. i < p \<Longrightarrow> L i i \<noteq> 0"
    and LL: "\<And>i j. i < p \<Longrightarrow> j < p \<Longrightarrow> (\<Sum>l<p. lowpart L i l * lowpart L j l) = S i j"
    and LV: "\<And>j i. j < n \<Longrightarrow> i < p \<Longrightarrow> (\<Sum>k<p. lowpart L i k * V k j) = T i j"
  shows "\<exists>u. (\<forall>i<p. mat_vec p S u i = mat_vec n T x i) \<and>
             (\<Sum>i<n. \<Sum>j<n. x i * (\<Sum>l<p. V l j * V l i) * x j) = dot p u (mat_vec n T x)"
proof -
  define a where "a = mat_vec n V x"
  from back_subst_exists[where L=L and p=p and a=a, OF dg] obtain u where
    u: "\<And>i. i < p \<Longrightarrow> (\<Sum>k<p. lowpart L k i * u k) = a i" by blast
  have La: "(\<Sum>k<p. lowpart L i k * a k) = mat_vec n T x i" if i: "i < p" for i
  proof -
    have "(\<Sum>k<p. lowpart L i k * a k) = (\<Sum>k<p. \<Sum>j<n. (lowpart L i k * V k j) * x j)"
      by (simp add: a_def mat_vec_def sum_distrib_left mult.assoc)
    also have "\<dots> = (\<Sum>j<n. \<Sum>k<p. (lowpart L i k * V k j) * x j)" by (rule sum.swap)
    also have "\<dots> = (\<Sum>j<n. (\<Sum>k<p. lowpart L i k * V k j) * x j)" by (simp add: sum_distrib_right)
    also have "\<dots> = mat_vec n T x i" unfolding mat_vec_def
      by (intro sum.cong refl) (simp add: LV[OF _ i])
    finally show ?thesis .
  qed
  have Su: "mat_vec p S u i = mat_vec n T x i" if i: "i < p" for i
    using solve_twice[where Lz="lowpart L" and S=S and z=a and w=u and r="mat_vec n T x", OF LL La u i]
    by (simp add: mat_vec_def)
  have "(\<Sum>i<n. \<Sum>j<n. x i * (\<Sum>l<p. V l j * V l i) * x j) = (\<Sum>i<n. \<Sum>j<n. \<Sum>l<p. (V l i * x i) * (V l j * x j))"
    by (intro sum.cong refl) (simp add: sum_distrib_left sum_distrib_right mult_ac)
  also have "\<dots> = (\<Sum>i<n. \<Sum>l<p. \<Sum>j<n. (V l i * x i) * (V l j * x j))"
    by (intro sum.cong refl sum.swap)
  also have "\<dots> = (\<Sum>l<p. \<Sum>i<n. \<Sum>j<n. (V l i * x i) * (V l j * x j))" by (rule sum.swap)
  also have "\<dots> = (\<Sum>l<p. a l * a l)"
    by (intro sum.cong refl) (simp add: a_def mat_vec_def sum_product)
  also have "\<dots> = (\<Sum>l<p. mat_vec n T x l * u l)"
    by (rule quad_form[where Lz="lowpart L", OF La u])
  also have "\<dots> = dot p u (mat_vec n T x)" by (simp add: dot_def mult.commute)
  finally show ?thesis using Su by blast
qed

lemma not_NaN_Fin: "x \<noteq> NaN \<Longrightarrow> x = Fin (the_fin x)"
  by (cases x) simp_all

lemma finite_holds_vec: "finite_on n v \<Longrightarrow> holds_vec n v (rd_vec v)"
  by (simp add: finite_on_def holds_vec_def rd_vec_def not_NaN_Fin)

lemma rm_idx_lt: "i < r \<Longrightarrow> j < c \<Longrightarrow> i * c + j < r * (c::nat)"
  using idx_lt[of j c i r] by (simp add: add.commute mult.commute)

lemma finite_holds_rm: "finite_on (r * c) v \<Longrightarrow> holds_rm r c v (rd_rm c v)"
  by (simp add: finite_on_def holds_rm_def rd_rm_def not_NaN_Fin rm_idx_lt)

lemma holds_rm_finite: "holds_rm r c v M \<Longrightarrow> finite_on (r * c) v"
  unfolding finite_on_def holds_rm_def
proof (intro allI impI)
  fix z assume h: "\<forall>i<r. \<forall>j<c. v (i * c + j) = Fin (M i j)" and z: "z < r * c"
  then have c: "0 < c" by (cases c) simp_all
  have "z div c < r" using z by (simp add: less_mult_imp_div_less mult.commute)
  moreover have "z mod c < c" using c by simp
  ultimately have "v (z div c * c + z mod c) = Fin (M (z div c) (z mod c))" using h by blast
  then show "v z \<noteq> NaN" by simp
qed

lemma holds_vec_finite: "holds_vec n v x \<Longrightarrow> finite_on n v"
  by (simp add: holds_vec_def finite_on_def)

lemma holds_vec_rd: "holds_vec n v x \<Longrightarrow> i < n \<Longrightarrow> rd_vec v i = x i"
  by (simp add: holds_vec_def rd_vec_def)

lemma holds_rm_rd: "holds_rm r c v M \<Longrightarrow> i < r \<Longrightarrow> j < c \<Longrightarrow> rd_rm c v i j = M i j"
  by (simp add: holds_rm_def rd_rm_def)

lemma holds_rm_rdI: "holds_rm r c v M \<Longrightarrow> holds_rm r c v (rd_rm c v)"
  by (simp add: holds_rm_def rd_rm_def)

lemma holds_vec_rdI: "holds_vec n v x \<Longrightarrow> holds_vec n v (rd_vec v)"
  by (simp add: holds_vec_def rd_vec_def)

lemma symmetric_cong: "(\<And>i j. i < n \<Longrightarrow> j < n \<Longrightarrow> M i j = N i j) \<Longrightarrow> symmetric n M = symmetric n N"
  by (simp add: symmetric_def)

lemma qf_cong: "(\<And>i j. i < n \<Longrightarrow> j < n \<Longrightarrow> M i j = N i j) \<Longrightarrow> qf 0 n M x = qf 0 n N x"
  by (simp add: qf_def)

lemma psd_cong: "(\<And>i j. i < n \<Longrightarrow> j < n \<Longrightarrow> M i j = N i j) \<Longrightarrow> psd n M = psd n N"
  using qf_cong[of n M N] by (simp add: psd_def)

lemma pd_cong: "(\<And>i j. i < n \<Longrightarrow> j < n \<Longrightarrow> M i j = N i j) \<Longrightarrow> pd_from 0 n M = pd_from 0 n N"
  using qf_cong[of n M N] by (simp add: pd_from_def)

lemma innov_cov_cong:
  assumes "\<And>i l. i < p \<Longrightarrow> l < n \<Longrightarrow> C i l = C' i l" "\<And>l m. l < n \<Longrightarrow> m < n \<Longrightarrow> Sg l m = Sg' l m"
    "\<And>i j. i < p \<Longrightarrow> j < p \<Longrightarrow> R i j = R' i j" "i < p" "j < p"
  shows "innov_cov n C Sg R i j = innov_cov n C' Sg' R' i j"
  using assms by (simp add: innov_cov_def)

lemma cond_sigma_real:
  assumes C: "holds_rm p n vC Cm" and S: "holds_rm n n vsx Sg" and R: "holds_rm p p vR Rm"
    and sym: "symmetric n Sg" "symmetric p Rm"
    and pd: "pd_from 0 p (innov_cov n Cm Sg Rm)"
  shows "\<exists>Sg'. holds_rm n n (cond_sigma p n vsx vC vR) Sg' \<and> symmetric n Sg' \<and>
               (psd n Sg \<and> psd p Rm \<longrightarrow> psd n Sg')"
proof -
  let ?S = "innov_cov n Cm Sg Rm"
  let ?T = "\<lambda>i j. \<Sum>l<n. Cm i l * Sg j l"
  note T = cond_tpn_holds[OF C S]
  from dpotrf_pd[OF cond_S_innov[OF C S R sym] pd] obtain L where
    L: "lower_holds p (cond_L p n vC vsx vR) L"
    and LL0: "\<forall>k<p. \<forall>i<p. k \<le> i \<longrightarrow> (\<Sum>l\<le>k. L i l * L k l) = ?S i k"
    by (auto simp: cond_L_def)
  from dtrtrs_Nn[OF L T] obtain V where
    V: "holds_cm p n (cond_V p n vC vsx vR) V"
    and LV0: "\<forall>j<n. \<forall>i<p. (\<Sum>k\<le>i. L i k * V k j) = ?T i j"
    by (auto simp: cond_V_def)
  define Sg' where "Sg' = (\<lambda>i j. Sg i j - (\<Sum>l<p. V l j * V l i))"
  have h: "holds_rm n n (cond_sigma p n vsx vC vR) Sg'"
    unfolding Sg'_def by (rule cond_sigma_holds[OF V S])
  have s: "symmetric n Sg'"
    using sym(1) by (simp add: symmetric_def Sg'_def mult.commute)
  have dg: "L i i \<noteq> 0" if "i < p" for i using lower_holdsD(3)[OF L that] .
  have Ssym: "?S i k = ?S k i" if "i < p" "k < p" for i k
    using innov_cov_symmetric[OF sym, of Cm] that by (simp add: symmetric_def)
  have full: "(\<Sum>l<p. lowpart L i l * lowpart L j l) = ?S i j" if "i < p" "j < p" for i j
    by (rule chol_full[OF _ Ssym that]) (use LL0 in simp)
  have LV: "(\<Sum>k<p. lowpart L i k * V k j) = ?T i j" if "j < n" "i < p" for i j
    using LV0 that by (simp add: sum_low)
  have p: "psd n Sg'" if ps: "psd n Sg" and pr: "psd p Rm"
    unfolding psd_def
  proof
    fix x
    from gram_downdate[where L=L and S="?S" and V=V and T="?T" and x=x, OF dg full LV]
    obtain u where Su: "\<And>i. i < p \<Longrightarrow> mat_vec p ?S u i = mat_vec n ?T x i"
      and g: "(\<Sum>i<n. \<Sum>j<n. x i * (\<Sum>l<p. V l j * V l i) * x j) = dot p u (mat_vec n ?T x)"
      by blast
    have Tx: "mat_vec n ?T x i = mat_vec n Cm (mat_vec n Sg x) i" for i
    proof -
      have "mat_vec n ?T x i = (\<Sum>j<n. \<Sum>l<n. Cm i l * (Sg l j * x j))"
        unfolding mat_vec_def
        by (intro sum.cong refl) (use sym(1) in \<open>simp add: sum_distrib_right symmetric_def mult.assoc\<close>)
      also have "\<dots> = (\<Sum>l<n. \<Sum>j<n. Cm i l * (Sg l j * x j))" by (rule sum.swap)
      finally show ?thesis by (simp add: mat_vec_def sum_distrib_left)
    qed
    have "qf 0 n Sg' x = qf 0 n Sg x - (\<Sum>i<n. \<Sum>j<n. x i * (\<Sum>l<p. V l j * V l i) * x j)"
      by (simp add: qf_def Sg'_def atLeast0LessThan algebra_simps sum_subtractf)
    also have "\<dots> = qf 0 n Sg x - dot p u (mat_vec n Cm (mat_vec n Sg x))"
      unfolding g by (simp add: Tx cong: dot_cong)
    also have "0 \<le> \<dots>"
      by (rule downdate_nonneg[OF sym(1) ps pr]) (simp add: Su Tx)
    finally show "0 \<le> qf 0 n Sg' x" .
  qed
  from h s p show ?thesis by blast
qed

lemma pred_sigma_holds:
  assumes A: "holds_rm n n vA Am" and S: "holds_rm n n vs Sg" and Q: "holds_rm n n vQ Qm"
  shows "holds_rm n n (pred_sigma n vs vA vQ) (innov_cov n Am Sg Qm)"
  unfolding holds_rm_def pred_sigma_def
proof (intro allI impI)
  fix i j assume i: "i < n" and j: "j < n"
  let ?tmp = "dgemm Trans NoTrans n n n (Fin 1) vA n vs n (Fin 0) blank n"
  have tmp: "?tmp (a + b * n) = Fin (\<Sum>l<n. Am a l * Sg b l)" if "a < n" "b < n" for a b
  proof -
    have "dsum (\<lambda>l. opm Trans vA n a l * opm NoTrans vs n l b) n = Fin (\<Sum>l<n. Am a l * Sg b l)"
      by (rule dsum_Fin) (simp add: holds_rmD'[OF A that(1)] holds_rmD'[OF S that(2)])
    then show ?thesis by (simp add: dgemm_at[OF that])
  qed
  have "dsum (\<lambda>l. opm NoTrans ?tmp n j l * opm NoTrans vA n l i) n = Fin (\<Sum>l<n. (\<Sum>m<n. Am j m * Sg l m) * Am i l)"
    by (rule dsum_Fin) (simp add: tmp[OF j] holds_rmD'[OF A i])
  moreover have "dcopy (n * n) vQ blank (j + i * n) = Fin (Qm i j)"
    using holds_rmD'[OF Q i j] idx_lt[OF j i] by (simp add: dcopy_def)
  ultimately have "dgemm NoTrans NoTrans n n n (Fin 1) ?tmp n vA n (Fin 1) (dcopy (n * n) vQ blank) n (j + i * n)
      = Fin ((\<Sum>l<n. (\<Sum>m<n. Am j m * Sg l m) * Am i l) + Qm i j)"
    by (simp add: dgemm_at[OF j i])
  moreover have "(\<Sum>l<n. (\<Sum>m<n. Am j m * Sg l m) * Am i l) = (\<Sum>l<n. \<Sum>m<n. Am i l * Sg l m * Am j m)"
    by (intro sum.cong refl) (simp add: sum_distrib_right sum_distrib_left mult_ac)
  ultimately show "dgemm NoTrans NoTrans n n n (Fin 1) ?tmp n vA n (Fin 1) (dcopy (n * n) vQ blank) n (i * n + j)
      = Fin (innov_cov n Am Sg Qm i j)"
    by (simp add: innov_cov_def add.commute)
qed

lemma pred_mu_holds:
  assumes A: "holds_rm n n vA Am" and m: "holds_vec n vmu mu"
  shows "holds_vec n (pred_mu n vmu vA) (mat_vec n Am mu)"
  unfolding holds_vec_def pred_mu_def
proof (intro allI impI)
  fix i assume i: "i < n"
  have "dsum (\<lambda>l. vA (l + i * n) * vmu l) n = Fin (\<Sum>l<n. Am i l * mu l)"
    by (rule dsum_Fin) (simp add: holds_rmD'[OF A i] holds_vecD[OF m])
  then show "dgemv Trans n n (Fin 1) vA n vmu (Fin 0) blank i = Fin (mat_vec n Am mu i)"
    by (simp add: dgemv_T_at[OF i] mat_vec_def)
qed

lemma filt_proj:
  "snd (filt mu_init sigma_init A Q C R data t)
     = (if observed data t then
          cond_sigma (shape3_1 C) (shape3_2 C)
            (restrict (shape3_2 C * shape3_2 C) (fst (snd (fwd mu_init sigma_init A Q C R data t))))
            (restrict (shape3_2 C * shape3_1 C) (slab3 C t)) (restrict (shape3_1 C * shape3_1 C) (slab3 R t))
        else restrict (shape3_2 C * shape3_2 C) (fst (snd (fwd mu_init sigma_init A Q C R data t))))"
  "fst (filt mu_init sigma_init A Q C R data t)
     = (if observed data t then
          cond_mu (shape3_1 C) (shape3_2 C)
            (restrict (shape3_2 C) (fst (fwd mu_init sigma_init A Q C R data t)))
            (restrict (shape3_2 C * shape3_2 C) (fst (snd (fwd mu_init sigma_init A Q C R data t))))
            (restrict (shape3_2 C * shape3_1 C) (slab3 C t)) (restrict (shape3_1 C * shape3_1 C) (slab3 R t))
            (restrict (shape3_1 C) (row2 data t))
        else restrict (shape3_2 C) (fst (fwd mu_init sigma_init A Q C R data t)))"
  by (simp_all add: filt_def cond_pure_def Let_def observed_def split_beta)

lemma fwd_proj:
  "fst (snd (fwd mu_init sigma_init A Q C R data (Suc t)))
     = pred_sigma (shape3_2 C) (restrict (shape3_2 C * shape3_2 C) (snd (filt mu_init sigma_init A Q C R data t)))
         (restrict (shape3_2 C * shape3_2 C) (slab3 A t)) (restrict (shape3_2 C * shape3_2 C) (slab3 Q t))"
  "fst (fwd mu_init sigma_init A Q C R data (Suc t))
     = pred_mu (shape3_2 C) (restrict (shape3_2 C) (fst (filt mu_init sigma_init A Q C R data t)))
         (restrict (shape3_2 C * shape3_2 C) (slab3 A t))"
  by (simp_all add: fwd_Suc fwd_step_def filt_def pred_pure_def split_beta Let_def)

lemma cov_okI:
  assumes "holds_rm n n v M" "symmetric n M" "ps \<Longrightarrow> psd n M"
  shows "cov_ok n ps v"
proof -
  have e: "rd_rm n v i j = M i j" if "i < n" "j < n" for i j by (rule holds_rm_rd[OF assms(1) that])
  show ?thesis
    using assms(2,3) holds_rm_finite[OF assms(1)] symmetric_cong[of n "rd_rm n v" M, OF e] psd_cong[of n "rd_rm n v" M, OF e]
    by (auto simp: cov_ok_def)
qed

lemma cov_okD:
  assumes "cov_ok n ps v"
  shows "holds_rm n n v (rd_rm n v)" "symmetric n (rd_rm n v)" "ps \<Longrightarrow> psd n (rd_rm n v)"
    "holds_rm n n (restrict (n * n) v) (rd_rm n v)"
  using assms by (simp_all add: cov_ok_def finite_holds_rm)

lemma cov_ok_restrict: "cov_ok n ps (restrict (n * n) v) = cov_ok n ps v"
proof -
  have e: "rd_rm n (restrict (n * n) v) i j = rd_rm n v i j" if "i < n" "j < n" for i j
    using rm_idx_lt[OF that] by (simp add: rd_rm_def restrict_def)
  have "finite_on (n * n) (restrict (n * n) v) = finite_on (n * n) v"
    by (simp add: finite_on_def restrict_def)
  then show ?thesis
    using symmetric_cong[of n "rd_rm n (restrict (n * n) v)" "rd_rm n v", OF e]
      psd_cong[of n "rd_rm n (restrict (n * n) v)" "rd_rm n v", OF e]
    by (simp add: cov_ok_def)
qed

lemma filt_cov_step:
  assumes ok: "cov_inputs_ok sigma_init A Q C R"
    and ipd: "innovations_pd mu_init sigma_init A Q C R data"
    and t: "t < shape3_0 C"
    and P: "cov_ok (shape3_2 C) (cov_inputs_psd sigma_init Q C R) (fst (snd (fwd mu_init sigma_init A Q C R data t)))"
  shows "cov_ok (shape3_2 C) (cov_inputs_psd sigma_init Q C R) (snd (filt mu_init sigma_init A Q C R data t))"
proof (cases "observed data t")
  case False
  then show ?thesis using P by (simp add: filt_proj cov_ok_restrict)
next
  case True
  let ?n = "shape3_2 C" and ?p = "shape3_1 C"
  let ?vP = "fst (snd (fwd mu_init sigma_init A Q C R data t))"
  let ?Cm = "rd_rm ?n (slab3 C t)" and ?Rm = "rd_rm ?p (slab3 R t)"
  from ok t have fC: "finite_on (?p * ?n) (slab3 C t)" and fR: "finite_on (?p * ?p) (slab3 R t)"
    and sR: "symmetric ?p ?Rm"
    by (simp_all add: cov_inputs_ok_def)
  have hC: "holds_rm ?p ?n (restrict (?n * ?p) (slab3 C t)) ?Cm"
    using finite_holds_rm[OF fC] by simp
  have hR: "holds_rm ?p ?p (restrict (?p * ?p) (slab3 R t)) ?Rm"
    using finite_holds_rm[OF fR] by simp
  from ipd t True have pd: "pd_from 0 ?p (innov_cov ?n ?Cm (rd_rm ?n ?vP) ?Rm)"
    by (simp add: innovations_pd_def pred_cov_def)
  from cond_sigma_real[OF hC cov_okD(4)[OF P] hR cov_okD(2)[OF P] sR pd] obtain Sg' where
    h: "holds_rm ?n ?n (snd (filt mu_init sigma_init A Q C R data t)) Sg'"
    and s: "symmetric ?n Sg'" and ps: "psd ?n (rd_rm ?n ?vP) \<and> psd ?p ?Rm \<longrightarrow> psd ?n Sg'"
    using True by (auto simp: filt_proj)
  show ?thesis
  proof (rule cov_okI[OF h s])
    assume a: "cov_inputs_psd sigma_init Q C R"
    with t have "psd ?p ?Rm" by (simp add: cov_inputs_psd_def)
    with ps cov_okD(3)[OF P a] show "psd ?n Sg'" by simp
  qed
qed

lemma pred_cov_step:
  assumes ok: "cov_inputs_ok sigma_init A Q C R"
    and t: "t < shape3_0 C"
    and F: "cov_ok (shape3_2 C) (cov_inputs_psd sigma_init Q C R) (snd (filt mu_init sigma_init A Q C R data t))"
  shows "cov_ok (shape3_2 C) (cov_inputs_psd sigma_init Q C R)
           (fst (snd (fwd mu_init sigma_init A Q C R data (Suc t)))) \<and>
         holds_rm (shape3_2 C) (shape3_2 C) (fst (snd (fwd mu_init sigma_init A Q C R data (Suc t))))
           (innov_cov (shape3_2 C) (rd_rm (shape3_2 C) (slab3 A t))
              (filt_cov mu_init sigma_init A Q C R data t) (rd_rm (shape3_2 C) (slab3 Q t)))"
proof -
  let ?n = "shape3_2 C"
  let ?Am = "rd_rm ?n (slab3 A t)" and ?Qm = "rd_rm ?n (slab3 Q t)"
  let ?Fm = "rd_rm ?n (snd (filt mu_init sigma_init A Q C R data t))"
  from ok t have fA: "finite_on (?n * ?n) (slab3 A t)" and fQ: "finite_on (?n * ?n) (slab3 Q t)"
    and sQ: "symmetric ?n ?Qm"
    by (simp_all add: cov_inputs_ok_def)
  have hA: "holds_rm ?n ?n (restrict (?n * ?n) (slab3 A t)) ?Am"
    using finite_holds_rm[OF fA] by simp
  have hQ: "holds_rm ?n ?n (restrict (?n * ?n) (slab3 Q t)) ?Qm"
    using finite_holds_rm[OF fQ] by simp
  have h: "holds_rm ?n ?n (fst (snd (fwd mu_init sigma_init A Q C R data (Suc t)))) (innov_cov ?n ?Am ?Fm ?Qm)"
    unfolding fwd_proj by (rule pred_sigma_holds[OF hA cov_okD(4)[OF F] hQ])
  have "cov_ok ?n (cov_inputs_psd sigma_init Q C R) (fst (snd (fwd mu_init sigma_init A Q C R data (Suc t))))"
  proof (rule cov_okI[OF h innov_cov_symmetric[OF cov_okD(2)[OF F] sQ]])
    assume a: "cov_inputs_psd sigma_init Q C R"
    with t have "psd ?n ?Qm" by (simp add: cov_inputs_psd_def)
    with cov_okD(3)[OF F a] show "psd ?n (innov_cov ?n ?Am ?Fm ?Qm)" by (rule innov_cov_psd)
  qed
  with h show ?thesis by (simp add: filt_cov_def)
qed

lemma fwd_cov_ok:
  assumes ok: "cov_inputs_ok sigma_init A Q C R"
    and ipd: "innovations_pd mu_init sigma_init A Q C R data"
  shows "t \<le> shape3_0 C \<Longrightarrow>
           cov_ok (shape3_2 C) (cov_inputs_psd sigma_init Q C R) (fst (snd (fwd mu_init sigma_init A Q C R data t)))"
proof (induction t)
  case 0
  from ok show ?case
    by (simp add: fwd_0 cov_ok_def cov_inputs_ok_def cov_inputs_psd_def)
next
  case (Suc t)
  then have t: "t < shape3_0 C" by simp
  from Suc have "cov_ok (shape3_2 C) (cov_inputs_psd sigma_init Q C R) (fst (snd (fwd mu_init sigma_init A Q C R data t)))"
    by simp
  from pred_cov_step[OF ok t filt_cov_step[OF ok ipd t this]] show ?case by simp
qed

lemma filt_cov_ok:
  assumes ok: "cov_inputs_ok sigma_init A Q C R"
    and ipd: "innovations_pd mu_init sigma_init A Q C R data"
    and t: "t < shape3_0 C"
  shows "cov_ok (shape3_2 C) (cov_inputs_psd sigma_init Q C R) (snd (filt mu_init sigma_init A Q C R data t))"
  using filt_cov_step[OF ok ipd t fwd_cov_ok[OF ok ipd]] t by simp

lemma each_column_LT:
  assumes L: "lower_holds p a L" and b: "holds_cm p n b B" and c: "c \<le> n"
  shows "\<exists>V. (\<forall>j<n. \<forall>i<p. each_column c p (trsv_LT p p a p) b (i + j * p) = Fin (if j < c then V i j else B i j)) \<and>
             (\<forall>j<c. \<forall>i<p. (\<Sum>k = i..<p. L k i * V k j) = B i j)"
  using c
proof (induction c)
  case 0
  then show ?case using b by (simp add: holds_cm_def)
next
  case (Suc c)
  then obtain V where
    v: "\<And>j i. j < n \<Longrightarrow> i < p \<Longrightarrow> each_column c p (trsv_LT p p a p) b (i + j * p) = Fin (if j < c then V i j else B i j)"
    and e: "\<And>j i. j < c \<Longrightarrow> i < p \<Longrightarrow> (\<Sum>k = i..<p. L k i * V k j) = B i j"
    and c: "c < n" by auto
  let ?b = "each_column c p (trsv_LT p p a p) b"
  have bc: "?b (c * p + i) = Fin (B i c)" if "i < p" for i
    using v[OF c that] by (simp add: add.commute)
  have "\<exists>x. (\<forall>i'<p. trsv_LT p p a p (c * p) ?b (c * p + i') = Fin (if p - p \<le> i' then x i' else B i' c)) \<and>
             (\<forall>i'<p. p - p \<le> i' \<longrightarrow> (\<Sum>k = i'..<p. L k i' * x k) = B i' c) \<and>
             (\<forall>z. z < c * p \<or> c * p + p \<le> z \<longrightarrow> trsv_LT p p a p (c * p) ?b z = ?b z)"
    by (rule trsv_LT_solves[where L=L and bv="\<lambda>i. B i c"])
       (simp_all add: lower_holdsD[OF L] bc)
  then obtain x where
    x1: "\<And>i'. i' < p \<Longrightarrow> trsv_LT p p a p (c * p) ?b (c * p + i') = Fin (x i')"
    and x2: "\<And>i'. i' < p \<Longrightarrow> (\<Sum>k = i'..<p. L k i' * x k) = B i' c"
    and x3: "\<And>z. z < c * p \<or> c * p + p \<le> z \<Longrightarrow> trsv_LT p p a p (c * p) ?b z = ?b z"
    by (elim exE conjE) simp
  define V' where "V' = (\<lambda>i j. if j = c then x i else V i j)"
  have 1: "each_column (Suc c) p (trsv_LT p p a p) b (i + j * p) = Fin (if j < Suc c then V' i j else B i j)"
    if "j < n" "i < p" for i j
  proof (cases "j = c")
    case True
    then show ?thesis using x1[OF that(2)] by (simp add: V'_def add.commute)
  next
    case False
    have "i + j * p < c * p \<or> c * p + p \<le> i + j * p"
    proof (cases "j < c")
      case True
      then have "Suc j \<le> c" by simp
      then have "Suc j * p \<le> c * p" by (rule mult_le_mono1)
      then show ?thesis using that(2) by simp
    next
      case False
      with \<open>j \<noteq> c\<close> have "Suc c \<le> j" by simp
      then have "Suc c * p \<le> j * p" by (rule mult_le_mono1)
      then show ?thesis by simp
    qed
    from x3[OF this] show ?thesis using v[OF that] False by (auto simp: V'_def)
  qed
  have 2: "(\<Sum>k = i..<p. L k i * V' k j) = B i j" if "j < Suc c" "i < p" for i j
    using that x2 e by (cases "j = c") (auto simp: V'_def)
  from 1 2 show ?case by blast
qed

lemma dpotrs_solves:
  fixes S :: rmat
  assumes L: "lower_holds n a L"
    and LL: "\<And>i j. i < n \<Longrightarrow> j < n \<Longrightarrow> (\<Sum>l<n. lowpart L i l * lowpart L j l) = S i j"
    and b: "holds_cm n m b B"
  shows "\<exists>X. holds_cm n m (fst (dpotrs n m a n b n)) X \<and>
             (\<forall>j<m. \<forall>i<n. (\<Sum>k<n. S i k * X k j) = B i j)"
proof -
  from each_column_LN[OF L b order_refl] obtain Y where
    y1: "\<forall>j<m. \<forall>i<n. each_column m n (trsv_LN n a n) b (i + j * n) = Fin (if j < m then Y i j else B i j)"
    and y2: "\<forall>j<m. \<forall>i<n. (\<Sum>k\<le>i. L i k * Y k j) = B i j" by blast
  from y1 have hY: "holds_cm n m (each_column m n (trsv_LN n a n) b) Y"
    by (simp add: holds_cm_def)
  from each_column_LT[OF L hY order_refl] obtain X where
    x1: "\<forall>j<m. \<forall>i<n. each_column m n (trsv_LT n n a n) (each_column m n (trsv_LN n a n) b) (i + j * n)
           = Fin (if j < m then X i j else Y i j)"
    and x2: "\<forall>j<m. \<forall>i<n. (\<Sum>k = i..<n. L k i * X k j) = Y i j" by blast
  have h: "holds_cm n m (fst (dpotrs n m a n b n)) X"
    using x1 by (simp add: holds_cm_def dpotrs_def dtrsm_L_def)
  have "(\<Sum>k<n. S i k * X k j) = B i j" if j: "j < m" and i: "i < n" for i j
  proof (rule solve_twice[where Lz="lowpart L" and z="\<lambda>k. Y k j" and w="\<lambda>k. X k j" and r="\<lambda>i. B i j", OF LL _ _ i])
    fix i' assume i': "i' < n"
    show "(\<Sum>k<n. lowpart L i' k * Y k j) = B i' j" using y2 j i' by (simp add: sum_low)
    show "(\<Sum>k<n. lowpart L k i' * X k j) = Y i' j" using x2 j i' by (simp add: sum_low_T)
  qed
  with h show ?thesis by blast
qed

lemma daxpy_vec:
  assumes "holds_vec n x xv" "holds_vec n y yv"
  shows "holds_vec n (daxpy n (Fin (- 1)) x y) (\<lambda>i. yv i - xv i)"
  using assms by (simp add: holds_vec_def daxpy_def)

lemma daxpy_rm:
  assumes "holds_rm n n x X" "holds_rm n n y Y"
  shows "holds_rm n n (daxpy (n * n) (Fin (- 1)) x y) (\<lambda>i j. Y i j - X i j)"
  using assms by (simp add: holds_rm_def daxpy_def rm_idx_lt)

lemma dcopy_rm_cm:
  assumes "holds_rm n n x X"
  shows "holds_cm n n (dcopy (n * n) x y) (mat_T X)"
  using assms by (simp add: holds_rm_def holds_cm_def dcopy_def idx_lt mat_T_def add.commute)

lemma dgemm_TN0_holds:
  assumes A: "holds_rm p n vA Am" and S: "holds_rm n n vs Sg"
  shows "holds_cm p n (dgemm Trans NoTrans p n n (Fin 1) vA n vs n (Fin 0) c p) (\<lambda>i j. \<Sum>l<n. Am i l * Sg j l)"
  unfolding holds_cm_def
proof (intro allI impI)
  fix i j assume i: "i < p" and j: "j < n"
  have "dsum (\<lambda>l. opm Trans vA n i l * opm NoTrans vs n l j) n = Fin (\<Sum>l<n. Am i l * Sg j l)"
    by (rule dsum_Fin) (simp add: holds_rmD'[OF A i] holds_rmD'[OF S j])
  then show "dgemm Trans NoTrans p n n (Fin 1) vA n vs n (Fin 0) c p (i + j * p) = Fin (\<Sum>l<n. Am i l * Sg j l)"
    by (simp add: dgemm_at[OF i j])
qed

lemma holds_cm_cong: "holds_cm r c v f \<Longrightarrow> (\<And>i j. i < r \<Longrightarrow> j < c \<Longrightarrow> f i j = g i j) \<Longrightarrow> holds_cm r c v g"
  by (simp add: holds_cm_def)

lemma rts_gainT_real:
  assumes hA: "holds_rm n n vA Am" and hF: "holds_rm n n vfs F" and hP: "holds_rm n n vps P"
    and sP: "symmetric n P" and pd: "pd_from 0 n P"
  shows "\<exists>X. holds_cm n n (rts_gainT n vA vfs vps c c2) X \<and>
             (\<forall>j<n. \<forall>i<n. (\<Sum>k<n. P i k * X k j) = (\<Sum>l<n. Am i l * F j l))"
proof -
  have cP: "holds_cm n n (dcopy (n * n) vps c2) P"
    by (rule holds_cm_cong[OF dcopy_rm_cm[OF hP]]) (use sP in \<open>simp add: mat_T_def symmetric_def\<close>)
  from dpotrf_pd[OF cP pd] obtain L where
    L: "lower_holds n (fst (dpotrf n (dcopy (n * n) vps c2) n)) L"
    and LL0: "\<forall>k<n. \<forall>i<n. k \<le> i \<longrightarrow> (\<Sum>l\<le>k. L i l * L k l) = P i k"
    by blast
  have Psym: "P i k = P k i" if "i < n" "k < n" for i k
    using sP that by (simp add: symmetric_def)
  have full: "(\<Sum>l<n. lowpart L i l * lowpart L j l) = P i j" if "i < n" "j < n" for i j
    by (rule chol_full[OF _ Psym that]) (use LL0 in simp)
  from dpotrs_solves[OF L full dgemm_TN0_holds[OF hA hF]]
  show ?thesis by (simp add: rts_gainT_def)
qed

lemma rts_mu_real:
  assumes X: "holds_cm n n gT X" and f: "holds_vec n vfm mf" and p: "holds_vec n vpm mp"
    and s: "holds_vec n vsm ms"
  shows "holds_vec n (rts_mu n gT vfm vpm vsm) (\<lambda>i. mf i + (\<Sum>l<n. X l i * (ms l - mp l)))"
  unfolding holds_vec_def rts_mu_def
proof (intro allI impI)
  fix i assume i: "i < n"
  note d = daxpy_vec[OF s p]
  have "dsum (\<lambda>l. gT (l + i * n) * daxpy n (Fin (- 1)) vsm vpm l) n = Fin (\<Sum>l<n. X l i * (mp l - ms l))"
    by (rule dsum_Fin) (simp add: holds_cmD[OF X _ i] holds_vecD[OF d])
  moreover have "- (\<Sum>l<n. X l i * (mp l - ms l)) = (\<Sum>l<n. X l i * (ms l - mp l))"
    by (simp add: sum_negf[symmetric] right_diff_distrib)
  ultimately show "dgemv Trans n n (Fin (- 1)) gT n (daxpy n (Fin (- 1)) vsm vpm) (Fin 1) vfm i
      = Fin (mf i + (\<Sum>l<n. X l i * (ms l - mp l)))"
    using holds_vecD[OF f i] by (simp add: dgemv_T_at[OF i])
qed

lemma rts_sigma_real:
  assumes X: "holds_cm n n gT X" and F: "holds_rm n n vfs F" and P: "holds_rm n n vps P"
    and S: "holds_rm n n vss Ps"
  shows "holds_rm n n (rts_sigma n gT c2 vfs vps vss)
           (\<lambda>i j. F i j + (\<Sum>l<n. \<Sum>m<n. X m i * (Ps m l - P m l) * X l j))"
  unfolding holds_rm_def rts_sigma_def
proof (intro allI impI)
  fix i j assume i: "i < n" and j: "j < n"
  let ?D = "daxpy (n * n) (Fin (- 1)) vss vps"
  let ?W = "dgemm NoTrans NoTrans n n n (Fin (- 1)) ?D n gT n (Fin 0) c2 n"
  note D = daxpy_rm[OF S P]
  have W: "?W (a + b * n) = Fin (- (\<Sum>m<n. (P m a - Ps m a) * X m b))" if "a < n" "b < n" for a b
  proof -
    have "dsum (\<lambda>l. opm NoTrans ?D n a l * opm NoTrans gT n l b) n = Fin (\<Sum>m<n. (P m a - Ps m a) * X m b)"
      by (rule dsum_Fin) (simp add: holds_rmD'[OF D _ that(1)] holds_cmD[OF X _ that(2)])
    then show ?thesis by (simp add: dgemm_at[OF that])
  qed
  have "dsum (\<lambda>l. opm Trans gT n j l * opm NoTrans ?W n l i) n
      = Fin (\<Sum>l<n. X l j * - (\<Sum>m<n. (P m l - Ps m l) * X m i))"
    by (rule dsum_Fin) (simp add: holds_cmD[OF X _ j] W[OF _ i])
  moreover have "(\<Sum>l<n. X l j * - (\<Sum>m<n. (P m l - Ps m l) * X m i))
      = (\<Sum>l<n. \<Sum>m<n. X m i * (Ps m l - P m l) * X l j)"
    by (intro sum.cong refl) (simp add: sum_negf[symmetric] sum_distrib_left algebra_simps)
  ultimately have "dgemm Trans NoTrans n n n (Fin 1) gT n ?W n (Fin 1) vfs n (j + i * n)
      = Fin (F i j + (\<Sum>l<n. \<Sum>m<n. X m i * (Ps m l - P m l) * X l j))"
    using holds_rmD'[OF F i j] by (simp add: dgemm_at[OF j i])
  then show "dgemm Trans NoTrans n n n (Fin 1) gT n ?W n (Fin 1) vfs n (i * n + j)
      = Fin (F i j + (\<Sum>l<n. \<Sum>m<n. X m i * (Ps m l - P m l) * X l j))"
    by (simp add: add.commute)
qed

lemma stats_pure_real:
  assumes X: "holds_cm n n gT X" and S: "holds_rm n n vPkns Ps"
    and k: "holds_vec n vmk mk" and kn: "holds_vec n vmkn mkn"
  shows "holds_rm n n (stats_pure n vmk vmkn vPkns gT c) (\<lambda>i j. (\<Sum>l<n. Ps i l * X l j) + mkn i * mk j)"
  unfolding holds_rm_def stats_pure_def
proof (intro allI impI)
  fix i j assume i: "i < n" and j: "j < n"
  have m: "(j + i * n) mod n = j" "(j + i * n) div n = i" using j by simp_all
  have "dsum (\<lambda>l. opm Trans gT n j l * opm NoTrans vPkns n l i) n = Fin (\<Sum>l<n. X l j * Ps i l)"
    by (rule dsum_Fin) (simp add: holds_cmD[OF X _ j] holds_rmD'[OF S i])
  then have "dgemm Trans NoTrans n n n (Fin 1) gT n vPkns n (Fin 0) c n (j + i * n) = Fin (\<Sum>l<n. X l j * Ps i l)"
    by (simp add: dgemm_at[OF j i])
  then have "dger n n (Fin 1) vmk vmkn (dgemm Trans NoTrans n n n (Fin 1) gT n vPkns n (Fin 0) c n) n (j + i * n)
      = Fin ((\<Sum>l<n. X l j * Ps i l) + mk j * mkn i)"
    using i j holds_vecD[OF k j] holds_vecD[OF kn i] by (simp add: dger_def m)
  moreover have "(\<Sum>l<n. X l j * Ps i l) = (\<Sum>l<n. Ps i l * X l j)"
    by (simp add: mult.commute)
  ultimately show "dger n n (Fin 1) vmk vmkn (dgemm Trans NoTrans n n n (Fin 1) gT n vPkns n (Fin 0) c n) n (i * n + j)
      = Fin ((\<Sum>l<n. Ps i l * X l j) + mkn i * mk j)"
    by (simp add: add.commute mult.commute)
qed

lemma rts_step_values:
  "rts_step n t s (Buf_temp_nn, 0)
     = rts_gainT n (s (Buf_A, t)) (s (Buf_smoothed_sigmas, t)) (s (Buf_sigma_predicts, t + 1))
         (s (Buf_temp_nn, 0)) (s (Buf_temp_nn2, 0))"
  "rts_step n t s (Buf_smoothed_mus, t)
     = rts_mu n (rts_step n t s (Buf_temp_nn, 0)) (s (Buf_smoothed_mus, t)) (s (Buf_mu_predicts, t + 1))
         (s (Buf_smoothed_mus, t + 1))"
  "rts_step n t s (Buf_smoothed_sigmas, t)
     = rts_sigma n (rts_step n t s (Buf_temp_nn, 0))
         (fst (dpotrf n (dcopy (n * n) (s (Buf_sigma_predicts, t + 1)) (s (Buf_temp_nn2, 0))) n))
         (s (Buf_smoothed_sigmas, t)) (s (Buf_sigma_predicts, t + 1)) (s (Buf_smoothed_sigmas, t + 1))"
  by (simp_all add: rts_step_def rts_backward_step_def Let_def split_beta store_apply
      rts_gainT_def rts_mu_def rts_sigma_def)

lemma rts_step_frame:
  assumes "q \<noteq> (Buf_smoothed_mus, t)" "q \<noteq> (Buf_smoothed_sigmas, t)" "q \<noteq> (Buf_mu_predicts, t + 1)"
    "q \<noteq> (Buf_sigma_predicts, t + 1)" "q \<noteq> (Buf_temp_nn, 0)" "q \<noteq> (Buf_temp_nn2, 0)"
  shows "rts_step n t s q = s q"
  using assms by (simp add: rts_step_def rts_backward_step_frame)

lemma stats_step_values:
  "stats_step m n t s (Buf_ExxnT, t)
     = stats_pure n (rts_step m t s (Buf_smoothed_mus, t)) (rts_step m t s (Buf_smoothed_mus, t + 1))
         (rts_step m t s (Buf_smoothed_sigmas, t + 1)) (rts_step m t s (Buf_temp_nn, 0))
         (rts_step m t s (Buf_ExxnT, t))"
  by (simp add: stats_step_def set_dynamics_stats_def Let_def store_apply stats_pure_def)

lemma stats_step_frame:
  assumes "q \<noteq> (Buf_ExxnT, t)"
  shows "stats_step m n t s q = rts_step m t s q"
  using assms by (simp add: stats_step_def Let_def set_dynamics_stats_frame)

lemma tpn_vec:
  assumes "symmetric n F"
  shows "mat_vec n (\<lambda>i j. \<Sum>l<n. Am i l * F j l) x i = mat_vec n Am (mat_vec n F x) i"
proof -
  have "mat_vec n (\<lambda>i j. \<Sum>l<n. Am i l * F j l) x i = (\<Sum>j<n. \<Sum>l<n. Am i l * (F l j * x j))"
    unfolding mat_vec_def
    by (intro sum.cong refl) (use assms in \<open>simp add: sum_distrib_right symmetric_def mult.assoc\<close>)
  also have "\<dots> = (\<Sum>l<n. \<Sum>j<n. Am i l * (F l j * x j))" by (rule sum.swap)
  finally show ?thesis by (simp add: mat_vec_def sum_distrib_left)
qed

lemma congruence_qf:
  "(\<Sum>i<n. \<Sum>j<n. x i * (\<Sum>l<n. \<Sum>m<n. X m i * M m l * X l j) * x j) = qf 0 n M (mat_vec n X x)"
proof -
  have "(\<Sum>i<n. \<Sum>j<n. x i * (\<Sum>l<n. \<Sum>m<n. X m i * M m l * X l j) * x j)
      = (\<Sum>i<n. \<Sum>j<n. \<Sum>l<n. \<Sum>m<n. (X m i * x i) * M m l * (X l j * x j))"
    by (intro sum.cong refl) (simp add: sum_distrib_left sum_distrib_right mult_ac)
  also have "\<dots> = (\<Sum>i<n. \<Sum>l<n. \<Sum>j<n. \<Sum>m<n. (X m i * x i) * M m l * (X l j * x j))"
    by (intro sum.cong refl sum.swap)
  also have "\<dots> = (\<Sum>i<n. \<Sum>l<n. \<Sum>m<n. \<Sum>j<n. (X m i * x i) * M m l * (X l j * x j))"
    by (intro sum.cong refl sum.swap)
  also have "\<dots> = (\<Sum>l<n. \<Sum>i<n. \<Sum>m<n. \<Sum>j<n. (X m i * x i) * M m l * (X l j * x j))"
    by (rule sum.swap)
  also have "\<dots> = (\<Sum>l<n. \<Sum>m<n. \<Sum>i<n. \<Sum>j<n. (X m i * x i) * M m l * (X l j * x j))"
    by (intro sum.cong refl sum.swap)
  also have "\<dots> = (\<Sum>l<n. \<Sum>m<n. (\<Sum>i<n. X m i * x i) * M m l * (\<Sum>j<n. X l j * x j))"
    by (intro sum.cong refl) (simp add: sum_product sum_distrib_left sum_distrib_right mult_ac)
  also have "\<dots> = (\<Sum>m<n. \<Sum>l<n. (\<Sum>i<n. X m i * x i) * M m l * (\<Sum>j<n. X l j * x j))"
    by (rule sum.swap)
  finally show ?thesis by (simp add: qf_def mat_vec_def atLeast0LessThan)
qed

lemma smooth_cov_real:
  fixes F P Ps X Am Qm :: rmat
  assumes sF: "symmetric n F" and sP: "symmetric n P" and sS: "symmetric n Ps"
    and PX: "\<And>i j. i < n \<Longrightarrow> j < n \<Longrightarrow> (\<Sum>k<n. P i k * X k j) = (\<Sum>l<n. Am i l * F j l)"
    and Pdef: "\<And>i j. i < n \<Longrightarrow> j < n \<Longrightarrow> P i j = innov_cov n Am F Qm i j"
  shows "symmetric n (\<lambda>i j. F i j + (\<Sum>l<n. \<Sum>m<n. X m i * (Ps m l - P m l) * X l j))"
    and "psd n F \<Longrightarrow> psd n Qm \<Longrightarrow> psd n Ps \<Longrightarrow>
         psd n (\<lambda>i j. F i j + (\<Sum>l<n. \<Sum>m<n. X m i * (Ps m l - P m l) * X l j))"
proof -
  let ?N = "\<lambda>i j. F i j + (\<Sum>l<n. \<Sum>m<n. X m i * (Ps m l - P m l) * X l j)"
  show "symmetric n ?N"
    unfolding symmetric_def
  proof (intro allI impI)
    fix i j assume "i < n" "j < n"
    have "(\<Sum>l<n. \<Sum>m<n. X m j * (Ps m l - P m l) * X l i) = (\<Sum>l<n. \<Sum>m<n. X l i * (Ps l m - P l m) * X m j)"
      by (intro sum.cong refl) (use sP sS in \<open>simp add: symmetric_def mult_ac\<close>)
    also have "\<dots> = (\<Sum>m<n. \<Sum>l<n. X l i * (Ps l m - P l m) * X m j)" by (rule sum.swap)
    finally show "?N i j = ?N j i" using sF \<open>i < n\<close> \<open>j < n\<close> by (simp add: symmetric_def)
  qed
  assume pF: "psd n F" and pQ: "psd n Qm" and pS: "psd n Ps"
  show "psd n ?N"
    unfolding psd_def
  proof
    fix x
    define u where "u = mat_vec n X x"
    have Pu: "mat_vec n P u i = mat_vec n Am (mat_vec n F x) i" if i: "i < n" for i
    proof -
      have "mat_vec n P u i = (\<Sum>k<n. \<Sum>j<n. (P i k * X k j) * x j)"
        by (simp add: mat_vec_def u_def sum_distrib_left mult.assoc)
      also have "\<dots> = (\<Sum>j<n. \<Sum>k<n. (P i k * X k j) * x j)" by (rule sum.swap)
      also have "\<dots> = (\<Sum>j<n. (\<Sum>k<n. P i k * X k j) * x j)" by (simp add: sum_distrib_right)
      also have "\<dots> = mat_vec n (\<lambda>i j. \<Sum>l<n. Am i l * F j l) x i"
        unfolding mat_vec_def by (intro sum.cong refl) (simp add: PX[OF i])
      finally show ?thesis by (simp add: tpn_vec[OF sF])
    qed
    have Su: "mat_vec n (innov_cov n Am F Qm) u i = mat_vec n Am (mat_vec n F x) i" if i: "i < n" for i
      using Pu[OF i] mat_vec_cong[of n P i "innov_cov n Am F Qm" u u] Pdef[OF i] by simp
    have "qf 0 n ?N x = qf 0 n F x + (\<Sum>i<n. \<Sum>j<n. x i * (\<Sum>l<n. \<Sum>m<n. X m i * (Ps m l - P m l) * X l j) * x j)"
      by (simp add: qf_def atLeast0LessThan distrib_left distrib_right sum.distrib)
    also have "\<dots> = qf 0 n F x + qf 0 n (\<lambda>m l. Ps m l - P m l) u"
      by (simp add: congruence_qf u_def)
    also have "\<dots> = (qf 0 n F x - dot n u (mat_vec n P u)) + qf 0 n Ps u"
      by (simp add: qf_def atLeast0LessThan qf_dot[symmetric] algebra_simps sum_subtractf)
    also have "dot n u (mat_vec n P u) = dot n u (mat_vec n Am (mat_vec n F x))"
      by (rule dot_cong[OF refl Pu])
    finally have "qf 0 n ?N x = (qf 0 n F x - dot n u (mat_vec n Am (mat_vec n F x))) + qf 0 n Ps u" .
    moreover have "0 \<le> qf 0 n F x - dot n u (mat_vec n Am (mat_vec n F x))"
      by (rule downdate_nonneg[OF sF pF pQ Su])
    moreover have "0 \<le> qf 0 n Ps u" using pS by (simp add: psd_def)
    ultimately show "0 \<le> qf 0 n ?N x" by simp
  qed
qed

lemma cond_mu_finite:
  assumes C: "holds_rm p n vC Cm" and S: "holds_rm n n vsx Sg" and R: "holds_rm p p vR Rm"
    and mx: "holds_vec n vmx mu" and y: "holds_vec p vy yv"
    and sym: "symmetric n Sg" "symmetric p Rm"
    and pd: "pd_from 0 p (innov_cov n Cm Sg Rm)"
  shows "finite_on n (cond_mu p n vmx vsx vC vR vy)"
proof -
  from cond_reals[OF C S R mx y sym pd] obtain w where
    "holds_vec n (cond_mu p n vmx vsx vC vR vy) (\<lambda>i. mu i + (\<Sum>l<p. (\<Sum>m<n. Cm l m * Sg i m) * w l))"
    by (elim exE conjE) (rule that)
  then show ?thesis by (rule holds_vec_finite)
qed

lemma finite_on_restrict [simp]: "finite_on n (restrict n v) = finite_on n v"
  by (simp add: finite_on_def restrict_def)

lemma finite_on_eq_on: "eq_on n v w \<Longrightarrow> finite_on n w \<Longrightarrow> finite_on n v"
  by (simp add: finite_on_def eq_on_def)

lemma filt_mean_step:
  assumes ok: "cov_inputs_ok sigma_init A Q C R"
    and ipd: "innovations_pd mu_init sigma_init A Q C R data"
    and mok: "mean_inputs_ok mu_init C data"
    and t: "t < shape3_0 C"
    and m: "finite_on (shape3_2 C) (fst (fwd mu_init sigma_init A Q C R data t))"
  shows "finite_on (shape3_2 C) (fst (filt mu_init sigma_init A Q C R data t))"
proof (cases "observed data t")
  case False
  then show ?thesis using m by (simp add: filt_proj)
next
  case True
  let ?n = "shape3_2 C" and ?p = "shape3_1 C"
  let ?vP = "fst (snd (fwd mu_init sigma_init A Q C R data t))"
  let ?Cm = "rd_rm ?n (slab3 C t)" and ?Rm = "rd_rm ?p (slab3 R t)"
  note P = fwd_cov_ok[OF ok ipd less_imp_le[OF t]]
  from ok t have fC: "finite_on (?p * ?n) (slab3 C t)" and fR: "finite_on (?p * ?p) (slab3 R t)"
    and sR: "symmetric ?p ?Rm"
    by (simp_all add: cov_inputs_ok_def)
  have hC: "holds_rm ?p ?n (restrict (?n * ?p) (slab3 C t)) ?Cm"
    using finite_holds_rm[OF fC] by simp
  have hR: "holds_rm ?p ?p (restrict (?p * ?p) (slab3 R t)) ?Rm"
    using finite_holds_rm[OF fR] by simp
  from ipd t True have pd: "pd_from 0 ?p (innov_cov ?n ?Cm (rd_rm ?n ?vP) ?Rm)"
    by (simp add: innovations_pd_def pred_cov_def)
  from mok t True have "finite_on ?p (row2 data t)" by (simp add: mean_inputs_ok_def)
  then have hy: "holds_vec ?p (restrict ?p (row2 data t)) (rd_vec (row2 data t))"
    using finite_holds_vec by simp
  have hm: "holds_vec ?n (restrict ?n (fst (fwd mu_init sigma_init A Q C R data t)))
      (rd_vec (fst (fwd mu_init sigma_init A Q C R data t)))"
    using finite_holds_vec[OF m] by simp
  from cond_mu_finite[OF hC cov_okD(4)[OF P] hR hm hy cov_okD(2)[OF P] sR pd]
  show ?thesis using True by (simp add: filt_proj)
qed

lemma pred_mean_step:
  assumes ok: "cov_inputs_ok sigma_init A Q C R"
    and t: "t < shape3_0 C"
    and f: "finite_on (shape3_2 C) (fst (filt mu_init sigma_init A Q C R data t))"
  shows "finite_on (shape3_2 C) (fst (fwd mu_init sigma_init A Q C R data (Suc t)))"
proof -
  let ?n = "shape3_2 C"
  from ok t have fA: "finite_on (?n * ?n) (slab3 A t)" by (simp add: cov_inputs_ok_def)
  have hA: "holds_rm ?n ?n (restrict (?n * ?n) (slab3 A t)) (rd_rm ?n (slab3 A t))"
    using finite_holds_rm[OF fA] by simp
  have hf: "holds_vec ?n (restrict ?n (fst (filt mu_init sigma_init A Q C R data t)))
      (rd_vec (fst (filt mu_init sigma_init A Q C R data t)))"
    using finite_holds_vec[OF f] by simp
  show ?thesis unfolding fwd_proj by (rule holds_vec_finite[OF pred_mu_holds[OF hA hf]])
qed

lemma fwd_mean_ok:
  assumes ok: "cov_inputs_ok sigma_init A Q C R"
    and ipd: "innovations_pd mu_init sigma_init A Q C R data"
    and mok: "mean_inputs_ok mu_init C data"
  shows "t \<le> shape3_0 C \<Longrightarrow> finite_on (shape3_2 C) (fst (fwd mu_init sigma_init A Q C R data t))"
proof (induction t)
  case 0
  from mok show ?case by (simp add: fwd_0 mean_inputs_ok_def)
next
  case (Suc t)
  then have t: "t < shape3_0 C" by simp
  from Suc have "finite_on (shape3_2 C) (fst (fwd mu_init sigma_init A Q C R data t))" by simp
  from pred_mean_step[OF ok t filt_mean_step[OF ok ipd mok t this]] show ?case .
qed

lemma filt_mean_ok:
  assumes ok: "cov_inputs_ok sigma_init A Q C R"
    and ipd: "innovations_pd mu_init sigma_init A Q C R data"
    and mok: "mean_inputs_ok mu_init C data"
    and t: "t < shape3_0 C"
  shows "finite_on (shape3_2 C) (fst (filt mu_init sigma_init A Q C R data t))"
  using filt_mean_step[OF ok ipd mok t fwd_mean_ok[OF ok ipd mok]] t by simp

lemma cov_ok_eq_on:
  assumes e: "eq_on (n * n) v w" and w: "cov_ok n ps w"
  shows "cov_ok n ps v"
proof (rule cov_okI[OF holds_rm_eq_on[OF e cov_okD(1)[OF w]] cov_okD(2)[OF w]])
  assume ps
  then show "psd n (rd_rm n w)" by (rule cov_okD(3)[OF w])
qed

lemma rts_step_back_inv:
  assumes ok: "cov_inputs_ok sigma_init A Q C R"
    and ipd: "innovations_pd mu_init sigma_init A Q C R data"
    and ppd: "predictions_pd mu_init sigma_init A Q C R data"
    and k: "Suc k < shape3_0 C"
    and inv: "back_inv mu_init sigma_init A Q C R data (Suc k) s"
  shows "back_inv mu_init sigma_init A Q C R data k (rts_step (shape3_2 C) k s) \<and>
         (\<exists>X. holds_cm (shape3_2 C) (shape3_2 C) (rts_step (shape3_2 C) k s (Buf_temp_nn, 0)) X \<and>
              (\<forall>j<shape3_2 C. \<forall>i<shape3_2 C.
                 (\<Sum>k'<shape3_2 C. pred_cov mu_init sigma_init A Q C R data (Suc k) i k' * X k' j)
                 = (\<Sum>l<shape3_2 C. rd_rm (shape3_2 C) (slab3 A k) i l * filt_cov mu_init sigma_init A Q C R data k j l)))"
proof -
  let ?n = "shape3_2 C" and ?T = "shape3_0 C"
  let ?ps = "cov_inputs_psd sigma_init Q C R" and ?mf = "mean_inputs_ok mu_init C data"
  let ?fwd = "fwd mu_init sigma_init A Q C R data" and ?filt = "filt mu_init sigma_init A Q C R data"
  let ?Am = "rd_rm ?n (slab3 A k)" and ?Qm = "rd_rm ?n (slab3 Q k)"
  let ?F = "filt_cov mu_init sigma_init A Q C R data k"
  let ?P = "pred_cov mu_init sigma_init A Q C R data (Suc k)"
  let ?Ps = "rd_rm ?n (s (Buf_smoothed_sigmas, Suc k))"
  let ?s' = "rts_step ?n k s"
  have kT: "k < ?T" using k by simp
  from inv have ld: "inputs_loaded A Q C R data s"
    and old: "\<And>j. j < Suc k \<Longrightarrow> eq_on ?n (s (Buf_smoothed_mus, j)) (fst (?filt j)) \<and>
            eq_on (?n * ?n) (s (Buf_smoothed_sigmas, j)) (snd (?filt j))"
    and prd: "\<And>j. j \<le> Suc k \<Longrightarrow> eq_on ?n (s (Buf_mu_predicts, j)) (fst (?fwd j)) \<and>
            eq_on (?n * ?n) (s (Buf_sigma_predicts, j)) (fst (snd (?fwd j)))"
    and new: "\<And>j. Suc k \<le> j \<Longrightarrow> j < ?T \<Longrightarrow> cov_ok ?n ?ps (s (Buf_smoothed_sigmas, j)) \<and>
            (?mf \<longrightarrow> finite_on ?n (s (Buf_smoothed_mus, j)))"
    by (simp_all add: back_inv_def)
  have olds: "eq_on (?n * ?n) (s (Buf_smoothed_sigmas, j)) (snd (?filt j))" if "j < Suc k" for j
    using old[OF that] by simp
  have oldm: "eq_on ?n (s (Buf_smoothed_mus, j)) (fst (?filt j))" if "j < Suc k" for j
    using old[OF that] by simp
  have prds: "eq_on (?n * ?n) (s (Buf_sigma_predicts, j)) (fst (snd (?fwd j)))" if "j \<le> Suc k" for j
    using prd[OF that] by simp
  have prdm: "eq_on ?n (s (Buf_mu_predicts, j)) (fst (?fwd j))" if "j \<le> Suc k" for j
    using prd[OF that] by simp
  from ld have sA: "s (Buf_A, k) = slab3 A k" by (simp add: inputs_loaded_def)
  from ok kT have "finite_on (?n * ?n) (slab3 A k)" by (simp add: cov_inputs_ok_def)
  then have hA: "holds_rm ?n ?n (s (Buf_A, k)) ?Am" unfolding sA by (rule finite_holds_rm)
  note Fok = filt_cov_ok[OF ok ipd kT]
  have hF: "holds_rm ?n ?n (s (Buf_smoothed_sigmas, k)) ?F"
    unfolding filt_cov_def by (rule holds_rm_eq_on[OF olds cov_okD(1)[OF Fok]]) simp
  note Pok = fwd_cov_ok[OF ok ipd Suc_leI[OF kT]]
  have hP: "holds_rm ?n ?n (s (Buf_sigma_predicts, Suc k)) ?P"
    unfolding pred_cov_def by (rule holds_rm_eq_on[OF prds cov_okD(1)[OF Pok]]) simp
  have sF: "symmetric ?n ?F" unfolding filt_cov_def by (rule cov_okD(2)[OF Fok])
  have sP: "symmetric ?n ?P" unfolding pred_cov_def by (rule cov_okD(2)[OF Pok])
  from ppd k have pdP: "pd_from 0 ?n ?P" by (simp add: predictions_pd_def)
  from new[of "Suc k"] k have Sok: "cov_ok ?n ?ps (s (Buf_smoothed_sigmas, Suc k))" by simp
  note hS = cov_okD(1)[OF Sok] and sS = cov_okD(2)[OF Sok]
  have Pdef: "?P i j = innov_cov ?n ?Am ?F ?Qm i j" if "i < ?n" "j < ?n" for i j
    unfolding pred_cov_def
    by (rule holds_rm_rd[OF pred_cov_step[OF ok kT Fok, THEN conjunct2] that])
  from rts_gainT_real[OF hA hF hP sP pdP, of "s (Buf_temp_nn, 0)" "s (Buf_temp_nn2, 0)"]
  obtain X where hX: "holds_cm ?n ?n (?s' (Buf_temp_nn, 0)) X"
    and PX0: "\<forall>j<?n. \<forall>i<?n. (\<Sum>k'<?n. ?P i k' * X k' j) = (\<Sum>l<?n. ?Am i l * ?F j l)"
    by (auto simp: rts_step_values)
  have PX: "(\<Sum>k'<?n. ?P i k' * X k' j) = (\<Sum>l<?n. ?Am i l * ?F j l)" if "i < ?n" "j < ?n" for i j
    using PX0 that by simp
  let ?N = "\<lambda>i j. ?F i j + (\<Sum>l<?n. \<Sum>m<?n. X m i * (?Ps m l - ?P m l) * X l j)"
  have hN: "holds_rm ?n ?n (?s' (Buf_smoothed_sigmas, k)) ?N"
    unfolding rts_step_values(3) using rts_sigma_real[OF hX hF hP hS] by simp
  have cN: "cov_ok ?n ?ps (?s' (Buf_smoothed_sigmas, k))"
  proof (rule cov_okI[OF hN smooth_cov_real(1)[OF sF sP sS PX Pdef]])
    assume a: ?ps
    with kT have pQ: "psd ?n ?Qm" by (simp add: cov_inputs_psd_def)
    have pF: "psd ?n ?F" unfolding filt_cov_def by (rule cov_okD(3)[OF Fok a])
    show "psd ?n ?N"
      by (rule smooth_cov_real(2)[OF sF sP sS PX Pdef pF pQ cov_okD(3)[OF Sok a]])
  qed
  have mN: "finite_on ?n (?s' (Buf_smoothed_mus, k))" if mf: ?mf
  proof -
    have "finite_on ?n (s (Buf_smoothed_mus, k))"
      by (rule finite_on_eq_on[OF oldm filt_mean_ok[OF ok ipd mf kT]]) simp
    then have 1: "holds_vec ?n (s (Buf_smoothed_mus, k)) (rd_vec (s (Buf_smoothed_mus, k)))"
      by (rule finite_holds_vec)
    have "finite_on ?n (s (Buf_mu_predicts, Suc k))"
      by (rule finite_on_eq_on[OF prdm fwd_mean_ok[OF ok ipd mf Suc_leI[OF kT]]]) simp
    then have 2: "holds_vec ?n (s (Buf_mu_predicts, Suc k)) (rd_vec (s (Buf_mu_predicts, Suc k)))"
      by (rule finite_holds_vec)
    have "finite_on ?n (s (Buf_smoothed_mus, Suc k))" using new[of "Suc k"] k mf by simp
    then have 3: "holds_vec ?n (s (Buf_smoothed_mus, Suc k)) (rd_vec (s (Buf_smoothed_mus, Suc k)))"
      by (rule finite_holds_vec)
    show ?thesis
      unfolding rts_step_values(2) using holds_vec_finite[OF rts_mu_real[OF hX 1 2 3]] by simp
  qed
  have fr: "?s' q = s q"
    if "q \<noteq> (Buf_smoothed_mus, k)" "q \<noteq> (Buf_smoothed_sigmas, k)" "q \<noteq> (Buf_mu_predicts, Suc k)"
      "q \<noteq> (Buf_sigma_predicts, Suc k)" "q \<noteq> (Buf_temp_nn, 0)" "q \<noteq> (Buf_temp_nn2, 0)" for q
    using that by (simp add: rts_step_frame)
  have i1: "inputs_loaded A Q C R data ?s'"
    using ld by (simp add: inputs_loaded_def fr)
  have i2: "eq_on ?n (?s' (Buf_smoothed_mus, j)) (fst (?filt j)) \<and>
            eq_on (?n * ?n) (?s' (Buf_smoothed_sigmas, j)) (snd (?filt j))" if "j < k" for j
    using old[of j] that by (simp add: fr)
  have i3: "eq_on ?n (?s' (Buf_mu_predicts, j)) (fst (?fwd j)) \<and>
            eq_on (?n * ?n) (?s' (Buf_sigma_predicts, j)) (fst (snd (?fwd j)))" if "j \<le> k" for j
    using prd[of j] that by (simp add: fr)
  have i4: "cov_ok ?n ?ps (?s' (Buf_smoothed_sigmas, j)) \<and> (?mf \<longrightarrow> finite_on ?n (?s' (Buf_smoothed_mus, j)))"
    if "k \<le> j" "j < ?T" for j
  proof (cases "j = k")
    case True
    then show ?thesis using cN mN by simp
  next
    case False
    with that have "Suc k \<le> j" by simp
    from new[OF this that(2)] False show ?thesis by (simp add: fr)
  qed
  have "back_inv mu_init sigma_init A Q C R data k ?s'"
    unfolding back_inv_def using i1 i2 i3 i4 by blast
  moreover have "\<exists>X. holds_cm ?n ?n (?s' (Buf_temp_nn, 0)) X \<and>
              (\<forall>j<?n. \<forall>i<?n. (\<Sum>k'<?n. ?P i k' * X k' j) = (\<Sum>l<?n. ?Am i l * ?F j l))"
    using hX PX0 by blast
  ultimately show ?thesis by (rule conjI)
qed

lemma read_mats_nth:
  "t < T \<Longrightarrow> i < n \<Longrightarrow> j < n \<Longrightarrow> read_mats T n b s ! t ! i ! j = s (b, t) (i * n + j)"
  by (simp add: read_mats_def)

lemma read_rows_nth: "t < T \<Longrightarrow> i < n \<Longrightarrow> read_rows T n b s ! t ! i = s (b, t) i"
  by (simp add: read_rows_def)

lemma cov_ok_matrix:
  assumes c: "cov_ok n True (s (b, t))" and t: "t < T"
  shows "cov_matrix n (read_mats T n b s ! t)"
proof -
  have e: "mat_of (read_mats T n b s ! t) i j = rd_rm n (s (b, t)) i j" if "i < n" "j < n" for i j
    using that t by (simp add: mat_of_def rd_rm_def read_mats_nth)
  have f: "read_mats T n b s ! t ! i ! j \<noteq> NaN" if "i < n" "j < n" for i j
    using c that t rm_idx_lt[OF that] by (simp add: read_mats_nth cov_ok_def finite_on_def)
  show ?thesis
    using c f symmetric_cong[of n "mat_of (read_mats T n b s ! t)" "rd_rm n (s (b, t))", OF e]
      psd_cong[of n "mat_of (read_mats T n b s ! t)" "rd_rm n (s (b, t))", OF e]
    by (simp add: cov_matrix_def cov_ok_def)
qed

lemma back_inv_init:
  assumes ok: "cov_inputs_ok sigma_init A Q C R"
    and ipd: "innovations_pd mu_init sigma_init A Q C R data"
    and inv: "smoother_inv mu_init sigma_init A Q C R data (shape3_0 C) (s, ll)"
  shows "back_inv mu_init sigma_init A Q C R data (shape3_0 C - 1) s"
proof -
  let ?n = "shape3_2 C" and ?T = "shape3_0 C"
  let ?fwd = "fwd mu_init sigma_init A Q C R data" and ?filt = "filt mu_init sigma_init A Q C R data"
  from inv have ld: "inputs_loaded A Q C R data s"
    and prd: "\<And>j. j \<le> ?T \<Longrightarrow> eq_on ?n (s (Buf_mu_predicts, j)) (fst (?fwd j)) \<and>
            eq_on (?n * ?n) (s (Buf_sigma_predicts, j)) (fst (snd (?fwd j)))"
    and old: "\<And>j. j < ?T \<Longrightarrow> eq_on ?n (s (Buf_smoothed_mus, j)) (fst (?filt j)) \<and>
            eq_on (?n * ?n) (s (Buf_smoothed_sigmas, j)) (snd (?filt j))"
    by (simp_all add: smoother_inv_def)
  have new: "cov_ok ?n (cov_inputs_psd sigma_init Q C R) (s (Buf_smoothed_sigmas, j)) \<and>
          (mean_inputs_ok mu_init C data \<longrightarrow> finite_on ?n (s (Buf_smoothed_mus, j)))" if "j < ?T" for j
  proof
    show "cov_ok ?n (cov_inputs_psd sigma_init Q C R) (s (Buf_smoothed_sigmas, j))"
      by (rule cov_ok_eq_on[OF old[OF that, THEN conjunct2] filt_cov_ok[OF ok ipd that]])
    show "mean_inputs_ok mu_init C data \<longrightarrow> finite_on ?n (s (Buf_smoothed_mus, j))"
    proof
      assume "mean_inputs_ok mu_init C data"
      from finite_on_eq_on[OF old[OF that, THEN conjunct1] filt_mean_ok[OF ok ipd this that]]
      show "finite_on ?n (s (Buf_smoothed_mus, j))" .
    qed
  qed
  show ?thesis
    unfolding back_inv_def using ld prd old new by auto
qed

lemma fold_rts_back_inv:
  assumes ok: "cov_inputs_ok sigma_init A Q C R"
    and ipd: "innovations_pd mu_init sigma_init A Q C R data"
    and ppd: "predictions_pd mu_init sigma_init A Q C R data"
  shows "m \<le> shape3_0 C - 1 \<Longrightarrow> back_inv mu_init sigma_init A Q C R data m s
           \<Longrightarrow> back_inv mu_init sigma_init A Q C R data 0 (fold (rts_step (shape3_2 C)) (rev [0..<m]) s)"
proof (induction m arbitrary: s)
  case 0
  then show ?case by simp
next
  case (Suc m)
  then have k: "Suc m < shape3_0 C" by simp
  from rts_step_back_inv[OF ok ipd ppd k Suc.prems(2)]
  have "back_inv mu_init sigma_init A Q C R data m (rts_step (shape3_2 C) m s)" by simp
  from Suc.IH[OF _ this] Suc.prems(1) show ?case by simp
qed

lemma back_inv_frame:
  assumes "\<And>q. fst q \<noteq> Buf_ExxnT \<Longrightarrow> s' q = s q"
    and "back_inv mu_init sigma_init A Q C R data k s"
  shows "back_inv mu_init sigma_init A Q C R data k s'"
  using assms(2) by (simp add: back_inv_def inputs_loaded_def assms(1))

lemma stats_step_back_inv:
  assumes ok: "cov_inputs_ok sigma_init A Q C R"
    and ipd: "innovations_pd mu_init sigma_init A Q C R data"
    and ppd: "predictions_pd mu_init sigma_init A Q C R data"
    and k: "Suc k < shape3_0 C"
    and inv: "back_inv mu_init sigma_init A Q C R data (Suc k) s"
  shows "back_inv mu_init sigma_init A Q C R data k (stats_step (shape3_2 C) (shape3_2 C) k s)"
proof (rule back_inv_frame)
  show "back_inv mu_init sigma_init A Q C R data k (rts_step (shape3_2 C) k s)"
    using rts_step_back_inv[OF ok ipd ppd k inv] by simp
  fix q :: ptr assume "fst q \<noteq> Buf_ExxnT"
  then have "q \<noteq> (Buf_ExxnT, k)" by auto
  then show "stats_step (shape3_2 C) (shape3_2 C) k s q = rts_step (shape3_2 C) k s q"
    by (rule stats_step_frame)
qed

lemma fold_stats_back_inv:
  assumes ok: "cov_inputs_ok sigma_init A Q C R"
    and ipd: "innovations_pd mu_init sigma_init A Q C R data"
    and ppd: "predictions_pd mu_init sigma_init A Q C R data"
  shows "m \<le> shape3_0 C - 1 \<Longrightarrow> back_inv mu_init sigma_init A Q C R data m s
           \<Longrightarrow> back_inv mu_init sigma_init A Q C R data 0
                 (fold (stats_step (shape3_2 C) (shape3_2 C)) (rev [0..<m]) s)"
proof (induction m arbitrary: s)
  case 0
  then show ?case by simp
next
  case (Suc m)
  then have k: "Suc m < shape3_0 C" by simp
  from Suc.IH[OF _ stats_step_back_inv[OF ok ipd ppd k Suc.prems(2)]] Suc.prems(1)
  show ?case by simp
qed

lemma cov_ok_filtered:
  assumes c: "cov_ok (shape3_2 C) True (snd (filt mu_init sigma_init A Q C R data t))" and t: "t < shape3_0 C"
  shows "cov_matrix (shape3_2 C) (filtered_mats mu_init sigma_init A Q C R data ! t)"
proof -
  let ?n = "shape3_2 C" and ?v = "snd (filt mu_init sigma_init A Q C R data t)"
  let ?xs = "filtered_mats mu_init sigma_init A Q C R data ! t"
  have n: "?xs ! i ! j = ?v (i * ?n + j)" if "i < ?n" "j < ?n" for i j
    using that t by (simp add: filtered_mats_def)
  have e: "mat_of ?xs i j = rd_rm ?n ?v i j" if "i < ?n" "j < ?n" for i j
    using n[OF that] by (simp add: mat_of_def rd_rm_def)
  have f: "?xs ! i ! j \<noteq> NaN" if "i < ?n" "j < ?n" for i j
    using c rm_idx_lt[OF that] by (simp add: n[OF that] cov_ok_def finite_on_def)
  show ?thesis
    using c f symmetric_cong[of ?n "mat_of ?xs" "rd_rm ?n ?v", OF e] psd_cong[of ?n "mat_of ?xs" "rd_rm ?n ?v", OF e]
    by (simp add: cov_matrix_def cov_ok_def)
qed

lemma length_read_mats [simp]: "length (read_mats T n b s) = T"
  by (simp add: read_mats_def)

lemma length_read_rows [simp]: "length (read_rows T n b s) = T"
  by (simp add: read_rows_def)

lemma length_filtered_mats [simp]: "length (filtered_mats mu_init sigma_init A Q C R data) = shape3_0 C"
  by (simp add: filtered_mats_def)

lemma back_inv_cov:
  assumes "back_inv mu_init sigma_init A Q C R data 0 s" "cov_inputs_psd sigma_init Q C R" "t < shape3_0 C"
  shows "cov_ok (shape3_2 C) True (s (Buf_smoothed_sigmas, t))"
  using assms by (simp add: back_inv_def)

lemma pd_one:
  assumes "0 < M 0 0"
  shows "pd_from 0 1 M"
proof -
  have "0 < x 0 * M 0 0 * x 0" if "x 0 \<noteq> 0" for x :: rvec
  proof -
    have "0 < x 0 * x 0" using that by (auto simp: zero_less_mult_iff)
    with assms have "0 < M 0 0 * (x 0 * x 0)" by (rule mult_pos_pos)
    then show ?thesis by (simp add: mult_ac)
  qed
  then show ?thesis by (simp add: pd_from_def qf_def)
qed

lemma psd_one:
  assumes "0 \<le> M 0 0"
  shows "psd 1 M"
proof -
  have "0 \<le> x 0 * M 0 0 * x 0" for x :: rvec
  proof -
    have "0 \<le> M 0 0 * (x 0 * x 0)" using assms by (rule mult_nonneg_nonneg) simp
    then show ?thesis by (simp add: mult_ac)
  qed
  then show ?thesis by (simp add: psd_def qf_def)
qed

lemma all_less_2: "(\<forall>t<2::nat. P t) \<longleftrightarrow> P 0 \<and> P 1"
  by (auto simp: less_2_cases_iff)

lemmas pure_defs = fwd_def fwd_step_def filt_def cond_pure_def pred_pure_def cond_ll_def cond_mu_def
  cond_sigma_def cond_V_def cond_w_def cond_z_def cond_r_def cond_L_def cond_S_def cond_tpn_def
  pred_mu_def pred_sigma_def restrict_def blank_def

lemma pair3_simps:
  "shape3_0 (pair3 v) = 2" "shape3_1 (pair3 v) = 1" "shape3_2 (pair3 v) = 1" "slab3 (pair3 v) t = (\<lambda>z. Fin v)"
  by (simp_all add: pair3_def slab3_def)

lemma pair_pred_cov:
  "pred_cov (scalar1 0) (scalar2 3) (pair3 1) (pair3 1) (pair3 1) (pair3 1) two_rows 0 0 0 = 3"
  "pred_cov (scalar1 0) (scalar2 3) (pair3 1) (pair3 1) (pair3 1) (pair3 1) two_rows (Suc 0) 0 0 = 7 / 4"
  by (simp_all add: pred_cov_def rd_rm_def pure_defs backend_defs example_defs pair3_def
      slab3_def row2_def Let_def split_beta)

lemma pair_hyps:
  "init_ok (scalar1 0) (scalar2 3) (pair3 1)"
  "cov_inputs_ok (scalar2 3) (pair3 1) (pair3 1) (pair3 1) (pair3 1)"
  "cov_inputs_psd (scalar2 3) (pair3 1) (pair3 1) (pair3 1)"
  "innovations_pd (scalar1 0) (scalar2 3) (pair3 1) (pair3 1) (pair3 1) (pair3 1) two_rows"
  "predictions_pd (scalar1 0) (scalar2 3) (pair3 1) (pair3 1) (pair3 1) (pair3 1) two_rows"
  "mean_inputs_ok (scalar1 0) (pair3 1) two_rows"
proof -
  show "init_ok (scalar1 0) (scalar2 3) (pair3 1)"
    by (simp add: init_ok_def example_defs pair3_def)
  show "cov_inputs_ok (scalar2 3) (pair3 1) (pair3 1) (pair3 1) (pair3 1)"
    by (simp add: cov_inputs_ok_def finite_on_def symmetric_def example_defs pair3_def slab3_def)
  show "cov_inputs_psd (scalar2 3) (pair3 1) (pair3 1) (pair3 1)"
    by (simp add: cov_inputs_psd_def example_defs pair3_def slab3_def rd_rm_def psd_one[unfolded One_nat_def])
  show "innovations_pd (scalar1 0) (scalar2 3) (pair3 1) (pair3 1) (pair3 1) (pair3 1) two_rows"
    unfolding innovations_pd_def
    by (simp add: pair3_simps all_less_2 pd_one[unfolded One_nat_def] innov_cov_def pair_pred_cov rd_rm_def)
  show "predictions_pd (scalar1 0) (scalar2 3) (pair3 1) (pair3 1) (pair3 1) (pair3 1) two_rows"
    unfolding predictions_pd_def
    by (simp add: pair3_simps all_less_2 pd_one[unfolded One_nat_def] pair_pred_cov)
  show "mean_inputs_ok (scalar1 0) (pair3 1) two_rows"
    by (simp add: mean_inputs_ok_def finite_on_def example_defs pair3_def row2_def)
qed


section \<open>Facts about the second moments\<close>

lemma gain_unique:
  fixes P F Am X Gk :: rmat
  assumes pd: "pd_from 0 n P" and sP: "symmetric n P"
    and PX: "\<And>i j. i < n \<Longrightarrow> j < n \<Longrightarrow> (\<Sum>k<n. P i k * X k j) = (\<Sum>l<n. Am i l * F j l)"
    and G: "\<And>i j. i < n \<Longrightarrow> j < n \<Longrightarrow> mat_mul n Gk P i j = mat_mul n F (mat_T Am) i j"
    and l: "l < n" and j: "j < n"
  shows "X l j = Gk j l"
proof (rule pd_unique[where S=P and x="\<lambda>k. X k j" and y="\<lambda>k. Gk j k" and r="\<lambda>i. \<Sum>l<n. Am i l * F j l", OF pd _ _ l])
  fix i assume i: "i < n"
  show "(\<Sum>k<n. P i k * X k j) = (\<Sum>l<n. Am i l * F j l)" by (rule PX[OF i j])
  have "(\<Sum>k<n. P i k * Gk j k) = (\<Sum>k<n. Gk j k * P k i)"
    by (intro sum.cong refl) (use sP i in \<open>simp add: symmetric_def mult.commute\<close>)
  also have "\<dots> = (\<Sum>l<n. F j l * Am i l)"
    using G[OF j i] by (simp add: mat_mul_def mat_T_def)
  finally show "(\<Sum>k<n. P i k * Gk j k) = (\<Sum>l<n. Am i l * F j l)" by (simp add: mult.commute)
qed

lemma stats_step_stats_inv:
  assumes ok: "cov_inputs_ok sigma_init A Q C R"
    and ipd: "innovations_pd mu_init sigma_init A Q C R data"
    and ppd: "predictions_pd mu_init sigma_init A Q C R data"
    and mok: "mean_inputs_ok mu_init C data"
    and gain: "gain_ok mu_init sigma_init A Q C R data G"
    and k: "Suc k < shape3_0 C"
    and inv: "back_inv mu_init sigma_init A Q C R data (Suc k) s"
    and sinv: "stats_inv C G (Suc k) s"
  shows "stats_inv C G k (stats_step (shape3_2 C) (shape3_2 C) k s)"
  unfolding stats_inv_def
proof (intro allI impI)
  let ?n = "shape3_2 C" and ?T = "shape3_0 C"
  let ?s1 = "rts_step ?n k s" and ?s2 = "stats_step ?n ?n k s"
  let ?Am = "rd_rm ?n (slab3 A k)"
  let ?F = "filt_cov mu_init sigma_init A Q C R data k"
  let ?P = "pred_cov mu_init sigma_init A Q C R data (Suc k)"
  fix j assume j: "k \<le> j \<and> Suc j < ?T"
  have kT: "k < ?T" using k by simp
  have fr2: "?s2 q = ?s1 q" if "q \<noteq> (Buf_ExxnT, k)" for q by (rule stats_step_frame[OF that])
  show "holds_rm ?n ?n (?s2 (Buf_ExxnT, j))
          (\<lambda>i i'. mat_mul ?n (rd_rm ?n (?s2 (Buf_smoothed_sigmas, Suc j))) (mat_T (G j)) i i'
                   + rd_vec (?s2 (Buf_smoothed_mus, Suc j)) i * rd_vec (?s2 (Buf_smoothed_mus, j)) i')"
  proof (cases "j = k")
    case False
    with j have jk: "Suc k \<le> j" by simp
    have "?s1 q = s q" if "q \<noteq> (Buf_smoothed_mus, k)" "q \<noteq> (Buf_smoothed_sigmas, k)"
      "q \<noteq> (Buf_mu_predicts, k + 1)" "q \<noteq> (Buf_sigma_predicts, k + 1)" "q \<noteq> (Buf_temp_nn, 0)"
      "q \<noteq> (Buf_temp_nn2, 0)" for q
      by (rule rts_step_frame[OF that])
    then have e: "?s2 (Buf_ExxnT, j) = s (Buf_ExxnT, j)"
      "?s2 (Buf_smoothed_sigmas, Suc j) = s (Buf_smoothed_sigmas, Suc j)"
      "?s2 (Buf_smoothed_mus, Suc j) = s (Buf_smoothed_mus, Suc j)"
      "?s2 (Buf_smoothed_mus, j) = s (Buf_smoothed_mus, j)"
      using False jk by (simp_all add: fr2)
    from sinv jk j show ?thesis unfolding e by (simp add: stats_inv_def)
  next
    case True
    from rts_step_back_inv[OF ok ipd ppd k inv] obtain X where
      b1: "back_inv mu_init sigma_init A Q C R data k ?s1"
      and hX: "holds_cm ?n ?n (?s1 (Buf_temp_nn, 0)) X"
      and PX0: "\<forall>j<?n. \<forall>i<?n. (\<Sum>k'<?n. ?P i k' * X k' j) = (\<Sum>l<?n. ?Am i l * ?F j l)"
      by blast
    from b1 k kT mok have c: "cov_ok ?n (cov_inputs_psd sigma_init Q C R) (?s1 (Buf_smoothed_sigmas, Suc k))"
      and f1: "finite_on ?n (?s1 (Buf_smoothed_mus, Suc k))" and f0: "finite_on ?n (?s1 (Buf_smoothed_mus, k))"
      by (simp_all add: back_inv_def)
    note hS = cov_okD(1)[OF c] and hk = finite_holds_vec[OF f0] and hkn = finite_holds_vec[OF f1]
    from ppd k have pd: "pd_from 0 ?n ?P" by (simp add: predictions_pd_def)
    have sP: "symmetric ?n ?P"
      unfolding pred_cov_def by (rule cov_okD(2)[OF fwd_cov_ok[OF ok ipd Suc_leI[OF kT]]])
    have Gk: "mat_mul ?n (G k) ?P i j = mat_mul ?n ?F (mat_T ?Am) i j" if "i < ?n" "j < ?n" for i j
      using gain k that by (simp add: gain_ok_def)
    have PX: "(\<Sum>k'<?n. ?P i k' * X k' j) = (\<Sum>l<?n. ?Am i l * ?F j l)" if "i < ?n" "j < ?n" for i j
      using PX0 that by simp
    have XG: "X l j = G k j l" if "l < ?n" "j < ?n" for l j
      by (rule gain_unique[OF pd sP PX Gk that])
    have e: "?s2 (Buf_smoothed_sigmas, Suc k) = ?s1 (Buf_smoothed_sigmas, Suc k)"
      "?s2 (Buf_smoothed_mus, Suc k) = ?s1 (Buf_smoothed_mus, Suc k)"
      "?s2 (Buf_smoothed_mus, k) = ?s1 (Buf_smoothed_mus, k)"
      by (simp_all add: fr2)
    have v: "?s2 (Buf_ExxnT, k)
        = stats_pure ?n (?s1 (Buf_smoothed_mus, k)) (?s1 (Buf_smoothed_mus, Suc k))
            (?s1 (Buf_smoothed_sigmas, Suc k)) (?s1 (Buf_temp_nn, 0)) (?s1 (Buf_ExxnT, k))"
      using stats_step_values[of ?n ?n k s] by simp
    show ?thesis
      unfolding True e v
    proof (rule holds_rm_cong[OF stats_pure_real[OF hX hS hk hkn]])
      fix i i' assume "i < ?n" "i' < ?n"
      have "(\<Sum>l<?n. rd_rm ?n (?s1 (Buf_smoothed_sigmas, Suc k)) i l * X l i')
          = mat_mul ?n (rd_rm ?n (?s1 (Buf_smoothed_sigmas, Suc k))) (mat_T (G k)) i i'"
        unfolding mat_mul_def mat_T_def
        by (intro sum.cong refl) (simp add: XG \<open>i' < ?n\<close>)
      then show "(\<Sum>l<?n. rd_rm ?n (?s1 (Buf_smoothed_sigmas, Suc k)) i l * X l i')
            + rd_vec (?s1 (Buf_smoothed_mus, Suc k)) i * rd_vec (?s1 (Buf_smoothed_mus, k)) i'
          = mat_mul ?n (rd_rm ?n (?s1 (Buf_smoothed_sigmas, Suc k))) (mat_T (G k)) i i'
            + rd_vec (?s1 (Buf_smoothed_mus, Suc k)) i * rd_vec (?s1 (Buf_smoothed_mus, k)) i'"
        by simp
    qed
  qed
qed

lemma fold_stats_inv:
  assumes ok: "cov_inputs_ok sigma_init A Q C R"
    and ipd: "innovations_pd mu_init sigma_init A Q C R data"
    and ppd: "predictions_pd mu_init sigma_init A Q C R data"
    and mok: "mean_inputs_ok mu_init C data"
    and gain: "gain_ok mu_init sigma_init A Q C R data G"
  shows "m \<le> shape3_0 C - 1 \<Longrightarrow> back_inv mu_init sigma_init A Q C R data m s \<Longrightarrow> stats_inv C G m s
           \<Longrightarrow> stats_inv C G 0 (fold (stats_step (shape3_2 C) (shape3_2 C)) (rev [0..<m]) s)"
proof (induction m arbitrary: s)
  case 0
  then show ?case by simp
next
  case (Suc m)
  then have k: "Suc m < shape3_0 C" by simp
  note b = stats_step_back_inv[OF ok ipd ppd k Suc.prems(2)]
  note c = stats_step_stats_inv[OF ok ipd ppd mok gain k Suc.prems(2,3)]
  from Suc.IH[OF _ b c] Suc.prems(1) show ?case by simp
qed

lemma mat_mul_cong:
  "(\<And>l. l < k \<Longrightarrow> M i l = M' i l) \<Longrightarrow> (\<And>l. l < k \<Longrightarrow> N l j = N' l j) \<Longrightarrow> mat_mul k M N i j = mat_mul k M' N' i j"
  by (simp add: mat_mul_def)

lemma E_step_moments:
  assumes iok: "init_ok mu_init sigma_init C" and sh: "shape3_1 A = shape3_2 C" and T: "0 < shape3_0 C"
    and ok: "cov_inputs_ok sigma_init A Q C R"
    and ipd: "innovations_pd mu_init sigma_init A Q C R data"
    and ppd: "predictions_pd mu_init sigma_init A Q C R data"
    and mok: "mean_inputs_ok mu_init C data"
    and gain: "gain_ok mu_init sigma_init A Q C R data G"
  shows "\<exists>ll mus sigmas Exx.
           E_step mu_init sigma_init A Q C R data heap = Inr (ll, mus, sigmas, Exx) \<and>
           length Exx = shape3_0 C - 1 \<and>
           (\<forall>t. Suc t < shape3_0 C \<longrightarrow>
              symmetric (shape3_2 C) (mat_of (sigmas ! Suc t)) \<and>
              (\<forall>i<shape3_2 C. \<forall>j<shape3_2 C.
                 Exx ! t ! i ! j
                 = Fin (mat_mul (shape3_2 C) (mat_of (sigmas ! Suc t)) (mat_T (G t)) i j
                        + vec_of (mus ! Suc t) i * vec_of (mus ! t) j))) \<and>
           (\<forall>i<shape3_2 C. mus ! (shape3_0 C - 1) ! i
              = fst (filt mu_init sigma_init A Q C R data (shape3_0 C - 1)) i) \<and>
           (\<forall>i<shape3_2 C. \<forall>j<shape3_2 C. sigmas ! (shape3_0 C - 1) ! i ! j
              = snd (filt mu_init sigma_init A Q C R data (shape3_0 C - 1)) (i * shape3_2 C + j))"
proof -
  let ?T = "shape3_0 C" and ?n = "shape3_2 C"
  let ?filt = "filt mu_init sigma_init A Q C R data"
  from E_step_shape[OF iok T, of A Q R data heap] obtain s1 s2 where
    inv: "smoother_inv mu_init sigma_init A Q C R data ?T
             (s1, snd (snd (fwd mu_init sigma_init A Q C R data ?T)))"
    and s2: "s2 = fold (stats_step (shape3_1 A) ?n) (rev [0..<?T - 1]) s1"
    and r: "E_step mu_init sigma_init A Q C R data heap
             = Inr (snd (snd (fwd mu_init sigma_init A Q C R data ?T)),
                    read_rows ?T ?n Buf_smoothed_mus s2, read_mats ?T ?n Buf_smoothed_sigmas s2,
                    read_mats (?T - 1) ?n Buf_ExxnT s2)"
    by blast
  let ?mus = "read_rows ?T ?n Buf_smoothed_mus s2" and ?sigmas = "read_mats ?T ?n Buf_smoothed_sigmas s2"
  let ?Exx = "read_mats (?T - 1) ?n Buf_ExxnT s2"
  note b0 = back_inv_init[OF ok ipd inv]
  have si0: "stats_inv C G (?T - 1) s1" by (auto simp: stats_inv_def)
  have b: "back_inv mu_init sigma_init A Q C R data 0 s2"
    unfolding s2 sh by (rule fold_stats_back_inv[OF ok ipd ppd order_refl b0])
  have si: "stats_inv C G 0 s2"
    unfolding s2 sh by (rule fold_stats_inv[OF ok ipd ppd mok gain order_refl b0 si0])
  have m: "mat_of (?sigmas ! t) i j = rd_rm ?n (s2 (Buf_smoothed_sigmas, t)) i j"
    if "t < ?T" "i < ?n" "j < ?n" for t i j
    using that by (simp add: mat_of_def rd_rm_def read_mats_nth)
  have v: "vec_of (?mus ! t) i = rd_vec (s2 (Buf_smoothed_mus, t)) i" if "t < ?T" "i < ?n" for t i
    using that by (simp add: vec_of_def rd_vec_def read_rows_nth)
  have 1: "symmetric ?n (mat_of (?sigmas ! Suc t)) \<and>
           (\<forall>i<?n. \<forall>j<?n. ?Exx ! t ! i ! j
              = Fin (mat_mul ?n (mat_of (?sigmas ! Suc t)) (mat_T (G t)) i j
                     + vec_of (?mus ! Suc t) i * vec_of (?mus ! t) j))" if t: "Suc t < ?T" for t
  proof
    from b t have "symmetric ?n (rd_rm ?n (s2 (Buf_smoothed_sigmas, Suc t)))"
      by (simp add: back_inv_def cov_ok_def)
    then show "symmetric ?n (mat_of (?sigmas ! Suc t))"
      using symmetric_cong[of ?n "mat_of (?sigmas ! Suc t)" "rd_rm ?n (s2 (Buf_smoothed_sigmas, Suc t))", OF m[OF t]]
      by simp
    from si t have h: "holds_rm ?n ?n (s2 (Buf_ExxnT, t))
          (\<lambda>i i'. mat_mul ?n (rd_rm ?n (s2 (Buf_smoothed_sigmas, Suc t))) (mat_T (G t)) i i'
                   + rd_vec (s2 (Buf_smoothed_mus, Suc t)) i * rd_vec (s2 (Buf_smoothed_mus, t)) i')"
      by (simp add: stats_inv_def)
    show "\<forall>i<?n. \<forall>j<?n. ?Exx ! t ! i ! j
              = Fin (mat_mul ?n (mat_of (?sigmas ! Suc t)) (mat_T (G t)) i j
                     + vec_of (?mus ! Suc t) i * vec_of (?mus ! t) j)"
    proof (intro allI impI)
      fix i j assume i: "i < ?n" and j: "j < ?n"
      have t': "t < ?T - 1" "t < ?T" using t by simp_all
      have "mat_mul ?n (mat_of (?sigmas ! Suc t)) (mat_T (G t)) i j
          = mat_mul ?n (rd_rm ?n (s2 (Buf_smoothed_sigmas, Suc t))) (mat_T (G t)) i j"
        by (rule mat_mul_cong) (simp_all add: m[OF t i])
      then show "?Exx ! t ! i ! j
              = Fin (mat_mul ?n (mat_of (?sigmas ! Suc t)) (mat_T (G t)) i j
                     + vec_of (?mus ! Suc t) i * vec_of (?mus ! t) j)"
        unfolding read_mats_nth[OF t'(1) i j] using holds_rmD[OF h i j] by (simp add: v[OF t i] v[OF t'(2) j])
    qed
  qed
  have last: "s2 (Buf_smoothed_mus, ?T - 1) = s1 (Buf_smoothed_mus, ?T - 1)"
    "s2 (Buf_smoothed_sigmas, ?T - 1) = s1 (Buf_smoothed_sigmas, ?T - 1)"
    unfolding s2 using fold_stats_last[of "rev [0..<?T - 1]" "?T - 1" "shape3_1 A" ?n s1] by simp_all
  from inv T have e: "eq_on ?n (s1 (Buf_smoothed_mus, ?T - 1)) (fst (?filt (?T - 1)))"
    "eq_on (?n * ?n) (s1 (Buf_smoothed_sigmas, ?T - 1)) (snd (?filt (?T - 1)))"
    by (simp_all add: smoother_inv_def)
  have 2: "\<forall>i<?n. ?mus ! (?T - 1) ! i = fst (?filt (?T - 1)) i"
    using e(1) T last(1) by (simp add: read_rows_nth eq_on_def)
  have 3: "\<forall>i<?n. \<forall>j<?n. ?sigmas ! (?T - 1) ! i ! j = snd (?filt (?T - 1)) (i * ?n + j)"
    using e(2) T last(2) by (simp add: read_mats_nth eq_on_def rm_idx_lt)
  have 0: "length ?Exx = ?T - 1" by simp
  from 1 have all1: "\<forall>t. Suc t < ?T \<longrightarrow> symmetric ?n (mat_of (?sigmas ! Suc t)) \<and>
           (\<forall>i<?n. \<forall>j<?n. ?Exx ! t ! i ! j
              = Fin (mat_mul ?n (mat_of (?sigmas ! Suc t)) (mat_T (G t)) i j
                     + vec_of (?mus ! Suc t) i * vec_of (?mus ! t) j))" by blast
  show ?thesis
    apply (rule exI[of _ "snd (snd (fwd mu_init sigma_init A Q C R data ?T))"])
    apply (rule exI[of _ ?mus])
    apply (rule exI[of _ ?sigmas])
    apply (rule exI[of _ ?Exx])
    using r 0 all1 2 3 apply (intro conjI)
        apply assumption+
    done
qed

lemma pair_filt_cov:
  "filt_cov (scalar1 0) (scalar2 3) (pair3 1) (pair3 1) (pair3 1) (pair3 1) two_rows 0 0 0 = 3 / 4"
  by (simp add: filt_cov_def rd_rm_def pure_defs backend_defs example_defs pair3_def
      slab3_def row2_def Let_def split_beta)

lemma pair_gain:
  "gain_ok (scalar1 0) (scalar2 3) (pair3 1) (pair3 1) (pair3 1) (pair3 1) two_rows (\<lambda>t i j. 3 / 7)"
  by (simp add: gain_ok_def pair3_simps mat_mul_def mat_T_def rd_rm_def pair_filt_cov pair_pred_cov)

lemma demo_simps:
  "shape3_0 demo_C = 2" "shape3_1 demo_C = 1" "shape3_2 demo_C = 2" "shape3_1 demo_A = 2"
  "shape1_0 demo_mu = 2" "shape2_0 demo_sigma = 2" "shape2_1 demo_sigma = 2"
  "flat1 demo_mu = (\<lambda>z. Fin 0)" "flat2 demo_sigma = (\<lambda>z. if z = 1 \<or> z = 2 then Fin 0 else Fin 1)"
  "slab3 demo_A t = (\<lambda>z. if z mod 4 = 1 then Fin 0 else Fin 1)"
  "slab3 demo_Q t = (\<lambda>z. Fin 0)" "slab3 demo_C t = (\<lambda>z. Fin 1)" "slab3 demo_R t = (\<lambda>z. Fin 1)"
  "row2 demo_data t = (\<lambda>z. NaN)"
  by (simp_all add: demo_A_def demo_Q_def demo_C_def demo_R_def demo_data_def demo_mu_def demo_sigma_def
      slab3_def row2_def fun_eq_iff mod_mult_self4 add.commute)

lemma demo_not_observed: "\<not> observed demo_data t"
  by (simp add: observed_def demo_simps)

lemma lessThan_2: "{..<2::nat} = {0, 1}"
  by auto

lemma demo_filt_0:
  "snd (filt demo_mu demo_sigma demo_A demo_Q demo_C demo_R demo_data 0)
     = restrict 4 (\<lambda>z. if z = 1 \<or> z = 2 then Fin 0 else Fin 1)"
  "fst (filt demo_mu demo_sigma demo_A demo_Q demo_C demo_R demo_data 0) = restrict 2 (\<lambda>z. Fin 0)"
  by (simp_all add: filt_proj demo_not_observed fwd_0 demo_simps)

lemma demo_filt_cov_0:
  "filt_cov demo_mu demo_sigma demo_A demo_Q demo_C demo_R demo_data 0 0 0 = 1"
  "filt_cov demo_mu demo_sigma demo_A demo_Q demo_C demo_R demo_data 0 0 (Suc 0) = 0"
  "filt_cov demo_mu demo_sigma demo_A demo_Q demo_C demo_R demo_data 0 (Suc 0) 0 = 0"
  "filt_cov demo_mu demo_sigma demo_A demo_Q demo_C demo_R demo_data 0 (Suc 0) (Suc 0) = 1"
  by (simp_all add: filt_cov_def demo_filt_0 rd_rm_def restrict_def demo_simps)

lemma demo_hyps:
  "init_ok demo_mu demo_sigma demo_C"
  "shape3_1 demo_A = shape3_2 demo_C"
  "0 < shape3_0 demo_C"
  "cov_inputs_ok demo_sigma demo_A demo_Q demo_C demo_R"
  "innovations_pd demo_mu demo_sigma demo_A demo_Q demo_C demo_R demo_data"
  "mean_inputs_ok demo_mu demo_C demo_data"
proof -
  show "init_ok demo_mu demo_sigma demo_C" by (simp add: init_ok_def demo_simps)
  show "shape3_1 demo_A = shape3_2 demo_C" by (simp add: demo_simps)
  show "0 < shape3_0 demo_C" by (simp add: demo_simps)
  show "cov_inputs_ok demo_sigma demo_A demo_Q demo_C demo_R"
    by (simp add: cov_inputs_ok_def demo_simps finite_on_def symmetric_def rd_rm_def all_less_2)
  show "innovations_pd demo_mu demo_sigma demo_A demo_Q demo_C demo_R demo_data"
    by (simp add: innovations_pd_def demo_not_observed)
  show "mean_inputs_ok demo_mu demo_C demo_data"
    by (simp add: mean_inputs_ok_def demo_not_observed demo_simps finite_on_def)
qed

lemma demo_pred_cov:
  assumes "i < 2" "j < 2"
  shows "pred_cov demo_mu demo_sigma demo_A demo_Q demo_C demo_R demo_data (Suc 0) i j
       = innov_cov 2 (rd_rm 2 (slab3 demo_A 0))
           (filt_cov demo_mu demo_sigma demo_A demo_Q demo_C demo_R demo_data 0) (rd_rm 2 (slab3 demo_Q 0)) i j"
proof -
  have t: "0 < shape3_0 demo_C" by (simp add: demo_simps)
  note F = filt_cov_ok[OF demo_hyps(4,5) t]
  from pred_cov_step[OF demo_hyps(4) t F, THEN conjunct2] assms show ?thesis
    unfolding pred_cov_def by (simp add: holds_rm_rd demo_simps)
qed

lemma demo_pred_cov_1:
  "pred_cov demo_mu demo_sigma demo_A demo_Q demo_C demo_R demo_data (Suc 0) 0 0 = 1"
  "pred_cov demo_mu demo_sigma demo_A demo_Q demo_C demo_R demo_data (Suc 0) 0 (Suc 0) = 1"
  "pred_cov demo_mu demo_sigma demo_A demo_Q demo_C demo_R demo_data (Suc 0) (Suc 0) 0 = 1"
  "pred_cov demo_mu demo_sigma demo_A demo_Q demo_C demo_R demo_data (Suc 0) (Suc 0) (Suc 0) = 2"
  by (simp_all add: demo_pred_cov innov_cov_def lessThan_2 rd_rm_def demo_simps demo_filt_cov_0)

lemma pd_two:
  assumes "M 0 0 = 1" "M 0 (Suc 0) = 1" "M (Suc 0) 0 = 1" "M (Suc 0) (Suc 0) = 2"
  shows "pd_from 0 2 M"
proof -
  have s: "{0..<2::nat} = {0, Suc 0}" by auto
  have q: "qf 0 2 M x = (x 0 + x (Suc 0))\<^sup>2 + (x (Suc 0))\<^sup>2" for x
    by (simp add: qf_def s assms power2_eq_square algebra_simps)
  have "0 < qf 0 2 M x" if "x 0 \<noteq> 0 \<or> x (Suc 0) \<noteq> 0" for x
    unfolding q sum_power2_gt_zero_iff using that by auto
  then show ?thesis by (auto simp: pd_from_def s assms)
qed

lemma demo_predictions_pd:
  "predictions_pd demo_mu demo_sigma demo_A demo_Q demo_C demo_R demo_data"
  by (simp add: predictions_pd_def demo_simps all_less_2 pd_two demo_pred_cov_1)

lemma demo_gain: "gain_ok demo_mu demo_sigma demo_A demo_Q demo_C demo_R demo_data demo_G"
  by (simp add: gain_ok_def demo_simps all_less_2 mat_mul_def mat_T_def lessThan_2 demo_G_def
      demo_pred_cov_1 demo_filt_cov_0 rd_rm_def)

lemma demo_psd: "cov_inputs_psd demo_sigma demo_Q demo_C demo_R"
proof -
  have s: "{0..<2::nat} = {0, Suc 0}" by auto
  have 1: "psd 2 (rd_rm 2 (\<lambda>z. if z = 1 \<or> z = 2 then Fin 0 else Fin 1))"
    by (simp add: psd_def qf_def s rd_rm_def)
  have 2: "psd 2 (rd_rm 2 (\<lambda>z. Fin 0))"
    by (simp add: psd_def qf_def s rd_rm_def)
  have 3: "psd 1 (rd_rm 1 (\<lambda>z. Fin 1))"
    by (rule psd_one) (simp add: rd_rm_def)
  from 1 2 3 show ?thesis by (simp add: cov_inputs_psd_def demo_simps)
qed

lemma demo_filt_1:
  assumes "i < 2" "j < 2"
  shows "snd (filt demo_mu demo_sigma demo_A demo_Q demo_C demo_R demo_data (Suc 0)) (i * 2 + j)
       = Fin (pred_cov demo_mu demo_sigma demo_A demo_Q demo_C demo_R demo_data (Suc 0) i j)"
    and "fst (filt demo_mu demo_sigma demo_A demo_Q demo_C demo_R demo_data (Suc 0)) i = Fin 0"
proof -
  have t: "Suc 0 \<le> shape3_0 demo_C" by (simp add: demo_simps)
  from cov_okD(1)[OF fwd_cov_ok[OF demo_hyps(4,5) t]] assms
  have "fst (snd (fwd demo_mu demo_sigma demo_A demo_Q demo_C demo_R demo_data (Suc 0))) (i * 2 + j)
      = Fin (pred_cov demo_mu demo_sigma demo_A demo_Q demo_C demo_R demo_data (Suc 0) i j)"
    by (simp add: holds_rm_def pred_cov_def demo_simps)
  then show "snd (filt demo_mu demo_sigma demo_A demo_Q demo_C demo_R demo_data (Suc 0)) (i * 2 + j)
       = Fin (pred_cov demo_mu demo_sigma demo_A demo_Q demo_C demo_R demo_data (Suc 0) i j)"
    using rm_idx_lt[OF assms] by (simp add: filt_proj demo_not_observed demo_simps restrict_def)
  show "fst (filt demo_mu demo_sigma demo_A demo_Q demo_C demo_R demo_data (Suc 0)) i = Fin 0"
    using assms(1)
    by (simp add: filt_proj demo_not_observed fwd_proj fwd_0 demo_simps restrict_def
        pred_mu_def dgemv_def numeral_2_eq_2)
qed


section \<open>Further evaluations of the examples\<close>

lemma pair_filt_last:
  "fst (filt (scalar1 0) (scalar2 3) (pair3 1) (pair3 1) (pair3 1) (pair3 1) two_rows (Suc 0)) 0 = Fin (30 / 11)"
  "snd (filt (scalar1 0) (scalar2 3) (pair3 1) (pair3 1) (pair3 1) (pair3 1) two_rows (Suc 0)) 0 = Fin (7 / 11)"
  by (simp_all add: pure_defs backend_defs example_defs pair3_def slab3_def row2_def Let_def split_beta)

lemma upt_2: "[0..<2] = [0, Suc 0]"
  by (simp add: upt_rec)


section \<open>A failed factorisation in the conditioning step\<close>

text \<open>
  When \<open>dpotrf\<close> stops at a pivot that is not positive, the pivot is left on the
  diagonal, and the loop of \<open>condition_on\<close> that subtracts the logarithms of the
  diagonal takes the logarithm of it.
\<close>

lemma dbl_nan_absorbs:
  "x - NaN = NaN" "NaN - x = NaN" "x + NaN = NaN" "NaN + x = NaN"
  by (cases x; simp)+

lemma dlog_nonpositive: "dle v 0 \<or> disnan v \<Longrightarrow> dlog v = NaN"
  by (cases v) (auto simp: zero_dbl_def)

lemma potf2_failed_pivot:
  assumes "snd (potf2 j n a lda) \<noteq> 0"
  shows "\<exists>k<j. dlog (fst (potf2 j n a lda) (k + k * lda)) = NaN"
  using assms
proof (induction j)
  case 0
  then show ?case by simp
next
  case (Suc j)
  obtain a' info where p: "potf2 j n a lda = (a', info)" by (cases "potf2 j n a lda")
  show ?case
  proof (cases "info = 0")
    case False
    with Suc.IH p obtain k where "k < j" "dlog (a' (k + k * lda)) = NaN" by auto
    with p False show ?thesis by (auto intro!: exI[of _ k])
  next
    case True
    let ?ajj = "potf2_pivot j a' lda"
    from Suc.prems p True have f: "dle ?ajj 0 \<or> disnan ?ajj"
      by (auto simp: Let_def split: if_splits)
    then have "dlog ?ajj = NaN" by (rule dlog_nonpositive)
    with p True f show ?thesis by (auto simp: Let_def intro!: exI[of _ j])
  qed
qed

lemma fold_ll_nan:
  assumes "k < m" "dlog (a (k + k * q)) = NaN"
  shows "fold (\<lambda>i ll. ll - dlog (a (i + i * q))) [0..<m] l0 = NaN"
  using assms(1)
proof (induction m)
  case 0
  then show ?case by simp
next
  case (Suc m)
  show ?case
  proof (cases "k = m")
    case True
    with assms(2) show ?thesis by (simp add: dbl_nan_absorbs)
  next
    case False
    with Suc have "fold (\<lambda>i ll. ll - dlog (a (i + i * q))) [0..<m] l0 = NaN" by simp
    then show ?thesis by (simp add: dbl_nan_absorbs)
  qed
qed

lemma condition_on_failed:
  assumes sep: "cond_sep mx sx C R y mc sc tp tpn tpp"
    and obs: "s y 0 \<noteq> NaN"
    and info: "condition_on_info p n sx C R tpn tpp s \<noteq> 0"
  shows "fst (condition_on p n mx sx C R y mc sc tp tpn tpp s) = NaN"
proof -
  note d = cond_sepD[OF sep]
  let ?S = "dgemm NoTrans NoTrans p p n (Fin 1)
              (dgemm Trans NoTrans p n n (Fin 1) (s C) n (s sx) n (Fin 0) (s tpn) p) p (s C) n (Fin 1)
              (dcopy (p * p) (s R) (s tpp)) p"
  have i: "condition_on_info p n sx C R tpn tpp s = snd (dpotrf p ?S p)"
    by (simp add: condition_on_info_def Let_def split_beta dpotrf_s_info store_apply d)
  from info i have "snd (potf2 p p ?S p) \<noteq> 0" by (simp add: dpotrf_def)
  from potf2_failed_pivot[OF this] obtain k where
    k: "k < p" "dlog (fst (dpotrf p ?S p) (k + k * p)) = NaN" by (auto simp: dpotrf_def)
  have f: "\<forall>l0. fold (\<lambda>i ll. ll - dlog (fst (dpotrf p ?S p) (i + i * p))) [0..<p] l0 = NaN"
    using fold_ll_nan[where a="fst (dpotrf p ?S p)" and q=p and m=p and k=k, OF k] by blast
  show ?thesis
    using obs f
    apply (simp add: condition_on_def Let_def split_beta store_apply d del: dlog.simps)
    apply (intro conjI impI; simp)
    done
qed

lemma fwd_ll_nan:
  assumes "snd (snd (fwd mu_init sigma_init A Q C R data t)) = NaN"
  shows "snd (snd (fwd mu_init sigma_init A Q C R data (t + k))) = NaN"
proof (induction k)
  case 0
  then show ?case using assms by simp
next
  case (Suc k)
  then show ?case
    by (simp add: fwd_Suc fwd_step_def split_beta Let_def dbl_nan_absorbs)
qed

lemma failed_step_ll:
  assumes ok: "init_ok mu_init sigma_init C" and t: "t < shape3_0 C" and obs: "row2 data t 0 \<noteq> NaN"
    and info: "condition_on_info (shape3_1 C) (shape3_2 C) (Buf_sigma_predict, 0) (Buf_C, t)
                 (Buf_sigma_obs, t) (Buf_temp_pn, 0) (Buf_temp_pp, 0)
                 (fst (filter_state mu_init sigma_init A Q C R data heap t)) \<noteq> 0"
  shows "snd (snd (fwd mu_init sigma_init A Q C R data (shape3_0 C))) = NaN"
proof -
  let ?p = "shape3_1 C" and ?n = "shape3_2 C"
  let ?st = "filter_state mu_init sigma_init A Q C R data heap"
  have inv: "filter_inv mu_init sigma_init A Q C R data k (?st k)" for k
    unfolding filter_state_def by (rule filter_loop_inv[OF filter_inv_init[OF ok]])
  obtain s ll where st: "?st t = (s, ll)" by (cases "?st t")
  from inv[of t] st have y: "s (Buf_data, t) = row2 data t"
    by (simp add: filter_inv_def inputs_loaded_def)
  from info st have i: "condition_on_info ?p ?n (Buf_sigma_predict, 0) (Buf_C, t)
                 (Buf_sigma_obs, t) (Buf_temp_pn, 0) (Buf_temp_pp, 0) s \<noteq> 0" by simp
  have l: "fst (condition_on ?p ?n (Buf_mu_predict, 0) (Buf_sigma_predict, 0)
                      (Buf_C, t) (Buf_sigma_obs, t) (Buf_data, t)
                      (Buf_filtered_mus, t) (Buf_filtered_sigmas, t)
                      (Buf_temp_p, 0) (Buf_temp_pn, 0) (Buf_temp_pp, 0) s) = NaN"
    by (rule condition_on_failed[OF filter_sep(1) _ i]) (simp add: y obs)
  have "?st (Suc t) = filter_step ?p ?n t (?st t)" by (simp add: filter_state_def)
  then have "snd (?st (Suc t)) = NaN"
    by (simp add: st filter_step_def split_beta Let_def l dbl_nan_absorbs)
  with inv[of "Suc t"] have "snd (snd (fwd mu_init sigma_init A Q C R data (Suc t))) = NaN"
    by (simp add: filter_inv_def split_beta)
  from fwd_ll_nan[OF this, of "shape3_0 C - Suc t"] t show ?thesis by simp
qed


section \<open>What the routines read of the observations\<close>

text \<open>
  No backend call writes behind a pointer to the observations, and the only ones that
  read there are the test of \<open>y[0]\<close> and the copy of \<open>p\<close> entries at the start of
  \<open>condition_on\<close>.  So every primitive, loop body and routine commutes with a change
  of the observation views that keeps those entries.
\<close>

lemma with_data_data [simp]: "with_data s d (Buf_data, t) = d t"
  by (simp add: with_data_def)

lemma with_data_other [simp]: "fst q \<noteq> Buf_data \<Longrightarrow> with_data s d q = s q"
  by (cases q) (simp add: with_data_def)

lemma with_data_idem [simp]: "with_data (with_data s d) d' = with_data s d'"
  by (simp add: with_data_def fun_eq_iff)

lemma with_data_upd: "fst q \<noteq> Buf_data \<Longrightarrow> (with_data s d)(q := v) = with_data (s(q := v)) d"
  by (cases q) (auto simp: with_data_def fun_eq_iff)

lemma dcopy_s_data:
  "fst x \<noteq> Buf_data \<Longrightarrow> fst y \<noteq> Buf_data \<Longrightarrow> dcopy_s n x y (with_data s d) = with_data (dcopy_s n x y s) d"
  by (simp add: dcopy_s_def with_data_upd)

lemma dcopy_s_from_data:
  "fst y \<noteq> Buf_data \<Longrightarrow>
     dcopy_s n (Buf_data, t) y (with_data s d) = with_data (s(y := dcopy n (d t) (s y))) d"
  by (simp add: dcopy_s_def with_data_upd)

lemma daxpy_s_data:
  "fst x \<noteq> Buf_data \<Longrightarrow> fst y \<noteq> Buf_data \<Longrightarrow>
     daxpy_s n alpha x y (with_data s d) = with_data (daxpy_s n alpha x y s) d"
  by (simp add: daxpy_s_def with_data_upd)

lemma dgemm_s_data:
  "fst a \<noteq> Buf_data \<Longrightarrow> fst b \<noteq> Buf_data \<Longrightarrow> fst c \<noteq> Buf_data \<Longrightarrow>
     dgemm_s ta tb m n k alpha a lda b ldb beta c ldc (with_data s d)
       = with_data (dgemm_s ta tb m n k alpha a lda b ldb beta c ldc s) d"
  by (simp add: dgemm_s_def with_data_upd)

lemma dgemv_s_data:
  "fst a \<noteq> Buf_data \<Longrightarrow> fst x \<noteq> Buf_data \<Longrightarrow> fst y \<noteq> Buf_data \<Longrightarrow>
     dgemv_s tr m n alpha a lda x beta y (with_data s d) = with_data (dgemv_s tr m n alpha a lda x beta y s) d"
  by (simp add: dgemv_s_def with_data_upd)

lemma dger_s_data:
  "fst a \<noteq> Buf_data \<Longrightarrow> fst x \<noteq> Buf_data \<Longrightarrow> fst y \<noteq> Buf_data \<Longrightarrow>
     dger_s m n alpha x y a lda (with_data s d) = with_data (dger_s m n alpha x y a lda s) d"
  by (simp add: dger_s_def with_data_upd)

lemma dtrmv_s_data:
  "fst a \<noteq> Buf_data \<Longrightarrow> fst x \<noteq> Buf_data \<Longrightarrow>
     dtrmv_s n a lda x (with_data s d) = with_data (dtrmv_s n a lda x s) d"
  by (simp add: dtrmv_s_def with_data_upd)

lemma dpotrf_s_data:
  "fst a \<noteq> Buf_data \<Longrightarrow>
     dpotrf_s n a lda (with_data s d) = (with_data (fst (dpotrf_s n a lda s)) d, snd (dpotrf_s n a lda s))"
  by (simp add: dpotrf_s_def with_data_upd split_beta)

lemma dtrtrs_s_data:
  "fst a \<noteq> Buf_data \<Longrightarrow> fst b \<noteq> Buf_data \<Longrightarrow>
     dtrtrs_s tr n nrhs a lda b ldb (with_data s d)
       = (with_data (fst (dtrtrs_s tr n nrhs a lda b ldb s)) d, snd (dtrtrs_s tr n nrhs a lda b ldb s))"
  by (simp add: dtrtrs_s_def with_data_upd split_beta)

lemma dpotrs_s_data:
  "fst a \<noteq> Buf_data \<Longrightarrow> fst b \<noteq> Buf_data \<Longrightarrow>
     dpotrs_s n nrhs a lda b ldb (with_data s d)
       = (with_data (fst (dpotrs_s n nrhs a lda b ldb s)) d, snd (dpotrs_s n nrhs a lda b ldb s))"
  by (simp add: dpotrs_s_def with_data_upd split_beta)

lemmas data_rules = dcopy_s_data dcopy_s_from_data daxpy_s_data dgemm_s_data dgemv_s_data dger_s_data
  dtrmv_s_data dpotrf_s_data dtrtrs_s_data dpotrs_s_data

lemma dcopy_prefix: "eq_on p v v' \<Longrightarrow> dcopy p v' c = dcopy p v c"
  by (auto simp: dcopy_def eq_on_def fun_eq_iff)

lemma predict_data:
  assumes "fst mu \<noteq> Buf_data" "fst sigma \<noteq> Buf_data" "fst A \<noteq> Buf_data" "fst Q \<noteq> Buf_data"
    "fst mp \<noteq> Buf_data" "fst sp \<noteq> Buf_data" "fst tnn \<noteq> Buf_data"
  shows "predict n mu sigma A Q mp sp tnn (with_data s d) = with_data (predict n mu sigma A Q mp sp tnn s) d"
  using assms by (simp add: predict_def Let_def data_rules)

lemma sample_gaussian_data:
  assumes "fst mu \<noteq> Buf_data" "fst sigma \<noteq> Buf_data" "fst rv \<noteq> Buf_data"
  shows "sample_gaussian n mu sigma rv (with_data s d) = with_data (sample_gaussian n mu sigma rv s) d"
  using assms by (simp add: sample_gaussian_def Let_def split_beta data_rules)

lemma set_dynamics_stats_data:
  assumes "fst mk \<noteq> Buf_data" "fst mkn \<noteq> Buf_data" "fst P \<noteq> Buf_data" "fst G \<noteq> Buf_data" "fst E \<noteq> Buf_data"
  shows "set_dynamics_stats n mk mkn P G E (with_data s d) = with_data (set_dynamics_stats n mk mkn P G E s) d"
  using assms by (simp add: set_dynamics_stats_def Let_def data_rules)

lemma rts_backward_step_data:
  assumes "fst A \<noteq> Buf_data" "fst Q \<noteq> Buf_data" "fst fm \<noteq> Buf_data" "fst fs \<noteq> Buf_data"
    "fst pm \<noteq> Buf_data" "fst ps \<noteq> Buf_data" "fst sm \<noteq> Buf_data" "fst ss \<noteq> Buf_data"
    "fst t1 \<noteq> Buf_data" "fst t2 \<noteq> Buf_data"
  shows "rts_backward_step n A Q fm fs pm ps sm ss t1 t2 (with_data s d)
       = with_data (rts_backward_step n A Q fm fs pm ps sm ss t1 t2 s) d"
  using assms by (simp add: rts_backward_step_def Let_def split_beta data_rules)

lemma condition_on_no_data:
  assumes "fst mx \<noteq> Buf_data" "fst sx \<noteq> Buf_data" "fst C \<noteq> Buf_data" "fst R \<noteq> Buf_data"
    "fst y \<noteq> Buf_data"
    "fst mc \<noteq> Buf_data" "fst sc \<noteq> Buf_data" "fst tp \<noteq> Buf_data" "fst tpn \<noteq> Buf_data" "fst tpp \<noteq> Buf_data"
  shows "condition_on p n mx sx C R y mc sc tp tpn tpp (with_data s d)
       = (fst (condition_on p n mx sx C R y mc sc tp tpn tpp s),
          with_data (snd (condition_on p n mx sx C R y mc sc tp tpn tpp s)) d)"
  using assms by (simp add: condition_on_def Let_def split_beta data_rules del: dlog.simps)

lemma condition_on_data:
  assumes "fst mx \<noteq> Buf_data" "fst sx \<noteq> Buf_data" "fst C \<noteq> Buf_data" "fst R \<noteq> Buf_data"
    "fst mc \<noteq> Buf_data" "fst sc \<noteq> Buf_data" "fst tp \<noteq> Buf_data" "fst tpn \<noteq> Buf_data" "fst tpp \<noteq> Buf_data"
    and e: "eq_on p (d t) (d' t)" "d' t 0 = d t 0"
  shows "condition_on p n mx sx C R (Buf_data, t) mc sc tp tpn tpp (with_data s d')
       = (fst (condition_on p n mx sx C R (Buf_data, t) mc sc tp tpn tpp (with_data s d)),
          with_data (snd (condition_on p n mx sx C R (Buf_data, t) mc sc tp tpn tpp (with_data s d))) d')"
proof -
  note c = dcopy_prefix[OF e(1)]
  show ?thesis
    using assms(1-9)
    by (simp add: condition_on_def Let_def split_beta data_rules c e(2) del: dlog.simps)
qed

lemma filter_step_data:
  assumes "eq_on p (d t) (d' t)" "d' t 0 = d t 0"
  shows "filter_step p n t (with_data s d', ll)
       = (with_data (fst (filter_step p n t (with_data s d, ll))) d',
          snd (filter_step p n t (with_data s d, ll)))"
  by (simp add: filter_step_def Let_def split_beta predict_data
      condition_on_data[where d=d and d'=d', OF _ _ _ _ _ _ _ _ _ assms])

lemma smoother_step_data:
  assumes "eq_on p (d t) (d' t)" "d' t 0 = d t 0"
  shows "smoother_step p n t (with_data s d', ll)
       = (with_data (fst (smoother_step p n t (with_data s d, ll))) d',
          snd (smoother_step p n t (with_data s d, ll)))"
  by (simp add: smoother_step_def Let_def split_beta predict_data
      condition_on_data[where d=d and d'=d', OF _ _ _ _ _ _ _ _ _ assms])

lemma fold_step_data:
  assumes step: "\<And>t s ll. t \<in> set ts \<Longrightarrow>
            f t (with_data s d', ll) = (with_data (fst (f t (with_data s d, ll))) d', snd (f t (with_data s d, ll)))"
    and keep: "\<And>t s ll. t \<in> set ts \<Longrightarrow>
            f t (with_data s d, ll) = (with_data (fst (f t (with_data s d, ll))) d, snd (f t (with_data s d, ll)))"
  shows "fold f ts (with_data s d', ll)
       = (with_data (fst (fold f ts (with_data s d, ll))) d', snd (fold f ts (with_data s d, ll)))"
  using assms
proof (induction ts arbitrary: s ll)
  case Nil
  then show ?case by simp
next
  case (Cons t ts)
  let ?x = "f t (with_data s d, ll)"
  have 1: "f t (with_data s d', ll) = (with_data (fst ?x) d', snd ?x)" by (rule Cons.prems(1)) simp
  have 2: "?x = (with_data (fst ?x) d, snd ?x)" by (rule Cons.prems(2)) simp
  have "fold f ts (with_data (fst ?x) d', snd ?x)
      = (with_data (fst (fold f ts (with_data (fst ?x) d, snd ?x))) d',
         snd (fold f ts (with_data (fst ?x) d, snd ?x)))"
    by (rule Cons.IH) (auto intro: Cons.prems)
  then show ?case using 1 2 by simp
qed

lemma fold_filter_data:
  assumes "rows_agree p T d d'"
  shows "fold (filter_step p n) [0..<T] (with_data s d', ll)
       = (with_data (fst (fold (filter_step p n) [0..<T] (with_data s d, ll))) d',
          snd (fold (filter_step p n) [0..<T] (with_data s d, ll)))"
proof (rule fold_step_data)
  fix t s ll assume "t \<in> set [0..<T]"
  with assms have e: "eq_on p (d t) (d' t)" "d' t 0 = d t 0" by (simp_all add: rows_agree_def)
  show "filter_step p n t (with_data s d', ll)
       = (with_data (fst (filter_step p n t (with_data s d, ll))) d',
          snd (filter_step p n t (with_data s d, ll)))"
    by (rule filter_step_data[where d=d and d'=d' and t=t and p=p, OF e])
  show "filter_step p n t (with_data s d, ll)
       = (with_data (fst (filter_step p n t (with_data s d, ll))) d,
          snd (filter_step p n t (with_data s d, ll)))"
    by (rule filter_step_data) (simp_all add: eq_on_def)
qed

lemma fold_smoother_data:
  assumes "rows_agree p T d d'"
  shows "fold (smoother_step p n) [0..<T] (with_data s d', ll)
       = (with_data (fst (fold (smoother_step p n) [0..<T] (with_data s d, ll))) d',
          snd (fold (smoother_step p n) [0..<T] (with_data s d, ll)))"
proof (rule fold_step_data)
  fix t s ll assume "t \<in> set [0..<T]"
  with assms have e: "eq_on p (d t) (d' t)" "d' t 0 = d t 0" by (simp_all add: rows_agree_def)
  show "smoother_step p n t (with_data s d', ll)
       = (with_data (fst (smoother_step p n t (with_data s d, ll))) d',
          snd (smoother_step p n t (with_data s d, ll)))"
    by (rule smoother_step_data[where d=d and d'=d' and t=t and p=p, OF e])
  show "smoother_step p n t (with_data s d, ll)
       = (with_data (fst (smoother_step p n t (with_data s d, ll))) d,
          snd (smoother_step p n t (with_data s d, ll)))"
    by (rule smoother_step_data) (simp_all add: eq_on_def)
qed

lemma fold_data:
  assumes "\<And>t s. f t (with_data s d) = with_data (f t s) d"
  shows "fold f ts (with_data s d) = with_data (fold f ts s) d"
  by (induction ts arbitrary: s) (simp_all add: assms)

lemma rts_step_data: "rts_step m t (with_data s d) = with_data (rts_step m t s) d"
  by (simp add: rts_step_def rts_backward_step_data)

lemma stats_step_data: "stats_step m n t (with_data s d) = with_data (stats_step m n t s) d"
  by (simp add: stats_step_def Let_def rts_step_data set_dynamics_stats_data)

lemma sample_step_data: "sample_step ap an n t (with_data s d) = with_data (sample_step ap an n t s) d"
  by (simp add: sample_step_def Let_def split_beta condition_on_no_data sample_gaussian_data)

lemma load_inputs_data:
  "load_inputs A Q C R data heap = with_data (load_inputs A Q C R data0 heap) (row2 data)"
  by (auto simp: load_inputs_def with_data_def fun_eq_iff)

lemma copy_init_data: "copy_init mu_init sigma_init (with_data s d) = with_data (copy_init mu_init sigma_init s) d"
  by (simp add: copy_init_def with_data_upd)

lemma assign_init_data:
  "assign_init n mu_init sigma_init (with_data s d)
     = (case assign_init n mu_init sigma_init s of Inl e \<Rightarrow> Inl e | Inr r \<Rightarrow> Inr (with_data r d))"
  by (simp add: assign_init_def with_data_upd cong: if_cong)

lemma randn_data:
  "(\<lambda>(b, t). if b = Buf_randseq then randn t else with_data s d (b, t))
     = with_data (\<lambda>(b, t). if b = Buf_randseq then randn t else s (b, t)) d"
  by (auto simp: with_data_def fun_eq_iff)

lemma read_rows_data: "b \<noteq> Buf_data \<Longrightarrow> read_rows T n b (with_data s d) = read_rows T n b s"
  by (simp add: read_rows_def)

lemma read_mats_data: "b \<noteq> Buf_data \<Longrightarrow> read_mats T n b (with_data s d) = read_mats T n b s"
  by (simp add: read_mats_def)

lemma kalman_filter_data:
  assumes "rows_agree (shape3_1 C) (shape3_0 C) (row2 data) (row2 data')"
  shows "kalman_filter mu_init sigma_init A Q C R data' heap = kalman_filter mu_init sigma_init A Q C R data heap"
proof -
  let ?s = "copy_init mu_init sigma_init (load_inputs A Q C R data heap)"
  have 1: "copy_init mu_init sigma_init (load_inputs A Q C R data' heap) = with_data ?s (row2 data')"
    by (subst load_inputs_data[of A Q C R data' heap data]) (rule copy_init_data)
  have 2: "?s = with_data ?s (row2 data)"
    by (subst load_inputs_data[of A Q C R data heap data]) (simp add: copy_init_data)
  have 3: "fold (filter_step (shape3_1 C) (shape3_2 C)) [0..<shape3_0 C] (with_data ?s (row2 data), Fin 0)
         = fold (filter_step (shape3_1 C) (shape3_2 C)) [0..<shape3_0 C] (?s, Fin 0)"
    using 2 by simp
  show ?thesis
    unfolding kalman_filter_def Let_def 1 fold_filter_data[OF assms] 3
    by (simp add: split_beta read_rows_data read_mats_data)
qed

lemma rts_smoother_data:
  assumes "rows_agree (shape3_1 C) (shape3_0 C) (row2 data) (row2 data')"
  shows "rts_smoother mu_init sigma_init A Q C R data' heap = rts_smoother mu_init sigma_init A Q C R data heap"
proof -
  let ?L = "load_inputs A Q C R data heap"
  have 1: "load_inputs A Q C R data' heap = with_data ?L (row2 data')"
    by (rule load_inputs_data)
  have 2: "?L = with_data ?L (row2 data)"
    by (rule load_inputs_data)
  show ?thesis
  proof (cases "assign_init (shape3_2 C) mu_init sigma_init ?L")
    case (Inl e)
    then show ?thesis by (simp add: rts_smoother_def 1 assign_init_data)
  next
    case (Inr s0)
    from Inr have "assign_init (shape3_2 C) mu_init sigma_init (with_data ?L (row2 data)) = Inr s0"
      using 2 by simp
    then have 3: "s0 = with_data s0 (row2 data)" by (simp add: assign_init_data Inr)
    have 4: "fold (smoother_step (shape3_1 C) (shape3_2 C)) [0..<shape3_0 C] (with_data s0 (row2 data), Fin 0)
           = fold (smoother_step (shape3_1 C) (shape3_2 C)) [0..<shape3_0 C] (s0, Fin 0)"
      using 3 by simp
    show ?thesis
      unfolding rts_smoother_def Let_def 1 assign_init_data Inr
      by (simp add: fold_smoother_data[OF assms] 4 split_beta fold_data[of "rts_step (shape3_1 A)", OF rts_step_data]
          read_rows_data read_mats_data)
  qed
qed

lemma E_step_data:
  assumes "rows_agree (shape3_1 C) (shape3_0 C) (row2 data) (row2 data')"
  shows "E_step mu_init sigma_init A Q C R data' heap = E_step mu_init sigma_init A Q C R data heap"
proof -
  let ?L = "load_inputs A Q C R data heap"
  have 1: "load_inputs A Q C R data' heap = with_data ?L (row2 data')"
    by (rule load_inputs_data)
  have 2: "?L = with_data ?L (row2 data)"
    by (rule load_inputs_data)
  show ?thesis
  proof (cases "assign_init (shape3_2 C) mu_init sigma_init ?L")
    case (Inl e)
    then show ?thesis by (simp add: E_step_def 1 assign_init_data cong: if_cong)
  next
    case (Inr s0)
    from Inr have "assign_init (shape3_2 C) mu_init sigma_init (with_data ?L (row2 data)) = Inr s0"
      using 2 by simp
    then have 3: "s0 = with_data s0 (row2 data)" by (simp add: assign_init_data Inr)
    have 4: "fold (smoother_step (shape3_1 C) (shape3_2 C)) [0..<shape3_0 C] (with_data s0 (row2 data), Fin 0)
           = fold (smoother_step (shape3_1 C) (shape3_2 C)) [0..<shape3_0 C] (s0, Fin 0)"
      using 3 by simp
    show ?thesis
      unfolding E_step_def Let_def 1 assign_init_data Inr
      by (simp add: fold_smoother_data[OF assms] 4 split_beta
          fold_data[of "stats_step (shape3_1 A) (shape3_2 C)", OF stats_step_data]
          read_rows_data read_mats_data cong: if_cong)
  qed
qed

lemma filter_and_sample_data:
  assumes "rows_agree (shape3_1 C) (shape3_0 C) (row2 data) (row2 data')"
  shows "filter_and_sample mu_init sigma_init A Q C R data' randn heap
       = filter_and_sample mu_init sigma_init A Q C R data randn heap"
proof -
  let ?c = "copy_init mu_init sigma_init (load_inputs A Q C R data heap)"
  let ?s = "\<lambda>(b, t). if b = Buf_randseq then randn t else ?c (b, t)"
  have c1: "copy_init mu_init sigma_init (load_inputs A Q C R data' heap) = with_data ?c (row2 data')"
    by (subst load_inputs_data[of A Q C R data' heap data]) (rule copy_init_data)
  have c2: "?c = with_data ?c (row2 data)"
    by (subst load_inputs_data[of A Q C R data heap data]) (simp add: copy_init_data)
  have 1: "(\<lambda>(b, t). if b = Buf_randseq then randn t
                     else copy_init mu_init sigma_init (load_inputs A Q C R data' heap) (b, t))
         = with_data ?s (row2 data')"
    unfolding c1 by (rule randn_data)
  have 2: "?s = with_data ?s (row2 data)"
    by (auto simp: with_data_def fun_eq_iff load_inputs_def copy_init_def)
  have 3: "fold (filter_step (shape3_1 C) (shape3_2 C)) [0..<shape3_0 C] (with_data ?s (row2 data), Fin 0)
         = fold (filter_step (shape3_1 C) (shape3_2 C)) [0..<shape3_0 C] (?s, Fin 0)"
    using 2 by simp
  show ?thesis
    unfolding filter_and_sample_def Let_def 1 fold_filter_data[OF assms] 3
    by (simp add: split_beta sample_gaussian_data
        fold_data[of "sample_step (shape3_1 A) (shape3_2 A) (shape3_2 C)", OF sample_step_data]
        read_rows_data)
qed

lemma rows_agreeI:
  assumes len: "shape2_1 data' = shape2_1 data" and pos: "0 < shape2_1 data" and p: "p \<le> shape2_1 data"
    and same: "\<forall>z < T * shape2_1 data. flat2 data' z = flat2 data z"
  shows "rows_agree p T (row2 data) (row2 data')"
proof -
  have "flat2 data' (t * shape2_1 data + z) = flat2 data (t * shape2_1 data + z)"
    if "t < T" "z < shape2_1 data" for t z
  proof -
    have "t * shape2_1 data + z < Suc t * shape2_1 data" using that(2) by simp
    also have "\<dots> \<le> T * shape2_1 data" using that(1) by (intro mult_le_mono1) simp
    finally show ?thesis using same by simp
  qed
  note e = this
  have "flat2 data' (t * shape2_1 data) = flat2 data (t * shape2_1 data)" if "t < T" for t
    using e[OF that pos] by simp
  with e show ?thesis
    using len p by (auto simp: rows_agree_def row2_def eq_on_def)
qed


section \<open>Evaluating the routines on the example inputs\<close>

lemma kalman_filter_scalar:
  "kalman_filter (scalar1 0) (scalar2 3) (scalar3 1) (scalar3 1) (scalar3 1) (scalar3 1) (scalar2 3) heap
     = Inr (Fin (- (9 / 8) - ln (2 * pi) / 2 - ln 2), [[Fin (9 / 4)]], [[[Fin (3 / 4)]]])"
  by (simp add: routine_defs backend_defs example_defs)

lemma kalman_filter_scalar_missing:
  "kalman_filter (scalar1 2) (scalar2 3) (scalar3 1) (scalar3 1) (scalar3 1) (scalar3 1) nan_rows heap
     = Inr (Fin 0, [[Fin 2]], [[[Fin 3]]])"
  by (simp add: routine_defs backend_defs example_defs)


section \<open>The claims\<close>

subsection \<open>C3: a missing observation\<close>

text \<open>
  C3.  When the first coordinate of the observation is NaN, \<open>condition_on\<close> returns
  exactly 0 and leaves in the output buffers the first \<open>n\<close> entries of the prior
  mean and the first \<open>n * n\<close> entries of the prior covariance (for every separated
  choice of pointers, outputs aliased to the inputs or not).  In \<open>kalman_filter\<close>,
  for every step \<open>t < T\<close> whose observation is so marked, the returned filtered mean
  and covariance at \<open>t\<close> are the contents of \<open>mu_predict\<close> and
  \<open>sigma_predict\<close> on entry to iteration \<open>t\<close> (the prediction written by
  iteration \<open>t - 1\<close>, or the initial belief for \<open>t = 0\<close>), and the accumulated
  log-likelihood after iteration \<open>t\<close> is the one before it.
\<close>

theorem missing_observation:
  assumes "cond_sep mu_x sigma_x C sigma_obs y mu_cond sigma_cond temp_p temp_pn temp_pp"
    and "dne (s y 0) (s y 0)"
    and "t < shape3_0 Cs" and "dne (row2 data t 0) (row2 data t 0)"
  shows "fst (condition_on p n mu_x sigma_x C sigma_obs y mu_cond sigma_cond temp_p temp_pn temp_pp s) = Fin 0 \<and>
         map (snd (condition_on p n mu_x sigma_x C sigma_obs y mu_cond sigma_cond temp_p temp_pn temp_pp s) mu_cond) [0..<n]
           = map (s mu_x) [0..<n] \<and>
         map (snd (condition_on p n mu_x sigma_x C sigma_obs y mu_cond sigma_cond temp_p temp_pn temp_pp s) sigma_cond) [0..<n * n]
           = map (s sigma_x) [0..<n * n] \<and>
         (\<exists>ll mus sigmas.
            kalman_filter mu_init sigma_init A Q Cs R data heap = Inr (ll, mus, sigmas) \<and>
            mus ! t = map (fst (filter_state mu_init sigma_init A Q Cs R data heap t) (Buf_mu_predict, 0))
                        [0..<shape3_2 Cs] \<and>
            sigmas ! t = map (\<lambda>i. map (\<lambda>j. fst (filter_state mu_init sigma_init A Q Cs R data heap t)
                                               (Buf_sigma_predict, 0) (i * shape3_2 Cs + j))
                                      [0..<shape3_2 Cs]) [0..<shape3_2 Cs] \<and>
            snd (filter_state mu_init sigma_init A Q Cs R data heap (Suc t))
              = snd (filter_state mu_init sigma_init A Q Cs R data heap t))"
proof -
  let ?T = "shape3_0 Cs" and ?p = "shape3_1 Cs" and ?n = "shape3_2 Cs"
  let ?st = "filter_state mu_init sigma_init A Q Cs R data heap"
  obtain st llt where st: "?st t = (st, llt)" by (cases "?st t")
  have y: "dne (st (Buf_data, t) 0) (st (Buf_data, t) 0)"
    using filter_state_data[of mu_init sigma_init A Q Cs R data heap t t] st assms(4) by simp
  define r where "r = condition_on ?p ?n (Buf_mu_predict, 0) (Buf_sigma_predict, 0)
                      (Buf_C, t) (Buf_sigma_obs, t) (Buf_data, t)
                      (Buf_filtered_mus, t) (Buf_filtered_sigmas, t)
                      (Buf_temp_p, 0) (Buf_temp_pn, 0) (Buf_temp_pp, 0) st"
  define s2 where "s2 = predict ?n (Buf_filtered_mus, t) (Buf_filtered_sigmas, t) (Buf_A, t) (Buf_sigma_states, t)
                 (Buf_mu_predict, 0) (Buf_sigma_predict, 0) (Buf_temp_nn, 0) (snd r)"
  have step: "filter_step ?p ?n t (st, llt) = (s2, llt + fst r)"
    by (simp add: filter_step_def split_beta Let_def r_def s2_def)
  have r1: "fst r = Fin 0" and r2: "eq_on ?n (snd r (Buf_filtered_mus, t)) (st (Buf_mu_predict, 0))"
    and r3: "eq_on (?n * ?n) (snd r (Buf_filtered_sigmas, t)) (st (Buf_sigma_predict, 0))"
    unfolding r_def using condition_on_missing(1-3)[OF filter_sep(1)[of t], where s=st, OF y] by simp_all
  have S: "?st (Suc t) = (s2, llt)"
    using st step r1 by (simp add: filter_state_def)
  have s2m: "s2 (Buf_filtered_mus, t) = snd r (Buf_filtered_mus, t)"
    and s2s: "s2 (Buf_filtered_sigmas, t) = snd r (Buf_filtered_sigmas, t)"
    unfolding s2_def by (simp_all add: predict_frame)
  define sT where "sT = fold (filter_step ?p ?n) [Suc t..<?T] (s2, llt)"
  have full: "?st ?T = sT"
  proof -
    have "[0..<?T] = [0..<Suc t] @ [Suc t..<?T]"
      using assms(3) by (metis Suc_leI le0 upt_add_eq_append le_add_diff_inverse)
    then have "?st ?T = fold (filter_step ?p ?n) [Suc t..<?T] (?st (Suc t))"
      unfolding filter_state_def by (metis fold_append comp_apply)
    then show ?thesis using S by (simp add: sT_def)
  qed
  have keep: "fst sT (Buf_filtered_mus, t) = s2 (Buf_filtered_mus, t)"
    "fst sT (Buf_filtered_sigmas, t) = s2 (Buf_filtered_sigmas, t)"
    unfolding sT_def by (subst fold_filter_step_frame; simp)+
  have kf: "kalman_filter mu_init sigma_init A Q Cs R data heap
      = Inr (snd sT, read_rows ?T ?n Buf_filtered_mus (fst sT), read_mats ?T ?n Buf_filtered_sigmas (fst sT))"
    using full by (simp add: kalman_filter_def Let_def split_beta filter_state_def)
  have m: "read_rows ?T ?n Buf_filtered_mus (fst sT) ! t = map (st (Buf_mu_predict, 0)) [0..<?n]"
    using assms(3) keep s2m r2 by (simp add: read_rows_def eq_on_map)
  have "fst sT (Buf_filtered_sigmas, t) (i * ?n + j) = st (Buf_sigma_predict, 0) (i * ?n + j)"
    if "i < ?n" "j < ?n" for i j
    using keep s2s r3 idx_lt[of j ?n i ?n] that by (simp add: eq_on_def add.commute)
  then have c: "read_mats ?T ?n Buf_filtered_sigmas (fst sT) ! t
      = map (\<lambda>i. map (\<lambda>j. st (Buf_sigma_predict, 0) (i * ?n + j)) [0..<?n]) [0..<?n]"
    using assms(3) by (simp add: read_mats_def)
  show ?thesis
    using condition_on_missing(1-3)[OF assms(1), where s=s and p=p and n=n, OF assms(2)] kf m c S st
    by (simp add: eq_on_map)
qed

text \<open>
  Witness for C3: the scalar model with prior mean 2, prior variance 3 and a missing
  observation; the filter returns the prior and log-likelihood 0.
\<close>

theorem missing_observation_witness:
  "cond_sep (Buf_mu_predict, 0) (Buf_sigma_predict, 0) (Buf_C, 0) (Buf_sigma_obs, 0) (Buf_data, 0)
     (Buf_filtered_mus, 0) (Buf_filtered_sigmas, 0) (Buf_temp_p, 0) (Buf_temp_pn, 0) (Buf_temp_pp, 0) \<and>
   dne (no_heap (Buf_data, 0) 0) (no_heap (Buf_data, 0) 0) \<and>
   0 < shape3_0 (scalar3 1) \<and> dne (row2 nan_rows 0 0) (row2 nan_rows 0 0) \<and>
   fst (condition_on 1 1 (Buf_mu_predict, 0) (Buf_sigma_predict, 0) (Buf_C, 0) (Buf_sigma_obs, 0) (Buf_data, 0)
     (Buf_filtered_mus, 0) (Buf_filtered_sigmas, 0) (Buf_temp_p, 0) (Buf_temp_pn, 0) (Buf_temp_pp, 0) no_heap) = Fin 0 \<and>
   kalman_filter (scalar1 2) (scalar2 3) (scalar3 1) (scalar3 1) (scalar3 1) (scalar3 1) nan_rows no_heap
     = Inr (Fin 0, [[Fin 2]], [[[Fin 3]]]) \<and>
   snd (filter_state (scalar1 2) (scalar2 3) (scalar3 1) (scalar3 1) (scalar3 1) (scalar3 1) nan_rows no_heap (Suc 0))
     = snd (filter_state (scalar1 2) (scalar2 3) (scalar3 1) (scalar3 1) (scalar3 1) (scalar3 1) nan_rows no_heap 0)"
proof -
  have sep: "cond_sep (Buf_mu_predict, 0) (Buf_sigma_predict, 0) (Buf_C, 0) (Buf_sigma_obs, 0) (Buf_data, 0)
     (Buf_filtered_mus, 0) (Buf_filtered_sigmas, 0) (Buf_temp_p, 0) (Buf_temp_pn, 0) (Buf_temp_pp, 0)"
    by (simp add: cond_sep_def)
  have y: "dne (no_heap (Buf_data, 0) 0) (no_heap (Buf_data, 0) 0)" by (simp add: no_heap_def)
  have t: "0 < shape3_0 (scalar3 1)" by (simp add: scalar3_def)
  have d: "dne (row2 nan_rows 0 0) (row2 nan_rows 0 0)" by (simp add: row2_def nan_rows_def)
  show ?thesis
    using sep y t d kalman_filter_scalar_missing[of no_heap]
      missing_observation[OF sep, where s=no_heap and Cs="scalar3 1" and t=0 and data=nan_rows, OF y t d,
        where p=1 and n=1 and mu_init="scalar1 2" and sigma_init="scalar2 3" and A="scalar3 1"
          and Q="scalar3 1" and R="scalar3 1" and heap=no_heap]
    by simp
qed

subsection \<open>C5: the smoother at the last step\<close>

text \<open>
  C5.  For inputs whose initial belief has the shape \<open>n\<close> and \<open>n \<times> n\<close> that
  \<open>C\<close> fixes, whose dynamics matrices have \<open>n\<close> rows (the backward step takes
  its dimension from \<open>A\<close>, and with another one it would write past the slices it
  is given), and \<open>T \<ge> 1\<close>, the mean and covariance that \<open>rts_smoother\<close>
  returns at index \<open>T - 1\<close> are the ones \<open>kalman_filter\<close> returns at
  \<open>T - 1\<close> on the same input (whatever the uninitialised memory of either call held):
  the backward loop writes the smoothed slices \<open>T - 2, ..., 0\<close> only.
\<close>

theorem smoother_final_step:
  assumes "shape1_0 mu_init = shape3_2 C" "shape2_0 sigma_init = shape3_2 C"
    "shape2_1 sigma_init = shape3_2 C" "0 < shape3_0 C" "shape3_1 A = shape3_2 C"
  shows "\<exists>ll mf sf ll' ms ss.
           kalman_filter mu_init sigma_init A Q C R data heap1 = Inr (ll, mf, sf) \<and>
           rts_smoother mu_init sigma_init A Q C R data heap2 = Inr (ll', ms, ss) \<and>
           ms ! (shape3_0 C - 1) = mf ! (shape3_0 C - 1) \<and>
           ss ! (shape3_0 C - 1) = sf ! (shape3_0 C - 1)"
proof -
  let ?T = "shape3_0 C" and ?n = "shape3_2 C"
  let ?filt = "filt mu_init sigma_init A Q C R data"
  have ok: "init_ok mu_init sigma_init C" using assms by (simp add: init_ok_def)
  from rts_smoother_shape[OF ok, of A Q R data heap2] obtain s1 s2 where
    inv: "smoother_inv mu_init sigma_init A Q C R data ?T
             (s1, snd (snd (fwd mu_init sigma_init A Q C R data ?T)))"
    and s2: "s2 = fold (rts_step (shape3_1 A)) (rev [0..<?T - 1]) s1"
    and r: "rts_smoother mu_init sigma_init A Q C R data heap2
             = Inr (snd (snd (fwd mu_init sigma_init A Q C R data ?T)),
                    read_rows ?T ?n Buf_smoothed_mus s2, read_mats ?T ?n Buf_smoothed_sigmas s2)"
    by blast
  have last: "s2 (Buf_smoothed_mus, ?T - 1) = s1 (Buf_smoothed_mus, ?T - 1)"
    "s2 (Buf_smoothed_sigmas, ?T - 1) = s1 (Buf_smoothed_sigmas, ?T - 1)"
    unfolding s2 using fold_rts_last[of "rev [0..<?T - 1]" "?T - 1" "shape3_1 A" s1] by simp_all
  from inv assms(4) have e: "eq_on ?n (s1 (Buf_smoothed_mus, ?T - 1)) (fst (?filt (?T - 1)))"
    "eq_on (?n * ?n) (s1 (Buf_smoothed_sigmas, ?T - 1)) (snd (?filt (?T - 1)))"
    by (simp_all add: smoother_inv_def)
  have m: "read_rows ?T ?n Buf_smoothed_mus s2 ! (?T - 1) = map (fst (?filt (?T - 1))) [0..<?n]"
    using assms(4) e(1) last by (simp add: read_rows_def eq_on_map)
  have "s2 (Buf_smoothed_sigmas, ?T - 1) (i * ?n + j) = snd (?filt (?T - 1)) (i * ?n + j)"
    if "i < ?n" "j < ?n" for i j
    using e(2) last idx_lt[of j ?n i ?n] that by (simp add: eq_on_def add.commute)
  then have c: "read_mats ?T ?n Buf_smoothed_sigmas s2 ! (?T - 1)
       = map (\<lambda>i. map (\<lambda>j. snd (?filt (?T - 1)) (i * ?n + j)) [0..<?n]) [0..<?n]"
    using assms(4) by (simp add: read_mats_def)
  have m': "filtered_rows mu_init sigma_init A Q C R data ! (?T - 1) = map (fst (?filt (?T - 1))) [0..<?n]"
    using assms(4) by (simp add: filtered_rows_def)
  have c': "filtered_mats mu_init sigma_init A Q C R data ! (?T - 1)
       = map (\<lambda>i. map (\<lambda>j. snd (?filt (?T - 1)) (i * ?n + j)) [0..<?n]) [0..<?n]"
    using assms(4) by (simp add: filtered_mats_def)
  show ?thesis
    using kalman_filter_pure[OF ok, of A Q R data heap1] r m c m' c' by simp
qed

text \<open>
  Witness for C5: the scalar model with two observations, so that the backward loop
  runs once (on slice \<open>0\<close>); the values at the last index \<open>1\<close> are explicit.
\<close>

theorem smoother_final_step_witness:
  "shape1_0 (scalar1 0) = shape3_2 (pair3 1) \<and> shape2_0 (scalar2 3) = shape3_2 (pair3 1) \<and>
   shape2_1 (scalar2 3) = shape3_2 (pair3 1) \<and> 0 < shape3_0 (pair3 1) \<and>
   shape3_1 (pair3 1) = shape3_2 (pair3 1) \<and> rev [0..<shape3_0 (pair3 1) - 1] = [0] \<and>
   (\<exists>ll mf sf ll' ms ss.
      kalman_filter (scalar1 0) (scalar2 3) (pair3 1) (pair3 1) (pair3 1) (pair3 1) two_rows no_heap
        = Inr (ll, mf, sf) \<and>
      rts_smoother (scalar1 0) (scalar2 3) (pair3 1) (pair3 1) (pair3 1) (pair3 1) two_rows no_heap
        = Inr (ll', ms, ss) \<and>
      ms ! 1 = [Fin (30 / 11)] \<and> mf ! 1 = [Fin (30 / 11)] \<and>
      ss ! 1 = [[Fin (7 / 11)]] \<and> sf ! 1 = [[Fin (7 / 11)]])"
proof -
  have h: "shape1_0 (scalar1 0) = shape3_2 (pair3 1)" "shape2_0 (scalar2 3) = shape3_2 (pair3 1)"
    "shape2_1 (scalar2 3) = shape3_2 (pair3 1)" "0 < shape3_0 (pair3 1)"
    "shape3_1 (pair3 1) = shape3_2 (pair3 1)"
    by (simp_all add: example_defs pair3_simps)
  have l: "rev [0..<shape3_0 (pair3 1) - 1] = [0]" by (simp add: pair3_simps)
  from smoother_final_step[OF h, where Q="pair3 1" and R="pair3 1"
      and data=two_rows and ?heap1.0=no_heap and ?heap2.0=no_heap]
  obtain ll mf sf ll' ms ss where
    k: "kalman_filter (scalar1 0) (scalar2 3) (pair3 1) (pair3 1) (pair3 1) (pair3 1) two_rows no_heap
        = Inr (ll, mf, sf)"
    and r: "rts_smoother (scalar1 0) (scalar2 3) (pair3 1) (pair3 1) (pair3 1) (pair3 1) two_rows no_heap
        = Inr (ll', ms, ss)"
    and e: "ms ! (shape3_0 (pair3 1) - 1) = mf ! (shape3_0 (pair3 1) - 1)"
      "ss ! (shape3_0 (pair3 1) - 1) = sf ! (shape3_0 (pair3 1) - 1)"
    by blast
  from k kalman_filter_pure[OF pair_hyps(1), of "pair3 1" "pair3 1" "pair3 1" two_rows no_heap]
  have "mf = filtered_rows (scalar1 0) (scalar2 3) (pair3 1) (pair3 1) (pair3 1) (pair3 1) two_rows"
    "sf = filtered_mats (scalar1 0) (scalar2 3) (pair3 1) (pair3 1) (pair3 1) (pair3 1) two_rows"
    by simp_all
  then have v: "mf ! 1 = [Fin (30 / 11)]" "sf ! 1 = [[Fin (7 / 11)]]"
    by (simp_all add: filtered_rows_def filtered_mats_def pair3_simps pair_filt_last)
  with e have "ms ! 1 = [Fin (30 / 11)]" "ss ! 1 = [[Fin (7 / 11)]]"
    by (simp_all add: pair3_simps)
  with h l k r v show ?thesis by blast
qed

subsection \<open>C6: one log-likelihood\<close>

text \<open>
  C6.  For inputs whose initial belief has the shape that \<open>C\<close> fixes, and
  \<open>T \<ge> 1\<close>, the four routines return the same total log-likelihood, whatever the
  uninitialised memory of each call and the random draws are.
\<close>

theorem same_log_likelihood:
  assumes "shape1_0 mu_init = shape3_2 C" "shape2_0 sigma_init = shape3_2 C"
    "shape2_1 sigma_init = shape3_2 C" "0 < shape3_0 C"
  shows "\<exists>ll mf sf ms ss xs em es ex.
           kalman_filter mu_init sigma_init A Q C R data heap1 = Inr (ll, mf, sf) \<and>
           rts_smoother mu_init sigma_init A Q C R data heap2 = Inr (ll, ms, ss) \<and>
           filter_and_sample mu_init sigma_init A Q C R data randn heap3 = Inr (ll, xs) \<and>
           E_step mu_init sigma_init A Q C R data heap4 = Inr (ll, em, es, ex)"
proof -
  have ok: "init_ok mu_init sigma_init C" using assms by (simp add: init_ok_def)
  from kalman_filter_pure[OF ok, of A Q R data heap1] filter_and_sample_ll[OF ok assms(4), of A Q R data randn heap3]
    rts_smoother_shape[OF ok, of A Q R data heap2] E_step_shape[OF ok assms(4), of A Q R data heap4]
  show ?thesis by (elim exE conjE) (simp only: sum.inject prod.inject, blast)
qed

text \<open>Witness for C6: the scalar model with one observation; the common value is explicit.\<close>

theorem same_log_likelihood_witness:
  "shape1_0 (scalar1 0) = shape3_2 (scalar3 1) \<and> shape2_0 (scalar2 3) = shape3_2 (scalar3 1) \<and>
   shape2_1 (scalar2 3) = shape3_2 (scalar3 1) \<and> 0 < shape3_0 (scalar3 1) \<and>
   (\<exists>mf sf ms ss xs em es ex.
      kalman_filter (scalar1 0) (scalar2 3) (scalar3 1) (scalar3 1) (scalar3 1) (scalar3 1) (scalar2 3) no_heap
        = Inr (Fin (- (9 / 8) - ln (2 * pi) / 2 - ln 2), mf, sf) \<and>
      rts_smoother (scalar1 0) (scalar2 3) (scalar3 1) (scalar3 1) (scalar3 1) (scalar3 1) (scalar2 3) no_heap
        = Inr (Fin (- (9 / 8) - ln (2 * pi) / 2 - ln 2), ms, ss) \<and>
      filter_and_sample (scalar1 0) (scalar2 3) (scalar3 1) (scalar3 1) (scalar3 1) (scalar3 1) (scalar2 3)
          no_draws no_heap
        = Inr (Fin (- (9 / 8) - ln (2 * pi) / 2 - ln 2), xs) \<and>
      E_step (scalar1 0) (scalar2 3) (scalar3 1) (scalar3 1) (scalar3 1) (scalar3 1) (scalar2 3) no_heap
        = Inr (Fin (- (9 / 8) - ln (2 * pi) / 2 - ln 2), em, es, ex))"
proof -
  have h: "shape1_0 (scalar1 0) = shape3_2 (scalar3 1)" "shape2_0 (scalar2 3) = shape3_2 (scalar3 1)"
    "shape2_1 (scalar2 3) = shape3_2 (scalar3 1)" "0 < shape3_0 (scalar3 1)"
    by (simp_all add: example_defs)
  from same_log_likelihood[OF h, where A="scalar3 1" and Q="scalar3 1" and R="scalar3 1"
      and data="scalar2 3" and ?heap1.0=no_heap and ?heap2.0=no_heap and ?heap3.0=no_heap
      and ?heap4.0=no_heap and randn=no_draws]
  obtain ll mf sf ms ss xs em es ex where
    k: "kalman_filter (scalar1 0) (scalar2 3) (scalar3 1) (scalar3 1) (scalar3 1) (scalar3 1) (scalar2 3) no_heap
        = Inr (ll, mf, sf)"
    and r: "rts_smoother (scalar1 0) (scalar2 3) (scalar3 1) (scalar3 1) (scalar3 1) (scalar3 1) (scalar2 3) no_heap
        = Inr (ll, ms, ss)"
    and f: "filter_and_sample (scalar1 0) (scalar2 3) (scalar3 1) (scalar3 1) (scalar3 1) (scalar3 1) (scalar2 3)
          no_draws no_heap = Inr (ll, xs)"
    and e: "E_step (scalar1 0) (scalar2 3) (scalar3 1) (scalar3 1) (scalar3 1) (scalar3 1) (scalar2 3) no_heap
        = Inr (ll, em, es, ex)"
    by blast
  from k kalman_filter_scalar[of no_heap] have "ll = Fin (- (9 / 8) - ln (2 * pi) / 2 - ln 2)" by simp
  with h k r f e show ?thesis by blast
qed

subsection \<open>C9: conditioning in place\<close>

text \<open>
  C9.  For every store, sizes and separated pointers, \<open>condition_on\<close> called with
  \<open>mu_cond\<close>, \<open>sigma_cond\<close> being the pointers \<open>mu_x\<close>, \<open>sigma_x\<close>
  themselves returns the same value, and leaves the same \<open>n\<close> entries of the mean
  and \<open>n * n\<close> entries of the covariance in the output, as the call with any other
  separated output pointers.
\<close>

theorem in_place_conditioning:
  assumes "cond_sep mu_x sigma_x C sigma_obs y mu_x sigma_x temp_p temp_pn temp_pp"
    and "cond_sep mu_x sigma_x C sigma_obs y mu_cond sigma_cond temp_p temp_pn temp_pp"
  shows "fst (condition_on p n mu_x sigma_x C sigma_obs y mu_x sigma_x temp_p temp_pn temp_pp s)
           = fst (condition_on p n mu_x sigma_x C sigma_obs y mu_cond sigma_cond temp_p temp_pn temp_pp s) \<and>
         map (snd (condition_on p n mu_x sigma_x C sigma_obs y mu_x sigma_x temp_p temp_pn temp_pp s) mu_x) [0..<n]
           = map (snd (condition_on p n mu_x sigma_x C sigma_obs y mu_cond sigma_cond temp_p temp_pn temp_pp s) mu_cond) [0..<n] \<and>
         map (snd (condition_on p n mu_x sigma_x C sigma_obs y mu_x sigma_x temp_p temp_pn temp_pp s) sigma_x) [0..<n * n]
           = map (snd (condition_on p n mu_x sigma_x C sigma_obs y mu_cond sigma_cond temp_p temp_pn temp_pp s) sigma_cond) [0..<n * n]"
  using condition_on_ll[OF assms(1), of p n s] condition_on_ll[OF assms(2), of p n s]
    condition_on_mu[OF assms(1), of n p s] condition_on_mu[OF assms(2), of n p s]
    condition_on_sigma[OF assms(1), of n p s] condition_on_sigma[OF assms(2), of n p s]
  by (simp add: eq_on_map)

text \<open>
  Witness for C9: the conditioning step of the scalar model, on the store
  \<open>kalman_filter\<close> starts from, in place and into the filtered slices.
\<close>

theorem in_place_conditioning_witness:
  "cond_sep (Buf_mu_predict, 0) (Buf_sigma_predict, 0) (Buf_C, 0) (Buf_sigma_obs, 0) (Buf_data, 0)
     (Buf_mu_predict, 0) (Buf_sigma_predict, 0) (Buf_temp_p, 0) (Buf_temp_pn, 0) (Buf_temp_pp, 0) \<and>
   cond_sep (Buf_mu_predict, 0) (Buf_sigma_predict, 0) (Buf_C, 0) (Buf_sigma_obs, 0) (Buf_data, 0)
     (Buf_filtered_mus, 0) (Buf_filtered_sigmas, 0) (Buf_temp_p, 0) (Buf_temp_pn, 0) (Buf_temp_pp, 0) \<and>
   map (snd (condition_on 1 1 (Buf_mu_predict, 0) (Buf_sigma_predict, 0) (Buf_C, 0) (Buf_sigma_obs, 0) (Buf_data, 0)
              (Buf_mu_predict, 0) (Buf_sigma_predict, 0) (Buf_temp_p, 0) (Buf_temp_pn, 0) (Buf_temp_pp, 0)
              (copy_init (scalar1 0) (scalar2 3)
                 (load_inputs (scalar3 1) (scalar3 1) (scalar3 1) (scalar3 1) (scalar2 3) no_heap)))
          (Buf_mu_predict, 0)) [0..<1]
     = [Fin (9 / 4)] \<and>
   map (snd (condition_on 1 1 (Buf_mu_predict, 0) (Buf_sigma_predict, 0) (Buf_C, 0) (Buf_sigma_obs, 0) (Buf_data, 0)
              (Buf_filtered_mus, 0) (Buf_filtered_sigmas, 0) (Buf_temp_p, 0) (Buf_temp_pn, 0) (Buf_temp_pp, 0)
              (copy_init (scalar1 0) (scalar2 3)
                 (load_inputs (scalar3 1) (scalar3 1) (scalar3 1) (scalar3 1) (scalar2 3) no_heap)))
          (Buf_filtered_mus, 0)) [0..<1]
     = [Fin (9 / 4)]"
proof -
  have a: "cond_sep (Buf_mu_predict, 0) (Buf_sigma_predict, 0) (Buf_C, 0) (Buf_sigma_obs, 0) (Buf_data, 0)
     (Buf_mu_predict, 0) (Buf_sigma_predict, 0) (Buf_temp_p, 0) (Buf_temp_pn, 0) (Buf_temp_pp, 0)"
    and b: "cond_sep (Buf_mu_predict, 0) (Buf_sigma_predict, 0) (Buf_C, 0) (Buf_sigma_obs, 0) (Buf_data, 0)
     (Buf_filtered_mus, 0) (Buf_filtered_sigmas, 0) (Buf_temp_p, 0) (Buf_temp_pn, 0) (Buf_temp_pp, 0)"
    by (simp_all add: cond_sep_def)
  have v: "map (snd (condition_on 1 1 (Buf_mu_predict, 0) (Buf_sigma_predict, 0) (Buf_C, 0) (Buf_sigma_obs, 0) (Buf_data, 0)
              (Buf_filtered_mus, 0) (Buf_filtered_sigmas, 0) (Buf_temp_p, 0) (Buf_temp_pn, 0) (Buf_temp_pp, 0)
              (copy_init (scalar1 0) (scalar2 3)
                 (load_inputs (scalar3 1) (scalar3 1) (scalar3 1) (scalar3 1) (scalar2 3) no_heap)))
          (Buf_filtered_mus, 0)) [0..<1]
     = [Fin (9 / 4)]"
    by (simp add: routine_defs backend_defs example_defs)
  show ?thesis
    using a b v in_place_conditioning[OF a b, where p=1 and n=1
        and s="copy_init (scalar1 0) (scalar2 3)
                 (load_inputs (scalar3 1) (scalar3 1) (scalar3 1) (scalar3 1) (scalar2 3) no_heap)"]
    by simp
qed

subsection \<open>C10: a single observation\<close>

text \<open>
  C10.  For \<open>T = 1\<close> and an initial belief of the shape that \<open>C\<close> fixes, all four
  routines return a result; the backward loops range over the empty list;
  \<open>rts_smoother\<close> returns the log-likelihood, means and covariances that
  \<open>kalman_filter\<close> returns; and \<open>E_step\<close> returns them too, with an empty
  sequence of second moments.
\<close>

theorem single_observation:
  assumes "shape1_0 mu_init = shape3_2 C" "shape2_0 sigma_init = shape3_2 C"
    "shape2_1 sigma_init = shape3_2 C" "shape3_0 C = 1"
  shows "\<exists>ll mus sigmas xs.
           kalman_filter mu_init sigma_init A Q C R data heap1 = Inr (ll, mus, sigmas) \<and>
           rts_smoother mu_init sigma_init A Q C R data heap2 = Inr (ll, mus, sigmas) \<and>
           E_step mu_init sigma_init A Q C R data heap3 = Inr (ll, mus, sigmas, []) \<and>
           filter_and_sample mu_init sigma_init A Q C R data randn heap4 = Inr (ll, xs) \<and>
           rev [0..<shape3_0 C - 1] = []"
proof -
  let ?T = "shape3_0 C" and ?n = "shape3_2 C"
  let ?filt = "filt mu_init sigma_init A Q C R data"
  have ok: "init_ok mu_init sigma_init C" using assms by (simp add: init_ok_def)
  have T: "0 < ?T" using assms(4) by simp
  from rts_smoother_shape[OF ok, of A Q R data heap2] obtain s1 s2 where
    inv: "smoother_inv mu_init sigma_init A Q C R data ?T
             (s1, snd (snd (fwd mu_init sigma_init A Q C R data ?T)))"
    and s2: "s2 = fold (rts_step (shape3_1 A)) (rev [0..<?T - 1]) s1"
    and r: "rts_smoother mu_init sigma_init A Q C R data heap2
             = Inr (snd (snd (fwd mu_init sigma_init A Q C R data ?T)),
                    read_rows ?T ?n Buf_smoothed_mus s2, read_mats ?T ?n Buf_smoothed_sigmas s2)"
    by blast
  from E_step_shape[OF ok T, of A Q R data heap3] obtain s1' s2' where
    inv': "smoother_inv mu_init sigma_init A Q C R data ?T
             (s1', snd (snd (fwd mu_init sigma_init A Q C R data ?T)))"
    and s2': "s2' = fold (stats_step (shape3_1 A) ?n) (rev [0..<?T - 1]) s1'"
    and r': "E_step mu_init sigma_init A Q C R data heap3
             = Inr (snd (snd (fwd mu_init sigma_init A Q C R data ?T)),
                    read_rows ?T ?n Buf_smoothed_mus s2', read_mats ?T ?n Buf_smoothed_sigmas s2',
                    read_mats (?T - 1) ?n Buf_ExxnT s2')"
    by blast
  have e12: "s2 = s1" "s2' = s1'" using s2 s2' assms(4) by simp_all
  have rows: "read_rows ?T ?n Buf_smoothed_mus s1 = filtered_rows mu_init sigma_init A Q C R data"
    unfolding filtered_rows_def using inv by (intro read_rows_pure) (simp add: smoother_inv_def)
  have mats: "read_mats ?T ?n Buf_smoothed_sigmas s1 = filtered_mats mu_init sigma_init A Q C R data"
    unfolding filtered_mats_def using inv by (intro read_mats_pure) (simp add: smoother_inv_def)
  have rows': "read_rows ?T ?n Buf_smoothed_mus s1' = filtered_rows mu_init sigma_init A Q C R data"
    unfolding filtered_rows_def using inv' by (intro read_rows_pure) (simp add: smoother_inv_def)
  have mats': "read_mats ?T ?n Buf_smoothed_sigmas s1' = filtered_mats mu_init sigma_init A Q C R data"
    unfolding filtered_mats_def using inv' by (intro read_mats_pure) (simp add: smoother_inv_def)
  have ex: "read_mats (?T - 1) ?n Buf_ExxnT s2' = []" using assms(4) by (simp add: read_mats_def)
  have pos: "0 < shape3_0 C" using assms(4) by simp
  from filter_and_sample_ll[OF ok pos, of A Q R data randn heap4] obtain xs where
    fs: "filter_and_sample mu_init sigma_init A Q C R data randn heap4
             = Inr (snd (snd (fwd mu_init sigma_init A Q C R data ?T)), xs)" by blast
  show ?thesis
    using kalman_filter_pure[OF ok, of A Q R data heap1] r r' e12 rows mats rows' mats' ex fs assms(4)
    by simp
qed

text \<open>Witness for C10: the scalar model with one observation, with the values returned.\<close>

theorem single_observation_witness:
  "shape1_0 (scalar1 0) = shape3_2 (scalar3 1) \<and> shape2_0 (scalar2 3) = shape3_2 (scalar3 1) \<and>
   shape2_1 (scalar2 3) = shape3_2 (scalar3 1) \<and> shape3_0 (scalar3 1) = 1 \<and>
   rts_smoother (scalar1 0) (scalar2 3) (scalar3 1) (scalar3 1) (scalar3 1) (scalar3 1) (scalar2 3) no_heap
     = Inr (Fin (- (9 / 8) - ln (2 * pi) / 2 - ln 2), [[Fin (9 / 4)]], [[[Fin (3 / 4)]]]) \<and>
   E_step (scalar1 0) (scalar2 3) (scalar3 1) (scalar3 1) (scalar3 1) (scalar3 1) (scalar2 3) no_heap
     = Inr (Fin (- (9 / 8) - ln (2 * pi) / 2 - ln 2), [[Fin (9 / 4)]], [[[Fin (3 / 4)]]], []) \<and>
   (\<exists>xs. filter_and_sample (scalar1 0) (scalar2 3) (scalar3 1) (scalar3 1) (scalar3 1) (scalar3 1) (scalar2 3)
            no_draws no_heap
          = Inr (Fin (- (9 / 8) - ln (2 * pi) / 2 - ln 2), xs))"
proof -
  have h: "shape1_0 (scalar1 0) = shape3_2 (scalar3 1)" "shape2_0 (scalar2 3) = shape3_2 (scalar3 1)"
    "shape2_1 (scalar2 3) = shape3_2 (scalar3 1)" "shape3_0 (scalar3 1) = 1"
    by (simp_all add: example_defs)
  from single_observation[OF h, where A="scalar3 1" and Q="scalar3 1" and R="scalar3 1"
      and data="scalar2 3" and ?heap1.0=no_heap and ?heap2.0=no_heap and ?heap3.0=no_heap
      and ?heap4.0=no_heap and randn=no_draws] kalman_filter_scalar[of no_heap] h
  show ?thesis by auto
qed

subsection \<open>C1: a failed Cholesky factorisation\<close>




subsection \<open>C2: inconsistent dimensions\<close>

text \<open>
  C2 as stated fails.  With one time step in \<open>C\<close> and two rows in \<open>y\<close> the
  leading dimensions disagree, and \<open>kalman_filter\<close> returns the result for the first
  row.
\<close>

theorem extra_rows_accepted:
  "\<forall>heap. shape2_0 two_rows \<noteq> shape3_0 (scalar3 1) \<and>
     kalman_filter (scalar1 0) (scalar2 3) (scalar3 1) (scalar3 1) (scalar3 1) (scalar3 1) two_rows heap
       = Inr (Fin (- (9 / 8) - ln (2 * pi) / 2 - ln 2), [[Fin (9 / 4)]], [[[Fin (3 / 4)]]])"
  by (simp add: routine_defs backend_defs example_defs)

text \<open>
  C2 as amended.  The routines take \<open>T\<close>, \<open>p\<close> and \<open>n\<close> from \<open>C\<close> alone
  and compare none of them with the shape of \<open>y\<close>.  Let the initial belief have
  the shape that \<open>C\<close> fixes and \<open>T \<ge> 1\<close>, and let \<open>y\<close> and \<open>y'\<close> have rows
  of the same length, at least \<open>p\<close> and at least 1, and the same contents in their
  first \<open>T\<close> rows, whatever number of rows either declares and whatever \<open>y'\<close>
  holds after row \<open>T - 1\<close>.  Then each of the four routines returns normally on
  \<open>y'\<close>, with the result it returns on \<open>y\<close>: rows beyond \<open>T\<close> are ignored,
  not rejected.
\<close>

theorem rows_beyond_T_ignored:
  assumes "shape1_0 mu_init = shape3_2 C" "shape2_0 sigma_init = shape3_2 C"
    "shape2_1 sigma_init = shape3_2 C" "0 < shape3_0 C"
    and "shape2_1 data' = shape2_1 data" and "0 < shape2_1 data" and "shape3_1 C \<le> shape2_1 data"
    and "\<forall>z < shape3_0 C * shape2_1 data. flat2 data' z = flat2 data z"
  shows "(\<exists>r. kalman_filter mu_init sigma_init A Q C R data' heap1 = Inr r \<and>
              kalman_filter mu_init sigma_init A Q C R data heap1 = Inr r) \<and>
         (\<exists>r. rts_smoother mu_init sigma_init A Q C R data' heap2 = Inr r \<and>
              rts_smoother mu_init sigma_init A Q C R data heap2 = Inr r) \<and>
         (\<exists>r. filter_and_sample mu_init sigma_init A Q C R data' randn heap3 = Inr r \<and>
              filter_and_sample mu_init sigma_init A Q C R data randn heap3 = Inr r) \<and>
         (\<exists>r. E_step mu_init sigma_init A Q C R data' heap4 = Inr r \<and>
              E_step mu_init sigma_init A Q C R data heap4 = Inr r)"
proof -
  have ok: "init_ok mu_init sigma_init C" using assms(1-3) by (simp add: init_ok_def)
  note a = rows_agreeI[OF assms(5-8)]
  have k: "\<exists>r. kalman_filter mu_init sigma_init A Q C R data heap1 = Inr r"
    using kalman_filter_pure[OF ok, of A Q R data heap1] by simp
  have s: "\<exists>r. rts_smoother mu_init sigma_init A Q C R data heap2 = Inr r"
    using rts_smoother_shape[OF ok, of A Q R data heap2] by (elim exE conjE) simp
  have f: "\<exists>r. filter_and_sample mu_init sigma_init A Q C R data randn heap3 = Inr r"
    using filter_and_sample_ll[OF ok assms(4), of A Q R data randn heap3] by (elim exE) simp
  have e: "\<exists>r. E_step mu_init sigma_init A Q C R data heap4 = Inr r"
    using E_step_shape[OF ok assms(4), of A Q R data heap4] by (elim exE conjE) simp
  from k s f e show ?thesis
    unfolding kalman_filter_data[OF a] rts_smoother_data[OF a] filter_and_sample_data[OF a] E_step_data[OF a]
    by simp
qed

text \<open>
  Witness for the amended C2: the scalar model with one time step, and an observation
  array of three rows whose rows after the first hold another value.
\<close>

theorem rows_beyond_T_ignored_witness:
  "shape1_0 (scalar1 0) = shape3_2 (scalar3 1) \<and> shape2_0 (scalar2 3) = shape3_2 (scalar3 1) \<and>
   shape2_1 (scalar2 3) = shape3_2 (scalar3 1) \<and> 0 < shape3_0 (scalar3 1) \<and>
   shape2_1 longer_obs = shape2_1 (scalar2 3) \<and> 0 < shape2_1 (scalar2 3) \<and>
   shape3_1 (scalar3 1) \<le> shape2_1 (scalar2 3) \<and>
   flat2 longer_obs 0 = flat2 (scalar2 3) 0 \<and>
   shape2_0 longer_obs = 3 \<and> shape3_0 (scalar3 1) = 1 \<and> flat2 longer_obs 1 \<noteq> flat2 (scalar2 3) 1 \<and>
   kalman_filter (scalar1 0) (scalar2 3) (scalar3 1) (scalar3 1) (scalar3 1) (scalar3 1) longer_obs no_heap
     = Inr (Fin (- (9 / 8) - ln (2 * pi) / 2 - ln 2), [[Fin (9 / 4)]], [[[Fin (3 / 4)]]]) \<and>
   kalman_filter (scalar1 0) (scalar2 3) (scalar3 1) (scalar3 1) (scalar3 1) (scalar3 1) (scalar2 3) no_heap
     = Inr (Fin (- (9 / 8) - ln (2 * pi) / 2 - ln 2), [[Fin (9 / 4)]], [[[Fin (3 / 4)]]]) \<and>
   (\<exists>r. rts_smoother (scalar1 0) (scalar2 3) (scalar3 1) (scalar3 1) (scalar3 1) (scalar3 1) longer_obs no_heap
          = Inr r \<and>
        rts_smoother (scalar1 0) (scalar2 3) (scalar3 1) (scalar3 1) (scalar3 1) (scalar3 1) (scalar2 3) no_heap
          = Inr r) \<and>
   (\<exists>r. filter_and_sample (scalar1 0) (scalar2 3) (scalar3 1) (scalar3 1) (scalar3 1) (scalar3 1) longer_obs
          no_draws no_heap = Inr r \<and>
        filter_and_sample (scalar1 0) (scalar2 3) (scalar3 1) (scalar3 1) (scalar3 1) (scalar3 1) (scalar2 3)
          no_draws no_heap = Inr r) \<and>
   (\<exists>r. E_step (scalar1 0) (scalar2 3) (scalar3 1) (scalar3 1) (scalar3 1) (scalar3 1) longer_obs no_heap
          = Inr r \<and>
        E_step (scalar1 0) (scalar2 3) (scalar3 1) (scalar3 1) (scalar3 1) (scalar3 1) (scalar2 3) no_heap
          = Inr r)"
proof -
  have h: "shape1_0 (scalar1 0) = shape3_2 (scalar3 1)" "shape2_0 (scalar2 3) = shape3_2 (scalar3 1)"
    "shape2_1 (scalar2 3) = shape3_2 (scalar3 1)" "0 < shape3_0 (scalar3 1)"
    "shape2_1 longer_obs = shape2_1 (scalar2 3)" "0 < shape2_1 (scalar2 3)"
    "shape3_1 (scalar3 1) \<le> shape2_1 (scalar2 3)"
    by (simp_all add: example_defs longer_obs_def)
  have z: "flat2 longer_obs 0 = flat2 (scalar2 3) 0" by (simp add: example_defs longer_obs_def)
  then have h8: "\<forall>z < shape3_0 (scalar3 1) * shape2_1 (scalar2 3). flat2 longer_obs z = flat2 (scalar2 3) z"
    by (simp add: example_defs)
  have x: "shape2_0 longer_obs = 3" "shape3_0 (scalar3 1) = 1" "flat2 longer_obs 1 \<noteq> flat2 (scalar2 3) 1"
    by (simp_all add: example_defs longer_obs_def)
  note t = rows_beyond_T_ignored[OF h h8, where A="scalar3 1" and Q="scalar3 1" and R="scalar3 1"
      and ?heap1.0=no_heap and ?heap2.0=no_heap and ?heap3.0=no_heap and ?heap4.0=no_heap and randn=no_draws]
  from t kalman_filter_scalar[of no_heap]
  have k: "kalman_filter (scalar1 0) (scalar2 3) (scalar3 1) (scalar3 1) (scalar3 1) (scalar3 1) longer_obs no_heap
     = Inr (Fin (- (9 / 8) - ln (2 * pi) / 2 - ln 2), [[Fin (9 / 4)]], [[[Fin (3 / 4)]]])"
    by (elim exE conjE) simp
  from h z x k kalman_filter_scalar[of no_heap] t show ?thesis by (intro conjI) blast+
qed

subsection \<open>C4: the conditioning formulas\<close>

text \<open>
  C4.  Let the store hold a finite prior mean \<open>mu\<close>, a symmetric prior covariance
  \<open>Sg\<close>, an observation matrix \<open>Cm\<close>, a symmetric noise covariance \<open>Rm\<close> and a
  finite observation \<open>yv\<close> (so the observation is not missing), at separated
  pointers, with \<open>S = Cm Sg Cm^T + Rm\<close> positive definite and \<open>Si\<close> a right inverse
  of \<open>S\<close>.  Then \<open>condition_on\<close> leaves the mean \<open>mu + (Sg Cm^T) (Si r)\<close> in
  \<open>mu_cond\<close>, where \<open>r = yv - Cm mu\<close>, and the covariance
  \<open>Sg - (Sg Cm^T) (Si (Cm Sg))\<close> in \<open>sigma_cond\<close>; and it returns
  \<open>- 1/2 * sum z_i^2 - p/2 * ln (2 pi) - sum ln L_ii\<close> for a lower triangular \<open>L\<close>
  with positive diagonal, \<open>L L^T = S\<close> and \<open>L z = r\<close>, where \<open>sum z_i^2\<close> is the
  quadratic form \<open>r^T Si r\<close> of the Gaussian log-density.
\<close>

theorem conditioning_formulas:
  assumes "cond_sep mu_x sigma_x C sigma_obs y mu_cond sigma_cond temp_p temp_pn temp_pp"
    and "0 < p"
    and "holds_vec n (s mu_x) mu" "holds_rm n n (s sigma_x) Sg" "holds_rm p n (s C) Cm"
      "holds_rm p p (s sigma_obs) Rm" "holds_vec p (s y) yv"
    and "symmetric n Sg" "symmetric p Rm"
    and "pd_from 0 p (innov_cov n Cm Sg Rm)"
    and "right_inverse p (innov_cov n Cm Sg Rm) Si"
  shows "holds_vec n
           (snd (condition_on p n mu_x sigma_x C sigma_obs y mu_cond sigma_cond temp_p temp_pn temp_pp s) mu_cond)
           (\<lambda>i. mu i + mat_vec p (mat_mul n Sg (mat_T Cm)) (mat_vec p Si (innovation n Cm mu yv)) i) \<and>
         holds_rm n n
           (snd (condition_on p n mu_x sigma_x C sigma_obs y mu_cond sigma_cond temp_p temp_pn temp_pp s) sigma_cond)
           (\<lambda>i j. Sg i j - mat_mul p (mat_mul n Sg (mat_T Cm)) (mat_mul p Si (mat_mul n Cm Sg)) i j) \<and>
         (\<exists>L z. (\<forall>i<p. 0 < L i i) \<and>
                (\<forall>i<p. \<forall>j<p. mat_mul p (lowpart L) (mat_T (lowpart L)) i j = innov_cov n Cm Sg Rm i j) \<and>
                (\<forall>i<p. mat_vec p (lowpart L) z i = innovation n Cm mu yv i) \<and>
                fst (condition_on p n mu_x sigma_x C sigma_obs y mu_cond sigma_cond temp_p temp_pn temp_pp s)
                  = Fin (- (1 / 2) * (\<Sum>i<p. z i * z i) - real p / 2 * ln (2 * pi) - (\<Sum>i<p. ln (L i i))) \<and>
                (\<Sum>i<p. z i * z i)
                  = (\<Sum>i<p. innovation n Cm mu yv i * mat_vec p Si (innovation n Cm mu yv) i))"
proof -
  let ?mx = "restrict n (s mu_x)" and ?sx = "restrict (n * n) (s sigma_x)" and ?C = "restrict (n * p) (s C)"
    and ?R = "restrict (p * p) (s sigma_obs)" and ?y = "restrict p (s y)"
  have "s y 0 = Fin (yv 0)" using assms(2,7) by (simp add: holds_vec_def)
  then have cp: "cond_pure p n (s mu_x) (s sigma_x) (s C) (s sigma_obs) (s y)
      = (cond_ll p n ?mx ?sx ?C ?R ?y, cond_mu p n ?mx ?sx ?C ?R ?y, cond_sigma p n ?sx ?C ?R)"
    by (simp add: cond_pure_def Let_def)
  have h: "holds_rm p n ?C Cm" "holds_rm n n ?sx Sg" "holds_rm p p ?R Rm" "holds_vec n ?mx mu" "holds_vec p ?y yv"
    using assms(3-7) by simp_all
  note f = cond_pure_formulas[OF h assms(8-11)]
  note sep = assms(1)
  have 1: "holds_vec n
           (snd (condition_on p n mu_x sigma_x C sigma_obs y mu_cond sigma_cond temp_p temp_pn temp_pp s) mu_cond)
           (\<lambda>i. mu i + mat_vec p (mat_mul n Sg (mat_T Cm)) (mat_vec p Si (innovation n Cm mu yv)) i)"
    using condition_on_mu[OF sep, of n p s] f[THEN conjunct1]
    by (simp add: cp holds_vec_eq_on)
  have 2: "holds_rm n n
           (snd (condition_on p n mu_x sigma_x C sigma_obs y mu_cond sigma_cond temp_p temp_pn temp_pp s) sigma_cond)
           (\<lambda>i j. Sg i j - mat_mul p (mat_mul n Sg (mat_T Cm)) (mat_mul p Si (mat_mul n Cm Sg)) i j)"
    using condition_on_sigma[OF sep, of n p s] f[THEN conjunct2, THEN conjunct1]
    by (simp add: cp holds_rm_eq_on)
  have 3: "fst (condition_on p n mu_x sigma_x C sigma_obs y mu_cond sigma_cond temp_p temp_pn temp_pp s)
      = cond_ll p n ?mx ?sx ?C ?R ?y"
    by (simp add: condition_on_ll[OF sep] cp)
  show ?thesis
    unfolding 3 using 1 2 f[THEN conjunct2, THEN conjunct2] by (intro conjI)
qed

text \<open>
  Witness for C4: the conditioning step of the scalar model (prior mean 0 and variance
  3, \<open>C = R = 1\<close>, observation 3), where \<open>S = 4\<close>, the mean becomes \<open>9/4\<close> and the
  variance \<open>3/4\<close>.
\<close>

theorem conditioning_formulas_witness:
  "cond_sep (Buf_mu_predict, 0) (Buf_sigma_predict, 0) (Buf_C, 0) (Buf_sigma_obs, 0) (Buf_data, 0)
     (Buf_filtered_mus, 0) (Buf_filtered_sigmas, 0) (Buf_temp_p, 0) (Buf_temp_pn, 0) (Buf_temp_pp, 0) \<and>
   0 < (1::nat) \<and>
   holds_vec 1 (copy_init (scalar1 0) (scalar2 3)
       (load_inputs (scalar3 1) (scalar3 1) (scalar3 1) (scalar3 1) (scalar2 3) no_heap) (Buf_mu_predict, 0)) (\<lambda>i. 0) \<and>
   holds_rm 1 1 (copy_init (scalar1 0) (scalar2 3)
       (load_inputs (scalar3 1) (scalar3 1) (scalar3 1) (scalar3 1) (scalar2 3) no_heap) (Buf_sigma_predict, 0)) (\<lambda>i j. 3) \<and>
   holds_rm 1 1 (copy_init (scalar1 0) (scalar2 3)
       (load_inputs (scalar3 1) (scalar3 1) (scalar3 1) (scalar3 1) (scalar2 3) no_heap) (Buf_C, 0)) (\<lambda>i j. 1) \<and>
   holds_rm 1 1 (copy_init (scalar1 0) (scalar2 3)
       (load_inputs (scalar3 1) (scalar3 1) (scalar3 1) (scalar3 1) (scalar2 3) no_heap) (Buf_sigma_obs, 0)) (\<lambda>i j. 1) \<and>
   holds_vec 1 (copy_init (scalar1 0) (scalar2 3)
       (load_inputs (scalar3 1) (scalar3 1) (scalar3 1) (scalar3 1) (scalar2 3) no_heap) (Buf_data, 0)) (\<lambda>i. 3) \<and>
   symmetric 1 (\<lambda>i j. 3) \<and> symmetric 1 (\<lambda>i j. 1) \<and>
   pd_from 0 1 (innov_cov 1 (\<lambda>i j. 1) (\<lambda>i j. 3) (\<lambda>i j. 1)) \<and>
   right_inverse 1 (innov_cov 1 (\<lambda>i j. 1) (\<lambda>i j. 3) (\<lambda>i j. 1)) (\<lambda>i j. 1 / 4) \<and>
   holds_vec 1
     (snd (condition_on 1 1 (Buf_mu_predict, 0) (Buf_sigma_predict, 0) (Buf_C, 0) (Buf_sigma_obs, 0) (Buf_data, 0)
        (Buf_filtered_mus, 0) (Buf_filtered_sigmas, 0) (Buf_temp_p, 0) (Buf_temp_pn, 0) (Buf_temp_pp, 0)
        (copy_init (scalar1 0) (scalar2 3)
           (load_inputs (scalar3 1) (scalar3 1) (scalar3 1) (scalar3 1) (scalar2 3) no_heap))) (Buf_filtered_mus, 0))
     (\<lambda>i. 9 / 4) \<and>
   holds_rm 1 1
     (snd (condition_on 1 1 (Buf_mu_predict, 0) (Buf_sigma_predict, 0) (Buf_C, 0) (Buf_sigma_obs, 0) (Buf_data, 0)
        (Buf_filtered_mus, 0) (Buf_filtered_sigmas, 0) (Buf_temp_p, 0) (Buf_temp_pn, 0) (Buf_temp_pp, 0)
        (copy_init (scalar1 0) (scalar2 3)
           (load_inputs (scalar3 1) (scalar3 1) (scalar3 1) (scalar3 1) (scalar2 3) no_heap))) (Buf_filtered_sigmas, 0))
     (\<lambda>i j. 3 / 4) \<and>
   (\<exists>(L::rmat) (z::rvec). 0 < L 0 0 \<and> L 0 0 * L 0 0 = (4::real) \<and> L 0 0 * z 0 = (3::real) \<and>
      fst (condition_on 1 1 (Buf_mu_predict, 0) (Buf_sigma_predict, 0) (Buf_C, 0) (Buf_sigma_obs, 0) (Buf_data, 0)
        (Buf_filtered_mus, 0) (Buf_filtered_sigmas, 0) (Buf_temp_p, 0) (Buf_temp_pn, 0) (Buf_temp_pp, 0)
        (copy_init (scalar1 0) (scalar2 3)
           (load_inputs (scalar3 1) (scalar3 1) (scalar3 1) (scalar3 1) (scalar2 3) no_heap)))
       = Fin (- (1 / 2) * (z 0 * z 0) - 1 / 2 * ln (2 * pi) - ln (L 0 0)) \<and>
      z 0 * z 0 = 9 / 4)"
proof -
  let ?s = "copy_init (scalar1 0) (scalar2 3)
       (load_inputs (scalar3 1) (scalar3 1) (scalar3 1) (scalar3 1) (scalar2 3) no_heap)"
  have ic: "innov_cov 1 (\<lambda>i j. 1) (\<lambda>i j. 3) (\<lambda>i j. 1) = (\<lambda>i j. 4)"
    by (simp add: innov_cov_def)
  have h1: "cond_sep (Buf_mu_predict, 0) (Buf_sigma_predict, 0) (Buf_C, 0) (Buf_sigma_obs, 0) (Buf_data, 0)
     (Buf_filtered_mus, 0) (Buf_filtered_sigmas, 0) (Buf_temp_p, 0) (Buf_temp_pn, 0) (Buf_temp_pp, 0)"
    by (simp add: cond_sep_def)
  have h2: "0 < (1::nat)" by simp
  have h3: "holds_vec 1 (?s (Buf_mu_predict, 0)) (\<lambda>i. 0)"
    and h4: "holds_rm 1 1 (?s (Buf_sigma_predict, 0)) (\<lambda>i j. 3)"
    and h5: "holds_rm 1 1 (?s (Buf_C, 0)) (\<lambda>i j. 1)"
    and h6: "holds_rm 1 1 (?s (Buf_sigma_obs, 0)) (\<lambda>i j. 1)"
    and h7: "holds_vec 1 (?s (Buf_data, 0)) (\<lambda>i. 3)"
    by (simp_all add: holds_vec_def holds_rm_def routine_defs backend_defs example_defs)
  have h8: "symmetric 1 (\<lambda>i j. 3)" and h9: "symmetric 1 (\<lambda>i j. 1)"
    by (simp_all add: symmetric_def)
  have h10: "pd_from 0 1 (innov_cov 1 (\<lambda>i j. 1) (\<lambda>i j. 3) (\<lambda>i j. 1))"
    unfolding ic by (rule pd_scalar) simp
  have h11: "right_inverse 1 (innov_cov 1 (\<lambda>i j. 1) (\<lambda>i j. 3) (\<lambda>i j. 1)) (\<lambda>i j. 1 / 4)"
    unfolding ic by (simp add: right_inverse_def mat_mul_def)
  note r = conditioning_formulas[OF h1 h2 h3 h4 h5 h6 h7 h8 h9 h10 h11]
  have r1: "holds_vec 1
     (snd (condition_on 1 1 (Buf_mu_predict, 0) (Buf_sigma_predict, 0) (Buf_C, 0) (Buf_sigma_obs, 0) (Buf_data, 0)
        (Buf_filtered_mus, 0) (Buf_filtered_sigmas, 0) (Buf_temp_p, 0) (Buf_temp_pn, 0) (Buf_temp_pp, 0) ?s)
        (Buf_filtered_mus, 0))
     (\<lambda>i. 9 / 4)"
    by (rule holds_vec_cong[OF r[THEN conjunct1]])
       (simp add: mat_vec_def mat_mul_def mat_T_def innovation_def)
  have r2: "holds_rm 1 1
     (snd (condition_on 1 1 (Buf_mu_predict, 0) (Buf_sigma_predict, 0) (Buf_C, 0) (Buf_sigma_obs, 0) (Buf_data, 0)
        (Buf_filtered_mus, 0) (Buf_filtered_sigmas, 0) (Buf_temp_p, 0) (Buf_temp_pn, 0) (Buf_temp_pp, 0) ?s)
        (Buf_filtered_sigmas, 0))
     (\<lambda>i j. 3 / 4)"
    by (rule holds_rm_cong[OF r[THEN conjunct2, THEN conjunct1]])
       (simp add: mat_vec_def mat_mul_def mat_T_def innovation_def)
  have r3: "\<exists>(L::rmat) (z::rvec). 0 < L 0 0 \<and> L 0 0 * L 0 0 = (4::real) \<and> L 0 0 * z 0 = (3::real) \<and>
      fst (condition_on 1 1 (Buf_mu_predict, 0) (Buf_sigma_predict, 0) (Buf_C, 0) (Buf_sigma_obs, 0) (Buf_data, 0)
        (Buf_filtered_mus, 0) (Buf_filtered_sigmas, 0) (Buf_temp_p, 0) (Buf_temp_pn, 0) (Buf_temp_pp, 0) ?s)
       = Fin (- (1 / 2) * (z 0 * z 0) - 1 / 2 * ln (2 * pi) - ln (L 0 0)) \<and>
      z 0 * z 0 = 9 / 4"
    using r[THEN conjunct2, THEN conjunct2] unfolding ic
    by (simp add: mat_vec_def mat_mul_def mat_T_def innovation_def lowpart_def)
  from h1 h2 h3 h4 h5 h6 h7 h8 h9 h10 h11 r1 r2 r3 show ?thesis by (intro conjI)
qed

subsection \<open>C8: returned covariances are symmetric and positive semi-definite\<close>

text \<open>
  C8.  Let the initial belief have the shape that \<open>C\<close> fixes, let the matrices of the
  model be finite, let \<open>Sigma_0\<close>, every \<open>Q[t]\<close> and every \<open>R[t]\<close> be symmetric and
  positive semi-definite, and let the innovation covariance be positive definite at
  every observed step.  Then every covariance that \<open>kalman_filter\<close> returns is finite,
  symmetric and positive semi-definite, in exact arithmetic.  If moreover \<open>A\<close> has
  \<open>n\<close> rows and the predicted covariances at steps \<open>1, ..., T - 1\<close> are positive
  definite, the same holds of every covariance that \<open>rts_smoother\<close> returns and, for
  \<open>T \<ge> 1\<close>, of every covariance that \<open>E_step\<close> returns.
\<close>

theorem covariances_symmetric_psd:
  assumes "init_ok mu_init sigma_init C"
    and "cov_inputs_ok sigma_init A Q C R" and "cov_inputs_psd sigma_init Q C R"
    and "innovations_pd mu_init sigma_init A Q C R data"
  shows "(\<exists>ll mus sigmas. kalman_filter mu_init sigma_init A Q C R data heap1 = Inr (ll, mus, sigmas) \<and>
            length sigmas = shape3_0 C \<and> (\<forall>t<shape3_0 C. cov_matrix (shape3_2 C) (sigmas ! t))) \<and>
         (shape3_1 A = shape3_2 C \<and> predictions_pd mu_init sigma_init A Q C R data \<longrightarrow>
            (\<exists>ll mus sigmas. rts_smoother mu_init sigma_init A Q C R data heap2 = Inr (ll, mus, sigmas) \<and>
               length sigmas = shape3_0 C \<and> (\<forall>t<shape3_0 C. cov_matrix (shape3_2 C) (sigmas ! t))) \<and>
            (0 < shape3_0 C \<longrightarrow>
               (\<exists>ll mus sigmas Exx. E_step mu_init sigma_init A Q C R data heap3 = Inr (ll, mus, sigmas, Exx) \<and>
                  length sigmas = shape3_0 C \<and> (\<forall>t<shape3_0 C. cov_matrix (shape3_2 C) (sigmas ! t)))))"
proof (intro conjI impI)
  note iok = assms(1) and ok = assms(2) and ps = assms(3) and ipd = assms(4)
  let ?T = "shape3_0 C" and ?n = "shape3_2 C"
  have "cov_matrix ?n (filtered_mats mu_init sigma_init A Q C R data ! t)" if "t < ?T" for t
    using filt_cov_ok[OF ok ipd that] ps by (intro cov_ok_filtered[OF _ that]) simp
  then show "\<exists>ll mus sigmas. kalman_filter mu_init sigma_init A Q C R data heap1 = Inr (ll, mus, sigmas) \<and>
            length sigmas = ?T \<and> (\<forall>t<?T. cov_matrix ?n (sigmas ! t))"
    by (simp add: kalman_filter_pure[OF iok])
next
  note iok = assms(1) and ok = assms(2) and ps = assms(3) and ipd = assms(4)
  let ?T = "shape3_0 C" and ?n = "shape3_2 C"
  assume a: "shape3_1 A = ?n \<and> predictions_pd mu_init sigma_init A Q C R data"
  then have sh: "shape3_1 A = ?n" and ppd: "predictions_pd mu_init sigma_init A Q C R data" by simp_all
  from rts_smoother_shape[OF iok, of A Q R data heap2] obtain s1 s2 where
    inv: "smoother_inv mu_init sigma_init A Q C R data ?T
             (s1, snd (snd (fwd mu_init sigma_init A Q C R data ?T)))"
    and s2: "s2 = fold (rts_step (shape3_1 A)) (rev [0..<?T - 1]) s1"
    and r: "rts_smoother mu_init sigma_init A Q C R data heap2
             = Inr (snd (snd (fwd mu_init sigma_init A Q C R data ?T)),
                    read_rows ?T ?n Buf_smoothed_mus s2, read_mats ?T ?n Buf_smoothed_sigmas s2)"
    by blast
  have b: "back_inv mu_init sigma_init A Q C R data 0 s2"
    unfolding s2 sh by (rule fold_rts_back_inv[OF ok ipd ppd order_refl back_inv_init[OF ok ipd inv]])
  have "cov_matrix ?n (read_mats ?T ?n Buf_smoothed_sigmas s2 ! t)" if "t < ?T" for t
    by (rule cov_ok_matrix[where s=s2 and b=Buf_smoothed_sigmas, OF back_inv_cov[OF b ps that] that])
  then show "\<exists>ll mus sigmas. rts_smoother mu_init sigma_init A Q C R data heap2 = Inr (ll, mus, sigmas) \<and>
               length sigmas = ?T \<and> (\<forall>t<?T. cov_matrix ?n (sigmas ! t))"
    by (simp add: r)
next
  note iok = assms(1) and ok = assms(2) and ps = assms(3) and ipd = assms(4)
  let ?T = "shape3_0 C" and ?n = "shape3_2 C"
  assume a: "shape3_1 A = ?n \<and> predictions_pd mu_init sigma_init A Q C R data" and T: "0 < ?T"
  then have sh: "shape3_1 A = ?n" and ppd: "predictions_pd mu_init sigma_init A Q C R data" by simp_all
  from E_step_shape[OF iok T, of A Q R data heap3] obtain s1 s2 where
    inv: "smoother_inv mu_init sigma_init A Q C R data ?T
             (s1, snd (snd (fwd mu_init sigma_init A Q C R data ?T)))"
    and s2: "s2 = fold (stats_step (shape3_1 A) ?n) (rev [0..<?T - 1]) s1"
    and r: "E_step mu_init sigma_init A Q C R data heap3
             = Inr (snd (snd (fwd mu_init sigma_init A Q C R data ?T)),
                    read_rows ?T ?n Buf_smoothed_mus s2, read_mats ?T ?n Buf_smoothed_sigmas s2,
                    read_mats (?T - 1) ?n Buf_ExxnT s2)"
    by blast
  have b: "back_inv mu_init sigma_init A Q C R data 0 s2"
    unfolding s2 sh by (rule fold_stats_back_inv[OF ok ipd ppd order_refl back_inv_init[OF ok ipd inv]])
  have "cov_matrix ?n (read_mats ?T ?n Buf_smoothed_sigmas s2 ! t)" if "t < ?T" for t
    by (rule cov_ok_matrix[where s=s2 and b=Buf_smoothed_sigmas, OF back_inv_cov[OF b ps that] that])
  then show "\<exists>ll mus sigmas Exx. E_step mu_init sigma_init A Q C R data heap3 = Inr (ll, mus, sigmas, Exx) \<and>
                  length sigmas = ?T \<and> (\<forall>t<?T. cov_matrix ?n (sigmas ! t))"
    by (simp add: r)
qed

text \<open>
  Witness for C8: the scalar model with two observed time steps (prior variance 3,
  \<open>A = Q = C = R = 1\<close>), whose innovation variances are 4 and \<open>11/4\<close> and whose
  predicted variance at step 1 is \<open>7/4\<close>.
\<close>

theorem covariances_symmetric_psd_witness:
  "init_ok (scalar1 0) (scalar2 3) (pair3 1) \<and>
   cov_inputs_ok (scalar2 3) (pair3 1) (pair3 1) (pair3 1) (pair3 1) \<and>
   cov_inputs_psd (scalar2 3) (pair3 1) (pair3 1) (pair3 1) \<and>
   innovations_pd (scalar1 0) (scalar2 3) (pair3 1) (pair3 1) (pair3 1) (pair3 1) two_rows \<and>
   shape3_1 (pair3 1) = shape3_2 (pair3 1) \<and>
   predictions_pd (scalar1 0) (scalar2 3) (pair3 1) (pair3 1) (pair3 1) (pair3 1) two_rows \<and>
   0 < shape3_0 (pair3 1) \<and>
   (\<exists>ll mus sigmas.
      kalman_filter (scalar1 0) (scalar2 3) (pair3 1) (pair3 1) (pair3 1) (pair3 1) two_rows no_heap
        = Inr (ll, mus, sigmas) \<and>
      length sigmas = 2 \<and> cov_matrix 1 (sigmas ! 0) \<and> cov_matrix 1 (sigmas ! 1)) \<and>
   (\<exists>ll mus sigmas.
      rts_smoother (scalar1 0) (scalar2 3) (pair3 1) (pair3 1) (pair3 1) (pair3 1) two_rows no_heap
        = Inr (ll, mus, sigmas) \<and>
      length sigmas = 2 \<and> cov_matrix 1 (sigmas ! 0) \<and> cov_matrix 1 (sigmas ! 1)) \<and>
   (\<exists>ll mus sigmas Exx.
      E_step (scalar1 0) (scalar2 3) (pair3 1) (pair3 1) (pair3 1) (pair3 1) two_rows no_heap
        = Inr (ll, mus, sigmas, Exx) \<and>
      length sigmas = 2 \<and> cov_matrix 1 (sigmas ! 0) \<and> cov_matrix 1 (sigmas ! 1))"
proof -
  note h = pair_hyps(1-4)
  have sh: "shape3_1 (pair3 1) = shape3_2 (pair3 1)" and T: "0 < shape3_0 (pair3 1)"
    by (simp_all add: pair3_simps)
  note r = covariances_symmetric_psd[OF h, of no_heap no_heap no_heap]
  from r[THEN conjunct1] have 1: "\<exists>ll mus sigmas.
      kalman_filter (scalar1 0) (scalar2 3) (pair3 1) (pair3 1) (pair3 1) (pair3 1) two_rows no_heap
        = Inr (ll, mus, sigmas) \<and>
      length sigmas = 2 \<and> cov_matrix 1 (sigmas ! 0) \<and> cov_matrix 1 (sigmas ! 1)"
    by (simp add: pair3_simps all_less_2)
  from r[THEN conjunct2] sh pair_hyps(5) T have 2: "\<exists>ll mus sigmas.
      rts_smoother (scalar1 0) (scalar2 3) (pair3 1) (pair3 1) (pair3 1) (pair3 1) two_rows no_heap
        = Inr (ll, mus, sigmas) \<and>
      length sigmas = 2 \<and> cov_matrix 1 (sigmas ! 0) \<and> cov_matrix 1 (sigmas ! 1)"
    and 3: "\<exists>ll mus sigmas Exx.
      E_step (scalar1 0) (scalar2 3) (pair3 1) (pair3 1) (pair3 1) (pair3 1) two_rows no_heap
        = Inr (ll, mus, sigmas, Exx) \<and>
      length sigmas = 2 \<and> cov_matrix 1 (sigmas ! 0) \<and> cov_matrix 1 (sigmas ! 1)"
    by (simp_all add: pair3_simps all_less_2)
  from h sh pair_hyps(5) T 1 2 3 show ?thesis by (intro conjI)
qed

subsection \<open>C7: the second moments of \<open>E_step\<close>\<close>

text \<open>
  What \<open>E_step\<close> returns.  \<open>set_dynamics_stats\<close> forms
  \<open>G\<^sub>t Sigma\<^sub>t\<^sub>+\<^sub>1 + mu\<^sub>t mu\<^sub>t\<^sub>+\<^sub>1\<^sup>T\<close> in column-major order (its \<open>GkT\<close> is declared
  Fortran-contiguous) and writes it into a slice of \<open>ExxnT\<close>, which is C-ordered.
  For an initial belief of the shape that \<open>C\<close> fixes, \<open>A\<close> of \<open>n\<close> rows,
  \<open>T \<ge> 1\<close>, finite inputs with symmetric covariances, positive definite innovation
  covariances at the observed steps, positive definite predicted covariances at the
  steps \<open>1, ..., T - 1\<close>, and \<open>G t\<close> the smoothing gain at \<open>t\<close>, entry \<open>(i, j)\<close> of
  the returned matrix for \<open>t\<close> is therefore entry \<open>(j, i)\<close> of that matrix.
\<close>

lemma E_step_second_moments:
  assumes "init_ok mu_init sigma_init C" and "shape3_1 A = shape3_2 C" and "0 < shape3_0 C"
    and "cov_inputs_ok sigma_init A Q C R"
    and "innovations_pd mu_init sigma_init A Q C R data"
    and "predictions_pd mu_init sigma_init A Q C R data"
    and "mean_inputs_ok mu_init C data"
    and "gain_ok mu_init sigma_init A Q C R data G"
  shows "\<exists>ll mus sigmas Exx.
           E_step mu_init sigma_init A Q C R data heap = Inr (ll, mus, sigmas, Exx) \<and>
           length Exx = shape3_0 C - 1 \<and>
           (\<forall>t. Suc t < shape3_0 C \<longrightarrow>
              (\<forall>i<shape3_2 C. \<forall>j<shape3_2 C.
                 Exx ! t ! i ! j = Fin (cross_moment (shape3_2 C) (G t) mus sigmas t j i)))"
proof -
  let ?T = "shape3_0 C" and ?n = "shape3_2 C"
  from E_step_moments[OF assms, of heap] obtain ll mus sigmas Exx where
    r: "E_step mu_init sigma_init A Q C R data heap = Inr (ll, mus, sigmas, Exx)"
    and len: "length Exx = ?T - 1"
    and m: "\<forall>t. Suc t < ?T \<longrightarrow>
              symmetric ?n (mat_of (sigmas ! Suc t)) \<and>
              (\<forall>i<?n. \<forall>j<?n.
                 Exx ! t ! i ! j
                 = Fin (mat_mul ?n (mat_of (sigmas ! Suc t)) (mat_T (G t)) i j
                        + vec_of (mus ! Suc t) i * vec_of (mus ! t) j))"
    by (elim exE conjE) (rule that, assumption+)
  have "Exx ! t ! i ! j = Fin (cross_moment ?n (G t) mus sigmas t j i)"
    if t: "Suc t < ?T" and i: "i < ?n" and j: "j < ?n" for t i j
  proof -
    from m t have s: "symmetric ?n (mat_of (sigmas ! Suc t))"
      and e: "Exx ! t ! i ! j
                 = Fin (mat_mul ?n (mat_of (sigmas ! Suc t)) (mat_T (G t)) i j
                        + vec_of (mus ! Suc t) i * vec_of (mus ! t) j)"
      using i j by simp_all
    have "mat_mul ?n (mat_of (sigmas ! Suc t)) (mat_T (G t)) i j = mat_mul ?n (G t) (mat_of (sigmas ! Suc t)) j i"
      unfolding mat_mul_def mat_T_def
      by (intro sum.cong refl) (use s i in \<open>simp add: symmetric_def mult.commute\<close>)
    with e show ?thesis by (simp add: cross_moment_def mult.commute)
  qed
  with r len show ?thesis by blast
qed

text \<open>
  C7.  The comment of the source at the backward loop of \<open>E_step\<close> says that the
  loop sets \<open>E[x\<^sub>t x\<^sub>t\<^sub>+\<^sub>1\<^sup>T]\<close>, and the claim gives a formula for the matrix
  returned.  On the two-dimensional model \<open>demo\<close> (\<open>T = 2\<close>, both observations
  missing; a valid input by \<open>demo_hyps\<close>, \<open>demo_psd\<close> and
  \<open>demo_predictions_pd\<close>) the returned matrix is neither.  \<open>demo_G 0\<close> is the
  smoothing gain at step 0: it solves \<open>G P\<^sub>1 = F\<^sub>0 A\<^sub>0\<^sup>T\<close>, with \<open>F\<^sub>0\<close> the filtered
  and \<open>P\<^sub>1\<close> the predicted covariance.  \<open>E_step\<close> returns the single matrix
  \<open>[[1, 0], [1, 1]]\<close>; the cross moment
  \<open>E[x\<^sub>0 x\<^sub>1\<^sup>T] = G\<^sub>0 Sigma\<^sub>1 + mu\<^sub>0 mu\<^sub>1\<^sup>T\<close> of the returned smoothed sequence is
  \<open>[[1, 1], [0, 1]]\<close>, the transpose of what is returned; and the matrix
  \<open>G\<^sub>0\<^sup>T Sigma\<^sub>1 + mu\<^sub>0 mu\<^sub>1\<^sup>T\<close> of the claim is \<open>[[0, -1], [1, 2]]\<close>.
\<close>

theorem cross_moment_returned_transposed:
  "\<exists>ll mus sigmas Exx.
     E_step demo_mu demo_sigma demo_A demo_Q demo_C demo_R demo_data no_heap = Inr (ll, mus, sigmas, Exx) \<and>
     Exx = [[[Fin 1, Fin 0], [Fin 1, Fin 1]]] \<and>
     mat_rows 2 (mat_mul 2 (demo_G 0) (pred_cov demo_mu demo_sigma demo_A demo_Q demo_C demo_R demo_data 1))
       = mat_rows 2 (mat_mul 2 (filt_cov demo_mu demo_sigma demo_A demo_Q demo_C demo_R demo_data 0)
                       (mat_T (rd_rm 2 (slab3 demo_A 0)))) \<and>
     mat_rows 2 (cross_moment 2 (demo_G 0) mus sigmas 0) = [[1, 1], [0, 1]] \<and>
     mat_rows 2 (cross_moment 2 (mat_T (demo_G 0)) mus sigmas 0) = [[0, - 1], [1, 2]]"
proof -
  let ?P = "pred_cov demo_mu demo_sigma demo_A demo_Q demo_C demo_R demo_data (Suc 0)"
  from E_step_moments[OF demo_hyps(1,2,3,4,5) demo_predictions_pd demo_hyps(6) demo_gain, of no_heap]
  obtain ll mus sigmas Exx where
    r: "E_step demo_mu demo_sigma demo_A demo_Q demo_C demo_R demo_data no_heap = Inr (ll, mus, sigmas, Exx)"
    and m: "\<forall>t. Suc t < shape3_0 demo_C \<longrightarrow>
              symmetric (shape3_2 demo_C) (mat_of (sigmas ! Suc t)) \<and>
              (\<forall>i<shape3_2 demo_C. \<forall>j<shape3_2 demo_C.
                 Exx ! t ! i ! j
                 = Fin (mat_mul (shape3_2 demo_C) (mat_of (sigmas ! Suc t)) (mat_T (demo_G t)) i j
                        + vec_of (mus ! Suc t) i * vec_of (mus ! t) j))"
    and lm: "\<forall>i<shape3_2 demo_C. mus ! (shape3_0 demo_C - 1) ! i
              = fst (filt demo_mu demo_sigma demo_A demo_Q demo_C demo_R demo_data (shape3_0 demo_C - 1)) i"
    and ls: "\<forall>i<shape3_2 demo_C. \<forall>j<shape3_2 demo_C. sigmas ! (shape3_0 demo_C - 1) ! i ! j
              = snd (filt demo_mu demo_sigma demo_A demo_Q demo_C demo_R demo_data (shape3_0 demo_C - 1))
                  (i * shape3_2 demo_C + j)"
    by (elim exE conjE) (rule that, assumption+)
  from E_step_shape[OF demo_hyps(1,3), of demo_A demo_Q demo_R demo_data no_heap] r
  obtain s2 where x: "Exx = read_mats (shape3_0 demo_C - 1) (shape3_2 demo_C) Buf_ExxnT s2"
    by auto
  from ls have s1: "sigmas ! Suc 0 ! i ! j = Fin (?P i j)" if "i < 2" "j < 2" for i j
    using that by (simp add: demo_simps demo_filt_1)
  from lm have m1: "mus ! Suc 0 ! i = Fin 0" if "i < 2" for i
    using that demo_filt_1(2)[OF that that] by (simp add: demo_simps)
  have sg: "mat_of (sigmas ! Suc 0) 0 0 = 1" "mat_of (sigmas ! Suc 0) 0 (Suc 0) = 1"
    "mat_of (sigmas ! Suc 0) (Suc 0) 0 = 1" "mat_of (sigmas ! Suc 0) (Suc 0) (Suc 0) = 2"
    by (simp_all add: mat_of_def s1 demo_pred_cov_1)
  have mu: "vec_of (mus ! Suc 0) 0 = 0" "vec_of (mus ! Suc 0) (Suc 0) = 0"
    by (simp_all add: vec_of_def m1)
  from m have e: "Exx ! 0 ! i ! j
      = Fin (mat_mul 2 (mat_of (sigmas ! Suc 0)) (mat_T (demo_G 0)) i j
             + vec_of (mus ! Suc 0) i * vec_of (mus ! 0) j)" if "i < 2" "j < 2" for i j
    using that by (simp add: demo_simps)
  have v: "Exx ! 0 ! 0 ! 0 = Fin 1" "Exx ! 0 ! 0 ! Suc 0 = Fin 0"
    "Exx ! 0 ! Suc 0 ! 0 = Fin 1" "Exx ! 0 ! Suc 0 ! Suc 0 = Fin 1"
    by (simp_all add: e mat_mul_def mat_T_def lessThan_2 demo_G_def sg mu)
  have a: "Exx = [[[Fin 1, Fin 0], [Fin 1, Fin 1]]]"
    using v unfolding x by (simp add: read_mats_def demo_simps upt_2)
  have g: "mat_rows 2 (mat_mul 2 (demo_G 0) (pred_cov demo_mu demo_sigma demo_A demo_Q demo_C demo_R demo_data 1))
       = mat_rows 2 (mat_mul 2 (filt_cov demo_mu demo_sigma demo_A demo_Q demo_C demo_R demo_data 0)
                       (mat_T (rd_rm 2 (slab3 demo_A 0))))"
    by (simp add: mat_rows_def upt_2 mat_mul_def mat_T_def lessThan_2 demo_G_def
        demo_pred_cov_1 demo_filt_cov_0 rd_rm_def demo_simps)
  have b: "mat_rows 2 (cross_moment 2 (demo_G 0) mus sigmas 0) = [[1, 1], [0, 1]]"
    by (simp add: mat_rows_def upt_2 cross_moment_def mat_mul_def lessThan_2 demo_G_def sg mu)
  have c: "mat_rows 2 (cross_moment 2 (mat_T (demo_G 0)) mus sigmas 0) = [[0, - 1], [1, 2]]"
    by (simp add: mat_rows_def upt_2 cross_moment_def mat_mul_def mat_T_def lessThan_2 demo_G_def sg mu)
  from r a g b c show ?thesis by blast
qed


end
